(* ===== verification/Prelude.thy ===== *)
theory Prelude
  imports Main "HOL-Library.Word" "HOL-Library.AList" "HOL-Library.Monad_Syntax"
begin

text \<open>
  The vocabulary every component shares: machine addresses and bytes, the CPython
  version the sampler is compiled for, the collections of simplification rules the
  component theories fill, and lemmas on lists, options and words.

  Conventions of the whole development. A value of type \<^typ>\<open>'a option\<close> returned by
  an operation that is a C++ statement sequence is \<^term>\<open>None\<close> when executing it is
  undefined (a dead object is read, a null pointer is followed, an iterator dangles);
  a loop that does not end is stated as such where it can happen. A fallible C++
  function that returns \<open>Result<T>\<close> returns the sum \<open>error_kind + 'a\<close>
  (theory \<open>Errors\<close>).
\<close>

unbundle bit_operations_syntax

section \<open>Machine types\<close>

type_synonym addr = "64 word"
type_synonym byte = "8 word"
type_synonym i32 = "32 word"
type_synonym i64 = "64 word"

abbreviation NULL :: addr where
  "NULL \<equiv> 0"

section \<open>Collections of rules\<close>

named_theorems preserves \<open>operations that keep the invariant of a session\<close>

section \<open>The CPython version\<close>

text \<open>
  The sources select code with \<open>PY_VERSION_HEX\<close>; the model takes the version as an
  argument and compares it with the order the version numbers have.
\<close>

datatype py_version = V38 | V39 | V310 | V311 | V312 | V313

fun py_minor :: "py_version \<Rightarrow> nat" where
  "py_minor V38 = 8"
| "py_minor V39 = 9"
| "py_minor V310 = 10"
| "py_minor V311 = 11"
| "py_minor V312 = 12"
| "py_minor V313 = 13"

lemma py_minor_inject: "py_minor v = py_minor w \<longleftrightarrow> v = w"
  by (cases v; cases w) simp_all

instantiation py_version :: linorder
begin

definition less_eq_py_version :: "py_version \<Rightarrow> py_version \<Rightarrow> bool" where
  "less_eq_py_version v w = (py_minor v \<le> py_minor w)"

definition less_py_version :: "py_version \<Rightarrow> py_version \<Rightarrow> bool" where
  "less_py_version v w = (py_minor v < py_minor w)"

instance
  by standard (auto simp: less_eq_py_version_def less_py_version_def py_minor_inject)

end

lemmas py_version_order = less_eq_py_version_def less_py_version_def

section \<open>Lists\<close>

lemma remove1_distinct_set:
  "distinct xs \<Longrightarrow> set (remove1 x xs) = set xs - {x}"
  by simp

lemma length_remove1_mem:
  "x \<in> set xs \<Longrightarrow> Suc (length (remove1 x xs)) = length xs"
  by (induction xs) (auto simp: length_remove1 split: if_splits)

lemma butlast_last_set:
  "xs \<noteq> [] \<Longrightarrow> set xs = insert (last xs) (set (butlast xs))"
  by (metis append_butlast_last_id list.set(1,2) set_append Un_insert_right sup_bot.right_neutral)

lemma last_notin_butlast:
  "distinct xs \<Longrightarrow> xs \<noteq> [] \<Longrightarrow> last xs \<notin> set (butlast xs)"
  by (metis append_butlast_last_id distinct_append distinct_singleton
      disjoint_insert(1) list.set(2) list.set(1))

lemma foldl_append_acc:
  assumes "\<And>a x. f a x = a @ g x"
  shows "foldl f a xs = a @ concat (map g xs)"
  using assms by (induction xs arbitrary: a) auto

lemma distinct_keys_value:
  assumes "distinct (map fst es)" "map_of es k = Some v" "x \<in> set es" "fst x = k"
  shows "x = (k, v)"
proof -
  have "map_of es k = Some (snd x)"
    using assms(1,3,4) by (intro map_of_is_SomeI) auto
  with assms(2,4) show ?thesis
    by (cases x) simp
qed

section \<open>Printing numbers\<close>

text \<open>\<open>std::to_string\<close>, and \<open>%p\<close> of the C library.\<close>

definition digit_char :: "nat \<Rightarrow> char" where
  "digit_char d = (if d < 10 then char_of (48 + d) else char_of (87 + d))"

fun digits_in :: "nat \<Rightarrow> nat \<Rightarrow> string" where
  "digits_in b n =
     (if b < 2 \<or> n < b then [digit_char n] else digits_in b (n div b) @ [digit_char (n mod b)])"

declare digits_in.simps [simp del]

definition to_string :: "int \<Rightarrow> string" where
  "to_string i = (if i < 0 then CHR ''-'' # digits_in 10 (nat (- i)) else digits_in 10 (nat i))"

definition print_pointer :: "addr \<Rightarrow> string" where
  "print_pointer p = (if p = 0 then ''(nil)'' else ''0x'' @ digits_in 16 (unat p))"

section \<open>Options\<close>

lemma bind_eq_Some_iff:
  "Option.bind m f = Some b \<longleftrightarrow> (\<exists>a. m = Some a \<and> f a = Some b)"
  by (cases m) auto

section \<open>Words\<close>

lemma finite_addr_set [simp, intro]: "finite (S :: addr set)"
  by (rule finite)

lemma unat_of_nat_addr [simp]: "n < 2 ^ 64 \<Longrightarrow> unat (of_nat n :: addr) = n"
  by (simp add: unsigned_of_nat take_bit_nat_eq_self)

lemma unat_addr_less [simp]: "unat (a :: addr) < 2 ^ 64"
  using unsigned_less [of a] by simp

lemma of_nat_addr_eq_0: "n < 2 ^ 64 \<Longrightarrow> (of_nat n :: addr) = 0 \<longleftrightarrow> n = 0"
  using unat_of_nat_addr [of n] by (auto simp del: unat_of_nat_addr)

text \<open>Masks and single bits, in the form the bitwise rules speak about.\<close>

lemma word_mask_lits:
  "(w :: 'a::len word) AND 0x7f = take_bit 7 w"
  "w AND 0x3f = take_bit 6 w"
  "w AND 0xf = take_bit 4 w"
  "w AND 7 = take_bit 3 w"
  by (simp_all add: take_bit_eq_mask mask_eq_exp_minus_1)

lemma word_or_lits:
  "(w :: 'a::len word) OR 0x80 = set_bit 7 w"
  "w OR 0x40 = set_bit 6 w"
  by (simp_all add: set_bit_eq_or push_bit_eq_mult)

text \<open>The measure of every loop that records the addresses it has seen.\<close>

lemma card_unseen_less [intro]:
  assumes "(a :: addr) \<notin> seen"
  shows "card (- insert a seen) < card (- seen)"
proof (rule psubset_card_mono)
  show "- insert a seen \<subset> - seen"
    using assms by auto
qed simp

end
