(* ===== verification/Errors.thy ===== *)
theory Errors
  imports Prelude
begin

text \<open>
  \<open>echion/errors.h\<close>: the error kinds, and the tagged union \<open>Result<T>\<close> with its
  constructors, destructor and assignments. The model of the union records which
  object is alive in its storage, so that destroying a value that is not there, or
  constructing one over a live one, is \<^term>\<open>None\<close>. The rest of the development uses
  the abstract value of a result, the sum \<open>error_kind + 'a\<close>; the lemmas here show that
  the union implements it.
\<close>

datatype error_kind =
    Undefined
  | LookupError
  | PyBytesError
  | BytecodeError
  | FrameError
  | MirrorError
  | PyLongError
  | PyUnicodeError
  | UnwindError
  | StackChunkError
  | GenInfoError
  | TaskInfoError
  | TaskInfoGeneratorError
  | ThreadInfoError
  | CpuTimeError
  | LocationError
  | RendererError

type_synonym 'a result = "error_kind + 'a"

section \<open>The union and its lifetime\<close>

text \<open>What is alive in the union's storage.\<close>

datatype 'a slot = Raw | ErrorSlot error_kind | ValueSlot 'a

record 'a Result =
  success :: bool
  slot :: "'a slot"

definition Result_value :: "'a \<Rightarrow> 'a Result" where
  "Result_value v = \<lparr>success = True, slot = ValueSlot v\<rparr>"

definition Result_error :: "error_kind \<Rightarrow> 'a Result" where
  "Result_error e = \<lparr>success = False, slot = ErrorSlot e\<rparr>"

text \<open>\<open>value_.~T()\<close> and the placement \<open>new\<close>.\<close>

definition destroy_value :: "'a Result \<Rightarrow> 'a Result option" where
  "destroy_value r = (case slot r of ValueSlot _ \<Rightarrow> Some (r\<lparr>slot := Raw\<rparr>) | _ \<Rightarrow> None)"

definition construct_value :: "'a \<Rightarrow> 'a Result \<Rightarrow> 'a Result option" where
  "construct_value v r =
     (case slot r of ValueSlot _ \<Rightarrow> None | _ \<Rightarrow> Some (r\<lparr>slot := ValueSlot v\<rparr>))"

definition read_value :: "'a Result \<Rightarrow> 'a option" where
  "read_value r = (case slot r of ValueSlot v \<Rightarrow> Some v | _ \<Rightarrow> None)"

definition read_error :: "'a Result \<Rightarrow> error_kind option" where
  "read_error r = (case slot r of ErrorSlot e \<Rightarrow> Some e | _ \<Rightarrow> None)"

text \<open>\<open>~Result\<close> is \<open>reset\<close>.\<close>

definition Result_reset :: "'a Result \<Rightarrow> 'a Result option" where
  "Result_reset r = (if success r then destroy_value r else Some r)"

definition Result_copy :: "'a Result \<Rightarrow> 'a Result option" where
  "Result_copy other =
     (if success other
      then map_option Result_value (read_value other)
      else map_option Result_error (read_error other))"

text \<open>
  The move constructor leaves in \<open>other\<close> what \<open>T\<close>'s move leaves (\<open>moved\<close>), and does
  not touch its flag.
\<close>

definition move_out :: "('a \<Rightarrow> 'a) \<Rightarrow> 'a Result \<Rightarrow> ('a \<times> 'a Result) option" where
  "move_out moved other =
     map_option (\<lambda>v. (v, other\<lparr>slot := ValueSlot (moved v)\<rparr>)) (read_value other)"

definition Result_move :: "('a \<Rightarrow> 'a) \<Rightarrow> 'a Result \<Rightarrow> ('a Result \<times> 'a Result) option" where
  "Result_move moved other =
     (if success other
      then map_option (\<lambda>(v, other'). (Result_value v, other')) (move_out moved other)
      else map_option (\<lambda>e. (Result_error e, other)) (read_error other))"

text \<open>\<open>operator=(const Result&)\<close>; \<open>self\<close> is the test \<open>this == &other\<close>.\<close>

definition Result_assign :: "bool \<Rightarrow> 'a Result \<Rightarrow> 'a Result \<Rightarrow> 'a Result option" where
  "Result_assign self this other =
     (if self then Some this
      else if success this \<and> success other then
        do { _ \<leftarrow> read_value this;
             v \<leftarrow> read_value other;
             Some (this\<lparr>slot := ValueSlot v\<rparr>) }
      else if success this \<and> \<not> success other then
        do { this \<leftarrow> destroy_value this;
             e \<leftarrow> read_error other;
             Some (this\<lparr>success := False, slot := ErrorSlot e\<rparr>) }
      else if \<not> success this \<and> success other then
        do { v \<leftarrow> read_value other;
             this \<leftarrow> construct_value v this;
             Some (this\<lparr>success := True\<rparr>) }
      else
        do { e \<leftarrow> read_error other;
             Some (this\<lparr>slot := ErrorSlot e\<rparr>) })"

text \<open>\<open>operator=(Result&&)\<close> returns both objects.\<close>

definition Result_move_assign ::
  "('a \<Rightarrow> 'a) \<Rightarrow> bool \<Rightarrow> 'a Result \<Rightarrow> 'a Result \<Rightarrow> ('a Result \<times> 'a Result) option" where
  "Result_move_assign moved self this other =
     (if self then Some (this, this)
      else if success this \<and> success other then
        do { _ \<leftarrow> read_value this;
             (v, other) \<leftarrow> move_out moved other;
             Some (this\<lparr>slot := ValueSlot v\<rparr>, other) }
      else if success this \<and> \<not> success other then
        do { this \<leftarrow> destroy_value this;
             e \<leftarrow> read_error other;
             Some (this\<lparr>success := False, slot := ErrorSlot e\<rparr>, other) }
      else if \<not> success this \<and> success other then
        do { (v, other) \<leftarrow> move_out moved other;
             this \<leftarrow> construct_value v this;
             Some (this\<lparr>success := True\<rparr>, other) }
      else
        do { e \<leftarrow> read_error other;
             Some (this\<lparr>slot := ErrorSlot e\<rparr>, other) })"

section \<open>Observers\<close>

definition has_value :: "'a Result \<Rightarrow> bool" where
  "has_value r = success r"

definition value_or :: "'a Result \<Rightarrow> 'a \<Rightarrow> 'a option" where
  "value_or r default_value = (if success r then read_value r else Some default_value)"

definition Result_error_kind :: "'a Result \<Rightarrow> error_kind option" where
  "Result_error_kind r = (if success r then Some Undefined else read_error r)"

section \<open>The specialisation for void\<close>

record Result_void =
  v_success :: bool
  v_error :: error_kind

definition void_ok :: Result_void where
  "void_ok = \<lparr>v_success = True, v_error = Undefined\<rparr>"

definition void_error :: "error_kind \<Rightarrow> Result_void" where
  "void_error e = \<lparr>v_success = False, v_error = e\<rparr>"

definition void_error_kind :: "Result_void \<Rightarrow> error_kind" where
  "void_error_kind r = (if v_success r then Undefined else v_error r)"

section \<open>The invariant and the abstract value\<close>

text \<open>The flag tells which member of the union is alive.\<close>

definition Result_ok :: "'a Result \<Rightarrow> bool" where
  "Result_ok r =
     (case slot r of Raw \<Rightarrow> False | ErrorSlot _ \<Rightarrow> \<not> success r | ValueSlot _ \<Rightarrow> success r)"

text \<open>The sum a well-formed object stands for.\<close>

definition Result_abs :: "'a Result \<Rightarrow> 'a result" where
  "Result_abs r = (case slot r of ValueSlot v \<Rightarrow> Inr v | ErrorSlot e \<Rightarrow> Inl e | Raw \<Rightarrow> Inl Undefined)"

lemmas Result_defs =
  Result_value_def Result_error_def destroy_value_def construct_value_def read_value_def
  read_error_def Result_reset_def Result_copy_def move_out_def Result_move_def
  Result_assign_def Result_move_assign_def has_value_def value_or_def
  Result_error_kind_def Result_ok_def Result_abs_def

lemma Result_ok_cases:
  assumes "Result_ok r"
  obtains (val) v where "r = Result_value v" | (err) e where "r = Result_error e"
  using assms by (cases r; cases "slot r") (auto simp: Result_defs)

lemma Result_ok_ctor [simp]: "Result_ok (Result_value v)" "Result_ok (Result_error e)"
  by (simp_all add: Result_defs)

lemma Result_abs_ctor [simp]:
  "Result_abs (Result_value v) = Inr v" "Result_abs (Result_error e) = Inl e"
  by (simp_all add: Result_defs)

lemma Result_assign_refines:
  assumes "Result_ok this" "Result_ok other"
  shows "\<exists>this'. Result_assign False this other = Some this' \<and> Result_ok this'
      \<and> Result_abs this' = Result_abs other"
  using assms by (elim Result_ok_cases) (simp_all add: Result_defs)

lemma Result_move_assign_refines:
  assumes "Result_ok this" "Result_ok other"
  shows "\<exists>this' other'. Result_move_assign mv False this other = Some (this', other')
      \<and> Result_ok this' \<and> Result_ok other' \<and> Result_abs this' = Result_abs other
      \<and> success other' = success other"
  using assms by (elim Result_ok_cases) (simp_all add: Result_defs)

lemma Result_move_refines:
  assumes "Result_ok other"
  shows "\<exists>this other'. Result_move mv other = Some (this, other')
      \<and> Result_ok this \<and> Result_ok other' \<and> Result_abs this = Result_abs other"
  using assms by (elim Result_ok_cases) (simp_all add: Result_defs)

lemma Result_copy_refines:
  assumes "Result_ok other"
  shows "\<exists>this. Result_copy other = Some this \<and> Result_ok this \<and> Result_abs this = Result_abs other"
  using assms by (elim Result_ok_cases) (simp_all add: Result_defs)

section \<open>Property\<close>

text \<open>C20: the tagged union implements the sum \<open>error_kind + 'a\<close>. Copy and move, by
  construction and by assignment, of well-formed objects never destroy a dead value or
  construct over a live one (they return \<^term>\<open>Some\<close>), leave both objects well formed,
  give the target the source's abstract value, and self assignment changes nothing; the
  observers and the destructor agree with the abstract value.\<close>

theorem Result_implements_sum:
  assumes "Result_ok this" "Result_ok other"
  shows
    "(\<exists>r. Result_copy other = Some r \<and> Result_ok r \<and> Result_abs r = Result_abs other)
     \<and> (\<exists>r s. Result_move mv other = Some (r, s) \<and> Result_ok r \<and> Result_ok s
          \<and> Result_abs r = Result_abs other)
     \<and> (\<exists>r. Result_assign False this other = Some r \<and> Result_ok r
          \<and> Result_abs r = Result_abs other)
     \<and> (\<exists>r s. Result_move_assign mv False this other = Some (r, s) \<and> Result_ok r \<and> Result_ok s
          \<and> Result_abs r = Result_abs other \<and> success s = success other)
     \<and> Result_assign True this other = Some this
     \<and> has_value other = (\<exists>v. Result_abs other = Inr v)
     \<and> value_or other d = Some (case Result_abs other of Inl _ \<Rightarrow> d | Inr v \<Rightarrow> v)
     \<and> Result_error_kind other = Some (case Result_abs other of Inl e \<Rightarrow> e | Inr _ \<Rightarrow> Undefined)
     \<and> Result_reset other \<noteq> None"
  using Result_copy_refines [OF assms(2)] Result_move_refines [OF assms(2)]
    Result_assign_refines [OF assms] Result_move_assign_refines [OF assms]
proof (intro conjI)
  show "Result_assign True this other = Some this"
    by (simp add: Result_assign_def)
qed (use assms in \<open>elim Result_ok_cases; simp add: Result_defs\<close>)+

theorem Result_implements_sum_witness:
  "(\<exists>r. Result_assign False (Result_value (1::nat)) (Result_error FrameError) = Some r
      \<and> Result_ok r \<and> Result_abs r = Inl FrameError)"
  using Result_implements_sum [of "Result_value (1::nat)" "Result_error FrameError" id 0] by simp

end
