(* ===== verification/Cache.thy ===== *)
theory Cache
  imports Errors
begin

text \<open>
  \<open>echion/cache.h\<close>: the LRU cache, a doubly linked list of items with an index from
  keys to list nodes. A node is named by a number that is never reused, which stands
  for the \<open>std::list\<close> iterator. Reading through an iterator whose node is gone, or the
  back of an empty list, is \<^term>\<open>None\<close>.
\<close>

definition CACHE_MAX_ENTRIES :: nat where
  "CACHE_MAX_ENTRIES = 2048"

record ('k, 'v) lru =
  capacity :: nat
  items :: "(nat \<times> 'k \<times> 'v) list"
  index :: "'k \<rightharpoonup> nat"
  next_node :: nat

definition lru_new :: "nat \<Rightarrow> ('k, 'v) lru" where
  "lru_new cap = \<lparr>capacity = cap, items = [], index = Map.empty, next_node = 0\<rparr>"

text \<open>\<open>store\<close> returns the value whose \<open>unique_ptr\<close> it destroys, if any.\<close>

definition lru_evict :: "('k, 'v) lru \<Rightarrow> (('k, 'v) lru \<times> 'v option) option" where
  "lru_evict c =
     (if capacity c \<le> length (items c)
      then (if items c = [] then None
            else (case last (items c) of (n, k, v) \<Rightarrow>
              Some (c\<lparr>index := (index c)(k := None), items := butlast (items c)\<rparr>, Some v)))
      else Some (c, None))"

definition lru_push :: "('k, 'v) lru \<Rightarrow> 'k \<Rightarrow> 'v \<Rightarrow> ('k, 'v) lru" where
  "lru_push c k v =
     c\<lparr>items := (next_node c, k, v) # items c,
       index := (index c)(k \<mapsto> next_node c),
       next_node := Suc (next_node c)\<rparr>"

definition lru_store :: "('k, 'v) lru \<Rightarrow> 'k \<Rightarrow> 'v \<Rightarrow> (('k, 'v) lru \<times> 'v option) option" where
  "lru_store c k v = do { (c, evicted) \<leftarrow> lru_evict c; Some (lru_push c k v, evicted) }"

text \<open>\<open>lookup\<close> moves the node to the front with \<open>splice\<close>.\<close>

definition find_node :: "nat \<Rightarrow> (nat \<times> 'k \<times> 'v) list \<Rightarrow> (nat \<times> 'k \<times> 'v) option" where
  "find_node n its = List.find (\<lambda>x. fst x = n) its"

definition lru_lookup :: "('k, 'v) lru \<Rightarrow> 'k \<Rightarrow> ('v result \<times> ('k, 'v) lru) option" where
  "lru_lookup c k =
     (case index c k of
        None \<Rightarrow> Some (Inl LookupError, c)
      | Some n \<Rightarrow>
          (case find_node n (items c) of
             None \<Rightarrow> None
           | Some x \<Rightarrow> Some (Inr (snd (snd x)),
               c\<lparr>items := x # filter (\<lambda>y. fst y \<noteq> n) (items c)\<rparr>)))"

section \<open>The invariant\<close>

abbreviation node_of :: "nat \<times> 'k \<times> 'v \<Rightarrow> nat" where
  "node_of x \<equiv> fst x"

abbreviation key_of :: "nat \<times> 'k \<times> 'v \<Rightarrow> 'k" where
  "key_of x \<equiv> fst (snd x)"

definition lru_ok :: "('k, 'v) lru \<Rightarrow> bool" where
  "lru_ok c \<longleftrightarrow>
     0 < capacity c \<and> length (items c) \<le> capacity c
     \<and> distinct (map key_of (items c))
     \<and> distinct (map node_of (items c))
     \<and> (\<forall>x \<in> set (items c). node_of x < next_node c)
     \<and> index c = map_of (map (\<lambda>x. (key_of x, node_of x)) (items c))"

text \<open>What the cache means: the entries from the most to the least recently used.\<close>

definition lru_abs :: "('k, 'v) lru \<Rightarrow> ('k \<times> 'v) list" where
  "lru_abs c = map snd (items c)"

text \<open>The same operations on the abstract recency list.\<close>

definition recency_store :: "nat \<Rightarrow> 'k \<Rightarrow> 'v \<Rightarrow> ('k \<times> 'v) list \<Rightarrow> ('k \<times> 'v) list" where
  "recency_store cap k v es = take cap ((k, v) # es)"

definition recency_touch :: "'k \<Rightarrow> ('k \<times> 'v) list \<Rightarrow> ('k \<times> 'v) list" where
  "recency_touch k es =
     (case map_of es k of None \<Rightarrow> es | Some v \<Rightarrow> (k, v) # filter (\<lambda>e. fst e \<noteq> k) es)"

lemma lru_new_ok: "0 < cap \<Longrightarrow> lru_ok (lru_new cap)"
  by (simp add: lru_ok_def lru_new_def)

lemma lru_abs_new [simp]: "lru_abs (lru_new cap) = []"
  by (simp add: lru_abs_def lru_new_def)

lemma capacity_new [simp]: "capacity (lru_new cap) = cap"
  by (simp add: lru_new_def)

lemma keys_lru_abs: "map fst (lru_abs c) = map key_of (items c)"
  by (simp add: lru_abs_def)

lemma lru_ok_distinct_abs: "lru_ok c \<Longrightarrow> distinct (map fst (lru_abs c))"
  by (simp add: lru_ok_def keys_lru_abs)

lemma lru_ok_length_abs: "lru_ok c \<Longrightarrow> length (lru_abs c) \<le> capacity c"
  by (simp add: lru_ok_def lru_abs_def)

lemma node_eq_key:
  assumes "lru_ok c" "x \<in> set (items c)" "y \<in> set (items c)"
  shows "node_of x = node_of y \<longleftrightarrow> key_of x = key_of y"
proof -
  have "inj_on node_of (set (items c))" "inj_on key_of (set (items c))"
    using assms(1) by (auto simp: lru_ok_def distinct_map)
  then show ?thesis
    using assms(2,3) by (metis inj_onD)
qed

lemma index_Some_iff:
  assumes "lru_ok c"
  shows "index c k = Some n \<longleftrightarrow> (\<exists>v. (n, k, v) \<in> set (items c))"
proof -
  have "distinct (map fst (map (\<lambda>x. (key_of x, node_of x)) (items c)))"
    using assms by (simp add: lru_ok_def comp_def)
  then have "index c k = Some n \<longleftrightarrow> (k, n) \<in> set (map (\<lambda>x. (key_of x, node_of x)) (items c))"
    using assms by (simp only: lru_ok_def map_of_eq_Some_iff)
  then show ?thesis
    by force
qed

lemma index_None_iff:
  "lru_ok c \<Longrightarrow> index c k = None \<longleftrightarrow> k \<notin> fst ` set (lru_abs c)"
  by (auto simp: lru_ok_def lru_abs_def map_of_eq_None_iff image_comp comp_def)

lemma find_node_mem:
  assumes "distinct (map node_of its)" "(n, k, v) \<in> set its"
  shows "find_node n its = Some (n, k, v)"
  using assms by (induction its) (auto simp: find_node_def rev_image_eqI)

lemma filter_map_of_None:
  "map_of (map (\<lambda>x. (key_of x, node_of x)) (filter (\<lambda>y. key_of y \<noteq> k) its))
     = (map_of (map (\<lambda>x. (key_of x, node_of x)) its))(k := None)"
  by (induction its) auto

section \<open>Refinement of the recency list\<close>

lemma lru_lookup_miss:
  assumes "lru_ok c" "map_of (lru_abs c) k = None"
  shows "lru_lookup c k = Some (Inl LookupError, c)"
proof -
  have "index c k = None"
    using assms by (simp add: index_None_iff map_of_eq_None_iff)
  then show ?thesis
    by (simp add: lru_lookup_def)
qed

lemma lru_touch_filter:
  assumes "lru_ok c" "(n, k, v) \<in> set (items c)"
  shows "filter (\<lambda>y. node_of y \<noteq> n) (items c) = filter (\<lambda>y. key_of y \<noteq> k) (items c)"
  using node_eq_key [OF assms(1) assms(2)] by (intro filter_cong) force+

lemma lru_lookup_hit:
  assumes ok: "lru_ok c" and hit: "map_of (lru_abs c) k = Some v"
  shows "\<exists>c'. lru_lookup c k = Some (Inr v, c') \<and> lru_ok c'
      \<and> lru_abs c' = recency_touch k (lru_abs c) \<and> capacity c' = capacity c"
proof -
  have dist: "distinct (map key_of (items c))" "distinct (map node_of (items c))"
    using ok by (simp_all add: lru_ok_def)
  from hit obtain n where mem: "(n, k, v) \<in> set (items c)"
    by (auto simp: lru_abs_def dest!: map_of_SomeD)
  then have idx: "index c k = Some n"
    using ok by (auto simp: index_Some_iff)
  define its where "its = filter (\<lambda>y. key_of y \<noteq> k) (items c)"
  have look: "lru_lookup c k = Some (Inr v, c\<lparr>items := (n, k, v) # its\<rparr>)"
    using idx find_node_mem [OF dist(2) mem] lru_touch_filter [OF ok mem]
    by (simp add: lru_lookup_def its_def)
  have "length its < length (items c)"
    unfolding its_def using mem by (intro length_filter_less [of "(n, k, v)"]) auto
  moreover have "n \<notin> set (map node_of its)"
    using lru_touch_filter [OF ok mem] by (auto simp: its_def [symmetric])
  moreover have "index c = (map_of (map (\<lambda>x. (key_of x, node_of x)) its))(k \<mapsto> n)"
    using ok idx by (auto simp: its_def filter_map_of_None lru_ok_def)
  ultimately have "lru_ok (c\<lparr>items := (n, k, v) # its\<rparr>)"
    using ok mem dist by (auto simp: lru_ok_def its_def distinct_map_filter)
  moreover have "lru_abs (c\<lparr>items := (n, k, v) # its\<rparr>) = recency_touch k (lru_abs c)"
    using hit by (simp add: recency_touch_def lru_abs_def its_def filter_map comp_def)
  ultimately show ?thesis
    using look by auto
qed

lemma lru_ok_push:
  assumes "lru_ok c" "length (items c) < capacity c" "k \<notin> fst ` set (lru_abs c)"
  shows "lru_ok (lru_push c k v)" "lru_abs (lru_push c k v) = (k, v) # lru_abs c"
    "capacity (lru_push c k v) = capacity c"
  using assms by (auto simp: lru_ok_def lru_push_def lru_abs_def less_Suc_eq)

lemma map_of_butlast_key:
  assumes "its \<noteq> []" "distinct (map key_of its)" "last its = (n, k, v)"
  shows "map_of (map (\<lambda>x. (key_of x, node_of x)) (butlast its))
    = (map_of (map (\<lambda>x. (key_of x, node_of x)) its))(k := None)"
proof -
  obtain ys where ys: "its = ys @ [(n, k, v)]"
    using assms(1,3) by (metis append_butlast_last_id)
  then have "k \<notin> key_of ` set ys"
    using assms(2) by auto
  then have "map_of (map (\<lambda>x. (key_of x, node_of x)) ys) k = None"
    by (auto simp: map_of_eq_None_iff image_comp comp_def)
  then show ?thesis
    by (auto simp: ys fun_eq_iff map_add_def split: option.splits)
qed

text \<open>Making room in a full cache drops the least recently used entry.\<close>

lemma lru_evict_ok:
  assumes ok: "lru_ok c"
  shows "\<exists>c' ev. lru_evict c = Some (c', ev) \<and> lru_ok c' \<and> length (items c') < capacity c'
    \<and> capacity c' = capacity c \<and> lru_abs c' = take (capacity c - 1) (lru_abs c)
    \<and> ev = (if length (lru_abs c) < capacity c then None else Some (snd (last (lru_abs c))))"
proof (cases "capacity c \<le> length (items c)")
  case False
  then show ?thesis
    using ok by (auto simp: lru_evict_def lru_abs_def)
next
  case True
  then have full: "length (items c) = capacity c" and ne: "items c \<noteq> []"
    using ok by (auto simp: lru_ok_def)
  obtain n k v where l: "last (items c) = (n, k, v)"
    by (cases "last (items c)") auto
  define c' where "c' = c\<lparr>index := (index c)(k := None), items := butlast (items c)\<rparr>"
  have "lru_evict c = Some (c', Some v)"
    using True ne l by (simp add: lru_evict_def c'_def)
  moreover have "lru_ok c'"
    using ok ne l full map_of_butlast_key [OF ne _ l]
    by (auto simp: lru_ok_def c'_def map_butlast distinct_butlast dest: in_set_butlastD)
  moreover have "lru_abs c' = take (capacity c - 1) (lru_abs c)"
    using full by (simp add: lru_abs_def c'_def butlast_conv_take take_map)
  moreover have "last (lru_abs c) = (k, v)" "length (lru_abs c) = capacity c"
    using ne l full by (simp_all add: lru_abs_def last_map)
  moreover have "length (items c') < capacity c'" "capacity c' = capacity c"
    using full ok by (simp_all add: c'_def lru_ok_def)
  ultimately show ?thesis
    by simp
qed

lemma lru_store_fresh:
  assumes ok: "lru_ok c" and fresh: "map_of (lru_abs c) k = None"
  shows "\<exists>c' ev. lru_store c k v = Some (c', ev) \<and> lru_ok c'
    \<and> capacity c' = capacity c \<and> lru_abs c' = recency_store (capacity c) k v (lru_abs c)
    \<and> ev = (if length (lru_abs c) < capacity c then None else Some (snd (last (lru_abs c))))"
proof -
  obtain d ev where d: "lru_evict c = Some (d, ev)" "lru_ok d" "length (items d) < capacity d"
      "capacity d = capacity c" "lru_abs d = take (capacity c - 1) (lru_abs c)"
      "ev = (if length (lru_abs c) < capacity c then None else Some (snd (last (lru_abs c))))"
    using lru_evict_ok [OF ok] by blast
  have "k \<notin> fst ` set (lru_abs d)"
    using fresh d(5) by (auto simp: map_of_eq_None_iff dest: in_set_takeD)
  note push = lru_ok_push [OF d(2,3) this, of v]
  have "(k, v) # lru_abs d = recency_store (capacity c) k v (lru_abs c)"
    using ok d(5) by (cases "capacity c") (auto simp: recency_store_def lru_ok_def)
  then show ?thesis
    using d push by (auto simp: lru_store_def)
qed

section \<open>The interface of a recency cache\<close>

text \<open>
  What \<open>Frame::get\<close> needs of \<open>frame_cache\<close>. The client lemmas follow the entries used
  since some point of a run: they are a prefix of the recency list, so they cannot be
  evicted before as many other keys have been used.
\<close>

definition recent :: "('k \<times> 'v) set \<Rightarrow> nat \<Rightarrow> ('k \<times> 'v) list \<Rightarrow> bool" where
  "recent T n es \<longleftrightarrow> (\<exists>p q. es = p @ q \<and> T \<subseteq> set p \<and> length p \<le> n)"

lemma recent_empty [simp]: "recent {} n es"
  by (auto simp: recent_def intro: exI [of _ "[]"])

lemma recent_mem: "recent T n es \<Longrightarrow> x \<in> T \<Longrightarrow> x \<in> set es"
  by (auto simp: recent_def)

lemma recent_mono: "recent T n es \<Longrightarrow> S \<subseteq> T \<Longrightarrow> n \<le> m \<Longrightarrow> recent S m es"
proof -
  assume a: "recent T n es" "S \<subseteq> T" "n \<le> m"
  then obtain p q where "es = p @ q" "T \<subseteq> set p" "length p \<le> n"
    by (auto simp: recent_def)
  with a have "es = p @ q \<and> S \<subseteq> set p \<and> length p \<le> m"
    by auto
  then show ?thesis
    unfolding recent_def by blast
qed

lemma recency_touch_perm:
  assumes "distinct (map fst es)" "map_of es k = Some v"
  shows "set (recency_touch k es) = set es" "distinct (map snd es) \<Longrightarrow> distinct (map snd (recency_touch k es))"
proof -
  have only: "x = (k, v)" if "x \<in> set es" "fst x = k" for x
    using that by (rule distinct_keys_value [OF assms])
  have mem: "(k, v) \<in> set es"
    using assms(2) by (rule map_of_SomeD)
  show "set (recency_touch k es) = set es"
  proof -
    have "insert (k, v) {e \<in> set es. fst e \<noteq> k} = set es"
      using only mem by blast
    then show ?thesis
      using assms(2) by (simp add: recency_touch_def)
  qed
  assume d: "distinct (map snd es)"
  have "snd x \<noteq> v" if "x \<in> set es" "fst x \<noteq> k" for x
  proof
    assume "snd x = v"
    then have "x = (k, v)"
      using d mem that(1) by (auto simp: distinct_map inj_on_def)
    with that(2) show False
      by simp
  qed
  then show "distinct (map snd (recency_touch k es))"
    using d assms(2) by (auto simp: recency_touch_def distinct_map_filter)
qed

lemma recent_touch:
  assumes "recent T n es" "map_of es k = Some v" "distinct (map fst es)"
  shows "recent (insert (k, v) T) (Suc n) (recency_touch k es)"
proof -
  obtain p q where p: "es = p @ q" "T \<subseteq> set p" "length p \<le> n"
    using assms(1) by (auto simp: recent_def)
  define p' where "p' = (k, v) # filter (\<lambda>e. fst e \<noteq> k) p"
  have "recency_touch k es = p' @ filter (\<lambda>e. fst e \<noteq> k) q"
    using assms(2) p(1) by (simp add: recency_touch_def p'_def)
  moreover have "x = (k, v)" if "x \<in> T" "fst x = k" for x
    using that p by (intro distinct_keys_value [OF assms(3,2)]) auto
  then have "insert (k, v) T \<subseteq> set p'"
    using p(2) by (auto simp: p'_def)
  moreover have "length p' \<le> Suc n"
    using order_trans [OF length_filter_le p(3)] by (simp add: p'_def)
  ultimately show ?thesis
    unfolding recent_def by blast
qed

lemma recent_store:
  assumes "recent T n es" "Suc n \<le> cap"
  shows "recent (insert (k, v) T) (Suc n) (recency_store cap k v es)"
proof -
  obtain p q where p: "es = p @ q" "T \<subseteq> set p" "length p \<le> n"
    using assms(1) by (auto simp: recent_def)
  then have "recency_store cap k v es = ((k, v) # p) @ take (cap - Suc (length p)) q"
    using assms(2) by (cases cap) (auto simp: recency_store_def)
  moreover have "insert (k, v) T \<subseteq> set ((k, v) # p)" "length ((k, v) # p) \<le> Suc n"
    using p by auto
  ultimately show ?thesis
    unfolding recent_def by blast
qed

locale recency_cache =
  fixes inv :: "'c \<Rightarrow> bool"
    and entries :: "'c \<Rightarrow> ('k \<times> 'v) list"
    and cap :: "'c \<Rightarrow> nat"
    and look :: "'c \<Rightarrow> 'k \<Rightarrow> ('v result \<times> 'c) option"
    and put :: "'c \<Rightarrow> 'k \<Rightarrow> 'v \<Rightarrow> ('c \<times> 'v option) option"
  assumes distinct_entries: "inv c \<Longrightarrow> distinct (map fst (entries c))"
    and length_entries: "inv c \<Longrightarrow> length (entries c) \<le> cap c"
    and look_miss: "inv c \<Longrightarrow> map_of (entries c) k = None \<Longrightarrow>
        look c k = Some (Inl LookupError, c)"
    and look_hit: "inv c \<Longrightarrow> map_of (entries c) k = Some v \<Longrightarrow>
        \<exists>c'. look c k = Some (Inr v, c') \<and> inv c' \<and> entries c' = recency_touch k (entries c)
          \<and> cap c' = cap c"
    and put_fresh: "inv c \<Longrightarrow> map_of (entries c) k = None \<Longrightarrow>
        \<exists>c' ev. put c k v = Some (c', ev) \<and> inv c' \<and> cap c' = cap c
          \<and> entries c' = recency_store (cap c) k v (entries c)
          \<and> ev = (if length (entries c) < cap c then None else Some (snd (last (entries c))))"
begin

lemma look_cases:
  assumes "inv c"
  obtains (miss) "map_of (entries c) k = None" "look c k = Some (Inl LookupError, c)"
  | (hit) v c' where "map_of (entries c) k = Some v" "look c k = Some (Inr v, c')" "inv c'"
      "entries c' = recency_touch k (entries c)" "cap c' = cap c"
proof (cases "map_of (entries c) k")
  case None
  then show ?thesis
    using look_miss [OF assms] miss by simp
next
  case (Some v)
  from look_hit [OF assms Some] obtain c' where "look c k = Some (Inr v, c')" "inv c'"
      "entries c' = recency_touch k (entries c)" "cap c' = cap c"
    by blast
  with Some show ?thesis
    by (rule hit)
qed

lemma look_same_entries:
  assumes "inv c" "look c k = Some (r, c')"
  shows "set (entries c') = set (entries c)"
proof (rule look_cases [OF assms(1), of k])
  fix v d assume hit: "map_of (entries c) k = Some v" "look c k = Some (Inr v, d)"
    "entries d = recency_touch k (entries c)"
  have "c' = d"
    using hit(2) assms(2) by simp
  then show ?thesis
    using recency_touch_perm(1) [OF distinct_entries [OF assms(1)] hit(1)] by (simp add: hit(3))
qed (use assms in simp)

lemma put_kept:
  assumes "inv c" "map_of (entries c) k = None" "put c k v = Some (c', ev)"
  shows "set (entries c') \<subseteq> insert (k, v) (set (entries c))"
    and "x \<in> set (entries c) \<Longrightarrow> x \<notin> set (entries c') \<Longrightarrow> ev = Some (snd x)"
proof -
  from put_fresh [OF assms(1,2), of v] assms(3)
  have e: "entries c' = recency_store (cap c) k v (entries c)"
    "ev = (if length (entries c) < cap c then None else Some (snd (last (entries c))))"
    by auto
  show "set (entries c') \<subseteq> insert (k, v) (set (entries c))"
    unfolding e(1) recency_store_def by (auto dest!: in_set_takeD)
  assume x: "x \<in> set (entries c)" "x \<notin> set (entries c')"
  have "\<not> length (entries c) < cap c"
    using x by (auto simp: e(1) recency_store_def)
  then have full: "length (entries c) = cap c"
    using length_entries [OF assms(1)] by simp
  with x(1) have ne: "entries c \<noteq> []"
    by auto
  have "cap c = Suc (length (entries c) - 1)"
    using full ne by (cases "entries c") auto
  then have "entries c' = (k, v) # butlast (entries c)"
    by (simp add: e(1) recency_store_def butlast_conv_take)
  with x have "x = last (entries c)"
    using butlast_last_set [OF ne] by auto
  with full show "ev = Some (snd x)"
    by (simp add: e(2))
qed

end

interpretation lru: recency_cache lru_ok lru_abs capacity lru_lookup lru_store
  by unfold_locales
    (rule lru_ok_distinct_abs lru_ok_length_abs lru_lookup_miss lru_lookup_hit lru_store_fresh; assumption)+

section \<open>Property\<close>

text \<open>C7: \<open>LRUCache\<close> implements a recency list of bounded length. From a well-formed
  cache, a lookup of a cached key returns its value and moves the entry to the front; a
  lookup of another key is \<open>LookupError\<close> and changes nothing; storing a new key puts it
  at the front, keeps at most \<open>capacity\<close> entries, and destroys exactly the least
  recently used value when the cache was full. No operation reads a dangling iterator,
  and every result is well formed again.\<close>

theorem lru_refines_recency_list:
  assumes "lru_ok c"
  shows
    "(case map_of (lru_abs c) k of
        None \<Rightarrow>
          lru_lookup c k = Some (Inl LookupError, c)
          \<and> (\<exists>c'. lru_store c k v =
                Some (c', if length (lru_abs c) < capacity c then None
                          else Some (snd (last (lru_abs c))))
              \<and> lru_ok c' \<and> capacity c' = capacity c
              \<and> lru_abs c' = take (capacity c) ((k, v) # lru_abs c))
      | Some w \<Rightarrow>
          (\<exists>c'. lru_lookup c k = Some (Inr w, c') \<and> lru_ok c' \<and> capacity c' = capacity c
              \<and> lru_abs c' = (k, w) # filter (\<lambda>e. fst e \<noteq> k) (lru_abs c)))
     \<and> length (lru_abs c) \<le> capacity c \<and> distinct (map fst (lru_abs c))"
  using assms lru.look_miss [OF assms, of k] lru.look_hit [OF assms, of k]
    lru.put_fresh [OF assms, of k v] lru.length_entries [OF assms] lru.distinct_entries [OF assms]
  by (auto simp: recency_touch_def recency_store_def split: option.split)

theorem lru_refines_recency_list_witness:
  "\<exists>c'. lru_store (lru_push (lru_push (lru_new 2) (1::int) ''a'') 2 ''b'') 3 ''c''
      = Some (c', Some ''a'') \<and> lru_abs c' = [(3, ''c''), (2, ''b'')]"
proof -
  define c where "c = lru_push (lru_push (lru_new 2) (1::int) ''a'') 2 ''b''"
  have "lru_ok c" "lru_abs c = [(2, ''b''), (1, ''a'')]" "capacity c = 2"
    by (auto simp: c_def lru_ok_def lru_abs_def lru_push_def lru_new_def)
  with lru_refines_recency_list [of c 3 "''c''"] show ?thesis
    unfolding c_def [symmetric] by auto
qed

end
