(* ===== verification/Vm.thy ===== *)
theory Vm
  imports Errors
begin

text \<open>
  \<open>echion/vm.h\<close>, for Linux: how memory is read without trusting it. \<open>copy_memory\<close>
  goes through the function pointer \<open>safe_copy\<close>, which \<open>init_safe_copy\<close> sets at start-up
  to one of three implementations. System calls are arguments of the model: a record
  of their outcomes, or a function of their arguments.
\<close>

section \<open>copy_memory\<close>

text \<open>
  \<open>safe_copy\<close> gets the remote address, the length and the local buffer, and returns the
  number of bytes it copied (or -1) and the buffer's new content.
\<close>

type_synonym safe_copy = "addr \<Rightarrow> nat \<Rightarrow> byte list \<Rightarrow> int \<times> byte list"

definition copy_memory :: "safe_copy \<Rightarrow> addr \<Rightarrow> int \<Rightarrow> byte list \<Rightarrow> int \<times> byte list" where
  "copy_memory safe_copy addr len buf =
     (if len \<le> 0 then (0, buf)
      else if unat addr < 4096 then (-1, buf)
      else (case safe_copy addr (nat len) buf of
              (result, buf') \<Rightarrow> (if len \<noteq> result then 1 else 0, buf')))"

text \<open>
  The typed view of a read: \<open>copy_type(addr, dest)\<close> copies \<open>sizeof(dest)\<close> bytes and the
  caller goes on with the fields of \<open>dest\<close>. A structure of CPython is known to the
  sources by its fields only, so its size and its decoding are arguments; \<open>typed_read\<close>
  is what \<open>safe_copy\<close> makes of them, and \<open>copy_type\<close> the guarded read of the sources.
  \<open>copy_generic\<close> is the same for a buffer whose length is computed.
\<close>

definition typed_read :: "safe_copy \<Rightarrow> nat \<Rightarrow> (byte list \<Rightarrow> 'a) \<Rightarrow> addr \<Rightarrow> 'a option" where
  "typed_read safe_copy sz decode addr =
     (case safe_copy addr sz (replicate sz 0) of
        (result, buf) \<Rightarrow> if int sz = result then Some (decode buf) else None)"

definition copy_type :: "(addr \<Rightarrow> 'a option) \<Rightarrow> addr \<Rightarrow> 'a option" where
  "copy_type read addr = (if unat addr < 4096 then None else read addr)"

definition copy_generic :: "(addr \<Rightarrow> nat \<Rightarrow> 'a list option) \<Rightarrow> addr \<Rightarrow> int \<Rightarrow> 'a list option" where
  "copy_generic read addr len =
     (if len \<le> 0 then Some [] else if unat addr < 4096 then None else read addr (nat len))"

lemma copy_type_copy_memory:
  assumes "0 < sz"
  shows "copy_type (typed_read sc sz decode) a =
    (case copy_memory sc a (int sz) (replicate sz 0) of
       (rc, buf) \<Rightarrow> if rc = 0 then Some (decode buf) else None)"
  using assms by (auto simp: copy_type_def typed_read_def copy_memory_def split: prod.split)

lemma copy_type_low [simp]: "unat a < 4096 \<Longrightarrow> copy_type read a = None"
  by (simp add: copy_type_def)

lemma copy_type_NULL [simp]: "copy_type read NULL = None"
  by (simp add: copy_type_def)

lemma copy_type_SomeD: "copy_type read a = Some x \<Longrightarrow> read a = Some x \<and> 4096 \<le> unat a"
  by (auto simp: copy_type_def split: if_splits)

section \<open>Choosing the implementation\<close>

definition truthy_values :: "string list" where
  "truthy_values = [''1'', ''true'', ''yes'', ''on'', ''enable'', ''enabled'']"

definition is_truthy :: "string \<Rightarrow> bool" where
  "is_truthy s = List.member truthy_values s"

type_synonym environment = "string \<rightharpoonup> string"

definition use_alternative_copy_memory :: "environment \<Rightarrow> bool" where
  "use_alternative_copy_memory env =
     (case env ''ECHION_USE_FAST_COPY_MEMORY'' of
        None \<Rightarrow> False
      | Some use_fast \<Rightarrow> if is_truthy use_fast then True else False)"

subsection \<open>VmReader: copying through a file mapping\<close>

text \<open>
  The outcomes of the system calls. \<open>pwritev\<close> returns the bytes it wrote, which may be
  fewer than asked for; \<^term>\<open>None\<close> is -1.
\<close>

record vm_os =
  mkstemp :: "string \<Rightarrow> int option"
  ftruncate :: "int \<Rightarrow> nat \<Rightarrow> bool"
  mmap_file :: "int \<Rightarrow> nat \<Rightarrow> addr option"
  mremap :: "addr \<Rightarrow> nat \<Rightarrow> nat \<Rightarrow> addr option"
  pwritev :: "int \<Rightarrow> addr \<Rightarrow> nat \<Rightarrow> byte list option"

text \<open>The file's content belongs to the reader: the mapping shows it.\<close>

record VmReader =
  vm_buffer :: addr
  vm_sz :: nat
  vm_fd :: int
  vm_file :: "byte list"

definition tmp_dirs :: "string list" where
  "tmp_dirs = [''/dev/shm'', ''/tmp'', ''/var/tmp'']"

definition tmp_suffix :: string where
  "tmp_suffix = ''/echion-XXXXXX''"

text \<open>
  The loop of \<open>create\<close>: the descriptor and the mapping it ends with, and the descriptors
  left open.
\<close>

fun vm_create_loop ::
  "vm_os \<Rightarrow> nat \<Rightarrow> string list \<Rightarrow> int \<Rightarrow> addr \<Rightarrow> int list \<Rightarrow> int \<times> addr \<times> int list" where
  "vm_create_loop os sz [] fd ret opened = (fd, ret, opened)"
| "vm_create_loop os sz (tmp_dir # dirs) fd ret opened =
     (let opened = removeAll fd opened in
      case mkstemp os (tmp_dir @ tmp_suffix) of
        None \<Rightarrow> vm_create_loop os sz dirs (-1) ret opened
      | Some fd \<Rightarrow>
          (let opened = fd # opened in
           if \<not> ftruncate os fd sz then vm_create_loop os sz dirs fd ret opened
           else (case mmap_file os fd sz of
                   None \<Rightarrow> vm_create_loop os sz dirs fd NULL opened
                 | Some ret \<Rightarrow> (fd, ret, opened))))"

definition vm_create :: "vm_os \<Rightarrow> nat \<Rightarrow> VmReader \<times> int list" where
  "vm_create os sz =
     (case vm_create_loop os sz tmp_dirs (-1) NULL [] of
        (fd, ret, opened) \<Rightarrow>
          (\<lparr>vm_buffer = ret, vm_sz = sz, vm_fd = fd, vm_file = replicate sz 0\<rparr>, opened))"

definition vm_is_valid :: "VmReader \<Rightarrow> bool" where
  "vm_is_valid r = (vm_buffer r \<noteq> NULL)"

text \<open>\<open>get_instance\<close>: a null result of \<open>create\<close> is tested for, but \<open>new\<close> never gives one.\<close>

definition vm_get_instance :: "vm_os \<Rightarrow> VmReader option \<Rightarrow> VmReader option" where
  "vm_get_instance os inst =
     (case inst of
        None \<Rightarrow> (case Some (fst (vm_create os (1024 * 1024))) of None \<Rightarrow> None | Some r \<Rightarrow> Some r)
      | Some r \<Rightarrow> Some r)"

text \<open>
  \<open>VmReader::safe_copy\<close> with one local and one remote range. The result is the return
  value, the local buffer and the reader; \<^term>\<open>None\<close> is a \<open>memcpy\<close> that reads outside
  the mapping.
\<close>

definition vm_resize :: "vm_os \<Rightarrow> VmReader \<Rightarrow> nat \<Rightarrow> VmReader option" where
  "vm_resize os r len =
     (if vm_sz r < len
      then (if \<not> ftruncate os (vm_fd r) len then None
            else (case mremap os (vm_buffer r) (vm_sz r) len of
                    None \<Rightarrow> None
                  | Some tmp \<Rightarrow> Some (r\<lparr>vm_buffer := tmp, vm_sz := len,
                      vm_file := vm_file r @ replicate (len - length (vm_file r)) 0\<rparr>)))
      else Some r)"

definition vm_safe_copy ::
  "vm_os \<Rightarrow> VmReader \<Rightarrow> addr \<Rightarrow> nat \<Rightarrow> byte list \<Rightarrow> ((int \<times> byte list) \<times> VmReader) option" where
  "vm_safe_copy os r remote len local =
     (case vm_resize os r len of
        None \<Rightarrow> Some ((0, local), r)
      | Some r \<Rightarrow>
          (case pwritev os (vm_fd r) remote len of
             None \<Rightarrow> Some ((-1, local), r)
           | Some written \<Rightarrow>
               (let r = r\<lparr>vm_file := written @ drop (length written) (vm_file r)\<rparr> in
                if vm_buffer r = NULL \<or> length (vm_file r) < len then None
                else Some ((int (length written), take len (vm_file r)), r))))"

text \<open>\<open>vmreader_safe_copy\<close>, the function the pointer is set to: it makes the reader on
  the first call; the null test after \<open>get_instance\<close> copies nothing.\<close>

definition vmreader_safe_copy ::
  "vm_os \<Rightarrow> VmReader option \<Rightarrow> addr \<Rightarrow> nat \<Rightarrow> byte list
     \<Rightarrow> ((int \<times> byte list) \<times> VmReader option) option" where
  "vmreader_safe_copy os inst remote len local =
     (case vm_get_instance os inst of
        None \<Rightarrow> Some ((0, local), None)
      | Some reader \<Rightarrow>
          map_option (\<lambda>(res, r). (res, Some r)) (vm_safe_copy os reader remote len local))"

subsection \<open>init_safe_copy\<close>

datatype copy_impl = Process_vm_readv | Safe_memcpy_wrapper | Vmreader_safe_copy

text \<open>The pointer, the flag \<open>failed_safe_copy\<close> and the reader's singleton.\<close>

record copy_config =
  safe_copy_impl :: copy_impl
  failed_safe_copy :: bool
  vm_instance :: "VmReader option"

definition static_copy_config :: copy_config where
  "static_copy_config =
     \<lparr>safe_copy_impl = Process_vm_readv, failed_safe_copy = False, vm_instance = None\<rparr>"

definition read_process_vm_init :: "vm_os \<Rightarrow> copy_config \<Rightarrow> bool \<times> copy_config" where
  "read_process_vm_init os c =
     (let inst = vm_get_instance os (vm_instance c) in (inst \<noteq> None, c\<lparr>vm_instance := inst\<rparr>))"

text \<open>
  \<open>segv\<close> is the result of \<open>init_segv_catcher\<close>, \<open>probe\<close> what \<open>process_vm_readv\<close> returns
  for the 128 bytes of the test buffer.
\<close>

definition init_safe_copy ::
  "vm_os \<Rightarrow> environment \<Rightarrow> int \<Rightarrow> int \<Rightarrow> copy_config \<Rightarrow> copy_config" where
  "init_safe_copy os env segv probe c =
     (if use_alternative_copy_memory env \<and> segv = 0
      then c\<lparr>safe_copy_impl := Safe_memcpy_wrapper\<rparr>
      else if (case env ''ECHION_ALT_VM_READ_FORCE'' of None \<Rightarrow> True | Some v \<Rightarrow> \<not> is_truthy v)
              \<and> probe = 128
      then c\<lparr>safe_copy_impl := Process_vm_readv\<rparr>
      else (case read_process_vm_init os c of
              (ok, c) \<Rightarrow>
                if \<not> ok then c\<lparr>failed_safe_copy := True\<rparr>
                else c\<lparr>safe_copy_impl := Vmreader_safe_copy\<rparr>))"

section \<open>Properties of the reader\<close>

definition vm_ok :: "VmReader \<Rightarrow> bool" where
  "vm_ok r \<longleftrightarrow> length (vm_file r) = vm_sz r"

lemma vm_create_ok: "vm_ok (fst (vm_create os sz))"
  by (simp add: vm_create_def vm_ok_def split: prod.split)

lemma vm_resize_ok:
  assumes "vm_ok r" "vm_resize os r len = Some r'"
  shows "vm_ok r'" "len \<le> length (vm_file r')" "vm_sz r \<le> vm_sz r'"
  using assms by (auto simp: vm_ok_def vm_resize_def split: if_splits option.splits)

text \<open>The mapping grows and is never cut; a full read returns the remote bytes.\<close>

lemma vm_safe_copy_reads:
  assumes ok: "vm_ok r"
    and short: "\<And>fd a n bs. pwritev os fd a n = Some bs \<Longrightarrow> length bs \<le> n"
    and run: "vm_safe_copy os r remote len local = Some ((result, buf), r')"
    and full: "result = int len" "0 < len"
  shows "pwritev os (vm_fd r) remote len = Some buf \<and> vm_ok r' \<and> vm_sz r \<le> vm_sz r'"
proof -
  obtain s where s: "vm_resize os r len = Some s"
    using run full by (auto simp: vm_safe_copy_def split: option.splits)
  then have fd: "vm_fd s = vm_fd r"
    by (auto simp: vm_resize_def split: if_splits option.splits)
  obtain bs where bs: "pwritev os (vm_fd s) remote len = Some bs"
    using run s full by (auto simp: vm_safe_copy_def split: option.splits)
  have len: "length bs = len"
    and buf: "buf = take len (bs @ drop (length bs) (vm_file s))"
    and r': "r' = s\<lparr>vm_file := bs @ drop (length bs) (vm_file s)\<rparr>"
    using run full s bs by (auto simp: vm_safe_copy_def Let_def split: if_splits)
  have "buf = bs"
    using len buf by simp
  moreover have "vm_ok r'" "vm_sz r \<le> vm_sz r'"
    using vm_resize_ok [OF ok s] len by (auto simp: r' vm_ok_def)
  ultimately show ?thesis
    using bs fd by simp
qed

text \<open>No descriptor is lost: whatever \<open>create\<close> leaves open is the reader's own.\<close>

lemma removeAll_single: "set xs \<subseteq> {x} \<Longrightarrow> removeAll x xs = []"
  by (induction xs) auto

lemma vm_create_loop_opened:
  assumes "set opened \<subseteq> {fd}"
  shows "set (snd (snd (vm_create_loop os sz dirs fd ret opened)))
    \<subseteq> {fst (vm_create_loop os sz dirs fd ret opened)}"
  using assms
proof (induction dirs arbitrary: fd ret opened)
  case (Cons tmp_dir dirs)
  then show ?case
    by (simp add: Let_def removeAll_single split: option.split)
qed simp

text \<open>\<open>VmReader::create\<close> closes every temporary file it gives up: the only descriptor
  left open is the one the reader keeps.\<close>

theorem vm_create_no_leak: "set (snd (vm_create os sz)) \<subseteq> {vm_fd (fst (vm_create os sz))}"
  using vm_create_loop_opened [of "[]" "-1" os sz tmp_dirs NULL]
  by (auto simp: vm_create_def split: prod.splits)



lemma vm_create_unmapped:
  assumes "\<And>fd n. mmap_file os fd n = None"
  shows "\<not> vm_is_valid (fst (vm_create os sz))"
proof -
  have "fst (snd (vm_create_loop os sz dirs fd NULL opened)) = NULL" for dirs fd opened
    using assms by (induction dirs arbitrary: fd opened) (auto simp: Let_def split: option.split)
  then show ?thesis
    by (auto simp: vm_create_def vm_is_valid_def split: prod.split) (metis fst_conv snd_conv)
qed

lemma vm_safe_copy_unmapped:
  assumes "\<not> vm_is_valid r" "len \<le> vm_sz r" "pwritev os (vm_fd r) a len = Some bs"
  shows "vm_safe_copy os r a len local = None"
  using assms by (simp add: vm_safe_copy_def vm_resize_def vm_is_valid_def Let_def)

lemma init_safe_copy_flag:
  "failed_safe_copy (init_safe_copy os env segv probe c) = failed_safe_copy c"
  by (simp add: init_safe_copy_def read_process_vm_init_def vm_get_instance_def Let_def
      split: option.split)

lemma init_safe_copy_forced:
  assumes "segv \<noteq> 0 \<or> \<not> use_alternative_copy_memory env" "probe \<noteq> 128"
  shows "safe_copy_impl (init_safe_copy os env segv probe static_copy_config) = Vmreader_safe_copy"
    "vm_instance (init_safe_copy os env segv probe static_copy_config)
       = Some (fst (vm_create os (1024 * 1024)))"
  using assms
  by (auto simp: init_safe_copy_def read_process_vm_init_def static_copy_config_def
      vm_get_instance_def)

text \<open>The start-up code never reports failure. Whatever the system calls return,
  \<open>failed_safe_copy\<close> stays clear, although the reader it settles on may have no mapping:
  where \<open>process_vm_readv\<close> does not work and no temporary file can be mapped, the reader
  that is chosen is not valid, and a copy through it follows a null buffer as soon as its
  descriptor accepts the write.\<close>

theorem init_safe_copy_never_fails:
  fixes segv :: int
  assumes "\<not> use_alternative_copy_memory env" "probe \<noteq> 128"
    and "\<And>fd n. mmap_file os fd n = None" "\<And>fd a n. \<exists>bs. pwritev os fd a n = Some bs"
    and "len \<le> 1024 * 1024"
  defines "c \<equiv> init_safe_copy os env segv probe static_copy_config"
  shows "\<not> failed_safe_copy c \<and> safe_copy_impl c = Vmreader_safe_copy
    \<and> vmreader_safe_copy os (vm_instance c) remote len local = None"
proof -
  have c: "safe_copy_impl c = Vmreader_safe_copy"
    "vm_instance c = Some (fst (vm_create os (1024 * 1024)))"
    unfolding c_def using assms(1,2) by (auto simp: init_safe_copy_forced)
  have sz: "vm_sz (fst (vm_create os (1024 * 1024))) = 1024 * 1024"
    by (simp add: vm_create_def split: prod.split)
  obtain bs where "pwritev os (vm_fd (fst (vm_create os (1024 * 1024)))) remote len = Some bs"
    using assms(4) by blast
  then have "vm_safe_copy os (fst (vm_create os (1024 * 1024))) remote len local = None"
    using assms(3,5) sz by (intro vm_safe_copy_unmapped) (auto simp: vm_create_unmapped)
  moreover have "\<not> failed_safe_copy c"
    by (simp add: c_def init_safe_copy_flag static_copy_config_def)
  ultimately show ?thesis
    using c by (simp add: vmreader_safe_copy_def vm_get_instance_def)
qed

theorem init_safe_copy_never_fails_witness:
  "\<not> failed_safe_copy
     (init_safe_copy
        \<lparr>mkstemp = (\<lambda>_. Some 3), ftruncate = (\<lambda>_ _. True), mmap_file = (\<lambda>_ _. None),
         mremap = (\<lambda>_ _ _. None), pwritev = (\<lambda>_ _ n. Some (replicate n 0))\<rparr>
        Map.empty 0 (-1) static_copy_config)"
proof -
  have "\<not> use_alternative_copy_memory Map.empty"
    by (simp add: use_alternative_copy_memory_def)
  from init_safe_copy_never_fails [OF this, where probe = "-1" and segv = 0 and len = 8
      and remote = 65536 and local = "[]"
      and os = "\<lparr>mkstemp = (\<lambda>_. Some 3), ftruncate = (\<lambda>_ _. True), mmap_file = (\<lambda>_ _. None),
         mremap = (\<lambda>_ _ _. None), pwritev = (\<lambda>_ _ n. Some (replicate n 0))\<rparr>"]
  show ?thesis by simp
qed

end
