(* ===== verification/Danger.thy ===== *)
theory Danger
  imports Vm
begin

text \<open>
  \<open>echion/danger.h\<close> and \<open>echion/danger.cc\<close>: a \<open>memcpy\<close> that survives faults. The copy
  runs page by page between arming and disarming the fault handler; a fault jumps out of
  the copy. Memory maps an address to its byte, or to \<^term>\<open>None\<close> where touching it
  faults.
\<close>

type_synonym memory = "addr \<rightharpoonup> byte"

section \<open>The alternate signal stack\<close>

record alt_stack =
  as_mem :: addr
  as_size :: nat
  as_ready :: bool

definition new_alt_stack :: alt_stack where
  "new_alt_stack = \<lparr>as_mem = NULL, as_size = 0, as_ready = False\<rparr>"

definition kAltStackSize :: nat where
  "kAltStackSize = 1048576"

text \<open>
  The kernel's view of the thread's alternate stack (\<^term>\<open>None\<close>: \<open>SS_DISABLE\<close>), and the
  outcomes of the calls.
\<close>

record stack_os =
  sigaltstack_get :: bool
  mmap_anon :: "addr option"
  sigaltstack_set :: bool

type_synonym kernel_stack = "(addr \<times> nat) option"

definition ensure_installed ::
  "stack_os \<Rightarrow> alt_stack \<Rightarrow> kernel_stack \<Rightarrow> int \<times> alt_stack \<times> kernel_stack" where
  "ensure_installed os a cur =
     (if as_ready a then (0, a, cur)
      else if sigaltstack_get os \<and> cur \<noteq> None then (0, a\<lparr>as_ready := True\<rparr>, cur)
      else (case mmap_anon os of
              None \<Rightarrow> (-1, a, cur)
            | Some mem \<Rightarrow>
                if \<not> sigaltstack_set os then (-1, a, cur)
                else (0, a\<lparr>as_mem := mem, as_size := kAltStackSize, as_ready := True\<rparr>,
                      Some (mem, kAltStackSize))))"

text \<open>The destructor: what it unmaps and the kernel's stack after it.\<close>

definition alt_stack_destroy :: "alt_stack \<Rightarrow> kernel_stack \<Rightarrow> (addr \<times> nat) option \<times> kernel_stack" where
  "alt_stack_destroy a cur =
     (if \<not> as_ready a then (None, cur) else (Some (as_mem a, as_size a), None))"

section \<open>Fault handlers\<close>

datatype signo = SIGSEGV | SIGBUS

datatype handler = SegvHandler | OtherHandler nat

record signal_state =
  handlers :: "signo \<Rightarrow> handler"
  g_old_segv :: handler
  g_old_bus :: handler

text \<open>The handler in a thread: jump to the armed copy, or put the old handler back.\<close>

datatype fault_action = Long_jump | Reraise

definition segv_handler :: "bool \<Rightarrow> signo \<Rightarrow> signal_state \<Rightarrow> fault_action \<times> signal_state" where
  "segv_handler armed signum s =
     (if \<not> armed
      then (Reraise, s\<lparr>handlers := (handlers s)
             (signum := if signum = SIGSEGV then g_old_segv s else g_old_bus s)\<rparr>)
      else (Long_jump, s))"

text \<open>\<open>sigaction_ok signum\<close> is whether installing a handler for it succeeds.\<close>

definition init_segv_catcher ::
  "stack_os \<Rightarrow> (signo \<Rightarrow> bool) \<Rightarrow> alt_stack \<Rightarrow> kernel_stack \<Rightarrow> signal_state
     \<Rightarrow> int \<times> alt_stack \<times> kernel_stack \<times> signal_state" where
  "init_segv_catcher os sigaction_ok a cur s =
     (case ensure_installed os a cur of (rc, a, cur) \<Rightarrow>
        if rc \<noteq> 0 then (-1, a, cur, s)
        else if \<not> sigaction_ok SIGSEGV then (-1, a, cur, s)
        else
          (let s = s\<lparr>g_old_segv := handlers s SIGSEGV,
                     handlers := (handlers s)(SIGSEGV := SegvHandler)\<rparr>
           in if \<not> sigaction_ok SIGBUS
              then (-1, a, cur, s\<lparr>handlers := (handlers s)(SIGSEGV := g_old_segv s)\<rparr>)
              else (0, a, cur, s\<lparr>g_old_bus := handlers s SIGBUS,
                                 handlers := (handlers s)(SIGBUS := SegvHandler)\<rparr>)))"

section \<open>safe_memcpy\<close>

text \<open>\<open>page_size\<close> from the result of \<open>sysconf(_SC_PAGESIZE)\<close>.\<close>

definition page_size :: "int \<Rightarrow> nat" where
  "page_size sysconf = (if sysconf \<le> 0 then 4096 else nat sysconf)"

definition to_page_end :: "nat \<Rightarrow> addr \<Rightarrow> nat" where
  "to_page_end ps a = ps - unat (a AND (of_nat ps - 1))"

definition readable :: "memory \<Rightarrow> addr \<Rightarrow> nat \<Rightarrow> bool" where
  "readable mem a n = (\<forall>i < n. mem (a + of_nat i) \<noteq> None)"

text \<open>\<open>memcpy(d, s, n)\<close> of mapped, disjoint ranges.\<close>

definition mem_copy :: "memory \<Rightarrow> addr \<Rightarrow> addr \<Rightarrow> nat \<Rightarrow> memory" where
  "mem_copy mem d s n = (\<lambda>a. if unat (a - d) < n then mem (s + (a - d)) else mem a)"

text \<open>
  A \<open>memcpy\<close> that faults has written some of the bytes it can touch: \<open>written i\<close> says
  whether byte \<open>i\<close> is one of them.
\<close>

definition mem_torn :: "(nat \<Rightarrow> bool) \<Rightarrow> memory \<Rightarrow> addr \<Rightarrow> addr \<Rightarrow> nat \<Rightarrow> memory" where
  "mem_torn written mem d s n =
     (\<lambda>a. if unat (a - d) < n \<and> written (unat (a - d)) \<and> mem a \<noteq> None \<and> mem (s + (a - d)) \<noteq> None
          then mem (s + (a - d)) else mem a)"

lemma to_page_end_pos:
  assumes "0 < ps" "ps < 2 ^ 64"
  shows "0 < to_page_end ps a"
proof -
  have "unat (of_nat ps - 1 :: addr) = ps - 1"
    using assms unat_of_nat_addr [of "ps - 1"] by (simp add: of_nat_diff)
  then have "unat (a AND (of_nat ps - 1)) \<le> ps - 1"
    using word_and_le1 [of a "of_nat ps - 1"] by (simp add: word_le_nat_alt)
  then show ?thesis
    using assms(1) by (simp add: to_page_end_def)
qed

text \<open>
  The loop; which bytes of a chunk are written before a fault is up to \<open>torn mem d s chunk\<close>.
  The result is whether it faulted, and the memory.
\<close>

function safe_memcpy_loop ::
  "nat \<Rightarrow> (memory \<Rightarrow> addr \<Rightarrow> addr \<Rightarrow> nat \<Rightarrow> nat \<Rightarrow> bool) \<Rightarrow> memory \<Rightarrow> addr \<Rightarrow> addr \<Rightarrow> nat \<Rightarrow> bool \<times> memory" where
  "safe_memcpy_loop ps torn mem d s rem =
     (if rem = 0 \<or> ps = 0 \<or> 2 ^ 64 \<le> ps then (False, mem)
      else
        (let chunk = min rem (min (to_page_end ps s) (to_page_end ps d)) in
         if \<not> readable mem s 1 then (True, mem)
         else if \<not> readable mem s chunk \<or> \<not> readable mem d chunk
         then (True, mem_torn (torn mem d s chunk) mem d s chunk)
         else safe_memcpy_loop ps torn (mem_copy mem d s chunk)
                (d + of_nat chunk) (s + of_nat chunk) (rem - chunk)))"
  by pat_completeness auto
termination
  by (relation "measure (\<lambda>(ps, torn, mem, d, s, rem). rem)") (auto simp: Let_def to_page_end_pos)

declare safe_memcpy_loop.simps [simp del]

text \<open>A thread's copying state: its alternate stack, the armed flag and \<open>errno\<close>.\<close>

datatype errno = No_errno | EINVAL | EFAULT

record copy_thread =
  ct_altstack :: alt_stack
  ct_kernel :: kernel_stack
  ct_armed :: bool
  ct_errno :: errno

definition safe_memcpy ::
  "stack_os \<Rightarrow> int \<Rightarrow> (memory \<Rightarrow> addr \<Rightarrow> addr \<Rightarrow> nat \<Rightarrow> nat \<Rightarrow> bool) \<Rightarrow> memory \<Rightarrow> addr \<Rightarrow> addr \<Rightarrow> nat
     \<Rightarrow> copy_thread \<Rightarrow> int \<times> memory \<times> copy_thread" where
  "safe_memcpy os sysconf torn mem dst src n t =
     (case ensure_installed os (ct_altstack t) (ct_kernel t) of (rc, a, cur) \<Rightarrow>
        let t = t\<lparr>ct_altstack := a, ct_kernel := cur\<rparr> in
        if rc \<noteq> 0 then (-1, mem, t\<lparr>ct_errno := EINVAL\<rparr>)
        else
          (let t = t\<lparr>ct_armed := True\<rparr> in
           case safe_memcpy_loop (page_size sysconf) torn mem dst src n of
             (t_faulted, mem) \<Rightarrow>
               (let t = t\<lparr>ct_armed := False\<rparr> in
                if t_faulted then (-1, mem, t\<lparr>ct_errno := EFAULT\<rparr>)
                else (int n, mem, t))))"

text \<open>The wrapper with the signature of \<open>process_vm_readv\<close>.\<close>

definition safe_memcpy_wrapper ::
  "stack_os \<Rightarrow> int \<Rightarrow> (memory \<Rightarrow> addr \<Rightarrow> addr \<Rightarrow> nat \<Rightarrow> nat \<Rightarrow> bool) \<Rightarrow> memory
     \<Rightarrow> addr \<times> nat \<Rightarrow> addr \<times> nat \<Rightarrow> copy_thread \<Rightarrow> int \<times> memory \<times> copy_thread" where
  "safe_memcpy_wrapper os sysconf torn mem dstvec srcvec t =
     safe_memcpy os sysconf torn mem (fst dstvec) (fst srcvec) (min (snd dstvec) (snd srcvec)) t"

section \<open>The copy is a copy\<close>

text \<open>The ranges do not overlap.\<close>

definition ranges_apart :: "addr \<Rightarrow> addr \<Rightarrow> nat \<Rightarrow> bool" where
  "ranges_apart d s n \<longleftrightarrow> (\<forall>i < n. \<forall>j < n. d + of_nat i \<noteq> s + of_nat j)"

lemma unat_add_of_nat_diff:
  assumes "i < 2 ^ 64"
  shows "unat (d + of_nat i - d :: addr) = i"
  using assms by simp

lemma mem_copy_outside: "unat (a - d) \<ge> n \<Longrightarrow> mem_copy mem d s n a = mem a"
  by (simp add: mem_copy_def)

lemma mem_copy_0 [simp]: "mem_copy mem d s 0 = mem"
  by (simp add: mem_copy_def)

lemma addr_in_range:
  assumes "unat (a - d :: addr) < n"
  obtains i where "i < n" "a = d + of_nat i"
proof
  show "unat (a - d) < n" by fact
  show "a = d + of_nat (unat (a - d))" by simp
qed

lemma mem_copy_source:
  assumes "ranges_apart d s n" "c \<le> n" "i < n"
  shows "mem_copy mem d s c (s + of_nat i) = mem (s + of_nat i)"
proof (rule mem_copy_outside, rule ccontr)
  assume "\<not> c \<le> unat (s + of_nat i - d)"
  then obtain j where "j < c" "s + of_nat i = d + of_nat j"
    by (meson addr_in_range not_le)
  with assms show False
    unfolding ranges_apart_def by (metis order_less_le_trans)
qed

lemma mem_copy_split:
  assumes apart: "ranges_apart d s n" and n: "n < 2 ^ 64" and c: "c \<le> n"
  shows "mem_copy (mem_copy mem d s c) (d + of_nat c) (s + of_nat c) (n - c) = mem_copy mem d s n"
proof
  fix a
  define i where "i = unat (a - d)"
  have a: "a = d + of_nat i"
    by (simp add: i_def)
  have lt: "i < 2 ^ 64"
    unfolding i_def by (rule unat_addr_less)
  have diff: "a - (d + of_nat c) = of_nat i - of_nat c"
    by (simp add: a)
  show "mem_copy (mem_copy mem d s c) (d + of_nat c) (s + of_nat c) (n - c) a = mem_copy mem d s n a"
  proof (cases "c \<le> i")
    case True
    have "a - (d + of_nat c) = of_nat (i - c)"
      using diff True by (simp add: of_nat_diff)
    then have u: "unat (a - (d + of_nat c)) = i - c"
      using lt by simp
    have s: "s + of_nat c + (a - (d + of_nat c)) = s + of_nat i"
      by (simp add: diff)
    show ?thesis
    proof (cases "i < n")
      case True
      with u s \<open>c \<le> i\<close> have "mem_copy (mem_copy mem d s c) (d + of_nat c) (s + of_nat c) (n - c) a
          = mem_copy mem d s c (s + of_nat i)"
        unfolding mem_copy_def [of "mem_copy mem d s c"] by (simp only: u s) auto
      also have "\<dots> = mem (s + of_nat i)"
        using True by (rule mem_copy_source [OF apart c])
      finally show ?thesis
        using True by (simp add: mem_copy_def i_def)
    next
      case False
      then have "\<not> i - c < n - c"
        using c by linarith
      with u False show ?thesis
        unfolding mem_copy_def [of "mem_copy mem d s c"]
        using \<open>c \<le> i\<close> by (simp add: mem_copy_def i_def [symmetric])
    qed
  next
    case False
    have "unat (a - (d + of_nat c)) = 2 ^ 64 - (c - i)"
    proof -
      have "(of_nat i - of_nat c :: addr) = - of_nat (c - i)"
        using False by (simp add: of_nat_diff)
      then have "a - (d + of_nat c) = - of_nat (c - i)"
        using diff by simp
      moreover have "- of_nat (c - i) = (of_nat (2 ^ 64 - (c - i)) :: addr)"
        using c n by (subst of_nat_diff) simp_all
      ultimately have "a - (d + of_nat c) = of_nat (2 ^ 64 - (c - i))"
        by (simp only:)
      moreover have "2 ^ 64 - (c - i) < (2 :: nat) ^ 64"
        using False by simp
      ultimately show ?thesis
        by (simp only: unat_of_nat_addr)
    qed
    then have "\<not> unat (a - (d + of_nat c)) < n - c"
      using n c False by simp
    with False c show ?thesis
      by (simp add: mem_copy_def i_def [symmetric])
  qed
qed

lemma readable_mono: "readable mem a n \<Longrightarrow> m \<le> n \<Longrightarrow> readable mem a m"
  by (auto simp: readable_def)

lemma readable_mem_copy:
  assumes "readable mem s c" "readable mem a n"
  shows "readable (mem_copy mem d s c) a n"
  unfolding readable_def
proof (intro allI impI)
  fix i assume i: "i < n"
  show "mem_copy mem d s c (a + of_nat i) \<noteq> None"
  proof (cases "unat (a + of_nat i - d) < c")
    case True
    then have "mem (s + of_nat (unat (a + of_nat i - d))) \<noteq> None"
      using assms(1) by (auto simp: readable_def simp del: of_nat_unat)
    with True show ?thesis
      by (simp add: mem_copy_def)
  next
    case False
    with assms(2) i show ?thesis
      by (simp add: mem_copy_def readable_def)
  qed
qed

lemma readable_shift:
  assumes "readable mem a n" "c \<le> n"
  shows "readable mem (a + of_nat c) (n - c)"
  unfolding readable_def
proof (intro allI impI)
  fix i assume "i < n - c"
  then have "c + i < n"
    using assms(2) by auto
  with assms(1) have "mem (a + of_nat (c + i)) \<noteq> None"
    unfolding readable_def by blast
  then show "mem (a + of_nat c + of_nat i) \<noteq> None"
    by (simp add: add.assoc)
qed

lemma ranges_apart_shift:
  assumes "ranges_apart d s n" "c \<le> n"
  shows "ranges_apart (d + of_nat c) (s + of_nat c) (n - c)"
  unfolding ranges_apart_def
proof (intro allI impI)
  fix i j assume "i < n - c" "j < n - c"
  then have "c + i < n" "c + j < n"
    by auto
  with assms(1) have "d + of_nat (c + i) \<noteq> s + of_nat (c + j)"
    unfolding ranges_apart_def by blast
  then show "d + of_nat c + of_nat i \<noteq> s + of_nat c + of_nat j"
    by (simp add: add.assoc)
qed

lemma safe_memcpy_loop_copies:
  assumes "0 < ps" "ps < 2 ^ 64" "rem < 2 ^ 64"
    and "readable mem s rem" "readable mem d rem" "ranges_apart d s rem"
  shows "safe_memcpy_loop ps torn mem d s rem = (False, mem_copy mem d s rem)"
  using assms
proof (induction ps torn mem d s rem rule: safe_memcpy_loop.induct)
  case (1 ps torn mem d s rem)
  show ?case
  proof (cases "rem = 0")
    case True
    then show ?thesis
      by (simp add: safe_memcpy_loop.simps)
  next
    case False
    define chunk where "chunk = min rem (min (to_page_end ps s) (to_page_end ps d))"
    have le: "chunk \<le> rem"
      by (simp add: chunk_def)
    have rd: "readable mem s chunk" "readable mem d chunk" "readable mem s 1"
      using readable_mono "1.prems"(4,5) le False by auto
    have rest: "readable (mem_copy mem d s chunk) (s + of_nat chunk) (rem - chunk)"
      "readable (mem_copy mem d s chunk) (d + of_nat chunk) (rem - chunk)"
      using rd(1) readable_shift [OF _ le] "1.prems"(4,5) by (auto intro: readable_mem_copy)
    have "safe_memcpy_loop ps torn (mem_copy mem d s chunk) (d + of_nat chunk)
        (s + of_nat chunk) (rem - chunk)
      = (False, mem_copy (mem_copy mem d s chunk) (d + of_nat chunk) (s + of_nat chunk) (rem - chunk))"
    proof (rule "1.IH" [OF _ chunk_def])
      show "\<not> (rem = 0 \<or> ps = 0 \<or> 2 ^ 64 \<le> ps)"
        using False "1.prems"(1,2) by auto
      show "ranges_apart (d + of_nat chunk) (s + of_nat chunk) (rem - chunk)"
        using "1.prems"(6) le by (rule ranges_apart_shift)
    qed (use rd rest "1.prems" in auto)
    then have "safe_memcpy_loop ps torn mem d s rem
      = (False, mem_copy (mem_copy mem d s chunk) (d + of_nat chunk) (s + of_nat chunk) (rem - chunk))"
      using False "1.prems"(1,2) rd
      by (simp add: safe_memcpy_loop.simps [of ps torn mem d s rem] chunk_def [symmetric])
    then show ?thesis
      using mem_copy_split [OF "1.prems"(6,3) le] by simp
  qed
qed

lemma safe_memcpy_loop_faults:
  assumes "0 < ps" "ps < 2 ^ 64" "rem < 2 ^ 64" "ranges_apart d s rem"
    and "\<not> readable mem s rem \<or> \<not> readable mem d rem"
  shows "fst (safe_memcpy_loop ps torn mem d s rem)"
  using assms
proof (induction ps torn mem d s rem rule: safe_memcpy_loop.induct)
  case (1 ps torn mem d s rem)
  have nz: "rem \<noteq> 0"
    using "1.prems"(5) by (auto simp: readable_def)
  define chunk where "chunk = min rem (min (to_page_end ps s) (to_page_end ps d))"
  have le: "chunk \<le> rem"
    by (simp add: chunk_def)
  note step = safe_memcpy_loop.simps [of ps torn mem d s rem]
  show ?case
  proof (cases "readable mem s 1 \<and> readable mem s chunk \<and> readable mem d chunk")
    case False
    then show ?thesis
      using nz "1.prems"(1,2) by (auto simp: step chunk_def [symmetric] Let_def)
  next
    case True
    have unread: "\<not> readable (mem_copy mem d s chunk) a n" if u: "\<not> readable mem a n" for a n
    proof -
      obtain i where i: "i < n" "mem (a + of_nat i) = None"
        using u by (auto simp: readable_def)
      have "\<not> unat (a + of_nat i - d) < chunk"
      proof
        assume "unat (a + of_nat i - d) < chunk"
        then obtain j where "j < chunk" "a + of_nat i = d + of_nat j"
          by (rule addr_in_range)
        with True i(2) show False
          by (auto simp: readable_def)
      qed
      with i show ?thesis
        by (auto simp: readable_def mem_copy_def)
    qed
    have split: "readable mem a rem" if "readable mem a chunk" "readable mem (a + of_nat chunk) (rem - chunk)" for a
      unfolding readable_def
    proof (intro allI impI)
      fix i assume i: "i < rem"
      show "mem (a + of_nat i) \<noteq> None"
      proof (cases "i < chunk")
        case False
        then have "i - chunk < rem - chunk"
          using i by linarith
        with that(2) have "mem (a + of_nat chunk + of_nat (i - chunk)) \<noteq> None"
          unfolding readable_def by blast
        with False show ?thesis
          by (simp add: of_nat_diff)
      qed (use that(1) in \<open>simp add: readable_def\<close>)
    qed
    have "fst (safe_memcpy_loop ps torn (mem_copy mem d s chunk) (d + of_nat chunk)
        (s + of_nat chunk) (rem - chunk))"
    proof (rule "1.IH" [OF _ chunk_def])
      show "ranges_apart (d + of_nat chunk) (s + of_nat chunk) (rem - chunk)"
        using "1.prems"(4) le by (rule ranges_apart_shift)
      show "\<not> readable (mem_copy mem d s chunk) (s + of_nat chunk) (rem - chunk)
          \<or> \<not> readable (mem_copy mem d s chunk) (d + of_nat chunk) (rem - chunk)"
        using True split unread "1.prems"(5) by blast
    qed (use nz True "1.prems" in auto)
    then show ?thesis
      using nz True "1.prems"(1,2) by (simp add: step chunk_def [symmetric] Let_def)
  qed
qed

lemma page_size_pos: "0 < page_size v"
  by (auto simp: page_size_def)

lemma ensure_installed_ready:
  "fst (ensure_installed os a cur) = 0 \<longleftrightarrow> as_ready (fst (snd (ensure_installed os a cur)))"
  by (simp add: ensure_installed_def split: option.split)

section \<open>Properties\<close>

lemma safe_memcpy_loop_outside:
  assumes "rem \<le> unat (a - d)" "rem < 2 ^ 64"
  shows "snd (safe_memcpy_loop ps torn mem d s rem) a = mem a"
  using assms
proof (induction ps torn mem d s rem rule: safe_memcpy_loop.induct)
  case (1 ps torn mem d s rem)
  define chunk where "chunk = min rem (min (to_page_end ps s) (to_page_end ps d))"
  have le: "chunk \<le> rem"
    by (simp add: chunk_def)
  have "unat (a - (d + of_nat chunk)) = unat (a - d) - chunk"
    using le "1.prems" unat_addr_less [of "a - d"]
    by (simp add: diff_diff_eq [symmetric] unat_sub word_le_nat_alt)
  then have far: "rem - chunk \<le> unat (a - (d + of_nat chunk))"
    using "1.prems"(1) by linarith
  have out: "mem_copy mem d s chunk a = mem a" "mem_torn w mem d s chunk a = mem a" for w
    using le "1.prems"(1) by (auto simp: mem_copy_def mem_torn_def)
  show ?case
    using "1.IH" [OF _ chunk_def] far "1.prems"(2) out
    by (simp add: safe_memcpy_loop.simps [of ps torn mem d s rem] chunk_def [symmetric] Let_def)
qed



text \<open>Installing the fault catcher is all or nothing. On success both signals have the
  catcher, the replaced handlers are saved, and a fault outside an armed copy puts the
  saved handler of its signal back; on failure no handler has changed. A fault inside an
  armed copy always jumps.\<close>

theorem init_segv_catcher_atomic:
  "(case init_segv_catcher os ok a cur s of (rc, a', cur', s') \<Rightarrow>
     (rc = 0 \<longrightarrow> as_ready a' \<and> handlers s' = (\<lambda>_. SegvHandler)
        \<and> handlers (snd (segv_handler False signum s')) signum = handlers s signum
        \<and> segv_handler True signum s' = (Long_jump, s'))
     \<and> (rc \<noteq> 0 \<longrightarrow> handlers s' = handlers s))"
proof -
  have "(\<lambda>_. SegvHandler) = (h(SIGSEGV := SegvHandler))(SIGBUS := SegvHandler)" for h
    by (auto simp: fun_eq_iff) (metis signo.exhaust)
  then show ?thesis
    using ensure_installed_ready [of os a cur]
    by (cases signum) (auto simp: init_segv_catcher_def segv_handler_def Let_def split: prod.split)
qed

theorem init_segv_catcher_atomic_witness:
  "handlers (snd (snd (snd (init_segv_catcher
      \<lparr>sigaltstack_get = True, mmap_anon = None, sigaltstack_set = False\<rparr>
      (\<lambda>signum. signum = SIGSEGV) new_alt_stack (Some (65536, 8192))
      \<lparr>handlers = (\<lambda>_. OtherHandler 1), g_old_segv = OtherHandler 0, g_old_bus = OtherHandler 0\<rparr>))))
   = (\<lambda>_. OtherHandler 1)"
  using init_segv_catcher_atomic [where signum = SIGSEGV and os = "\<lparr>sigaltstack_get = True, mmap_anon = None, sigaltstack_set = False\<rparr>"
      and ok = "\<lambda>signum. signum = SIGSEGV" and a = new_alt_stack and cur = "Some (65536, 8192)"
      and s = "\<lparr>handlers = (\<lambda>_. OtherHandler 1), g_old_segv = OtherHandler 0, g_old_bus = OtherHandler 0\<rparr>"]
  by (simp add: init_segv_catcher_def ensure_installed_def new_alt_stack_def Let_def)

text \<open>An alternate stack that was there before is kept when it is found, but not when the
  thread ends: the destructor disables it and unmaps a null range, although
  \<open>ensure_installed\<close> had left it to its owner.\<close>

theorem foreign_alt_stack_disabled:
  "alt_stack_destroy
     (fst (snd (ensure_installed \<lparr>sigaltstack_get = True, mmap_anon = m, sigaltstack_set = b\<rparr>
        new_alt_stack (Some own))))
     (snd (snd (ensure_installed \<lparr>sigaltstack_get = True, mmap_anon = m, sigaltstack_set = b\<rparr>
        new_alt_stack (Some own))))
   = (Some (NULL, 0), None)"
  by (simp add: ensure_installed_def new_alt_stack_def alt_stack_destroy_def)

end
