(* ===== verification/Cpython.thy ===== *)
theory Cpython
  imports Vm
begin

text \<open>
  CPython's objects, as far as the sources read them. Their layout belongs to CPython's
  headers, which are not part of the repository: each structure is a record of the fields
  the sources use, and what a read at an address yields is an argument, the record
  \<open>remote\<close> (\<open>typed_read\<close> of theory \<open>Vm\<close> says how such a view comes from bytes). Sizes and
  offsets the sources take from the headers are fields of it too. One \<open>remote\<close> is the
  memory during one operation of the sampler.
\<close>

datatype frame_owner =
  FRAME_OWNED_BY_THREAD | FRAME_OWNED_BY_GENERATOR | FRAME_OWNED_BY_FRAME_OBJECT | FRAME_OWNED_BY_CSTACK

datatype frame_state =
  FRAME_CREATED | FRAME_SUSPENDED | FRAME_SUSPENDED_YIELD_FROM | FRAME_EXECUTING
  | FRAME_COMPLETED | FRAME_CLEARED

datatype gen_type = AsyncGenASend_Type | Coro_Type | AsyncGen_Type | Other_Type

record py_code =
  co_filename :: addr
  co_name :: addr
  co_qualname :: addr
  co_linetable :: addr
  co_lnotab :: addr
  co_firstlineno :: i32
  co_code :: addr

text \<open>\<open>_PyInterpreterFrame\<close>: \<open>if_code\<close> is \<open>f_executable\<close> from 3.13 and \<open>f_code\<close> before,
  \<open>if_instr\<close> is \<open>instr_ptr\<close> or \<open>prev_instr\<close>.\<close>

record py_iframe =
  if_owner :: frame_owner
  if_previous :: addr
  if_code :: addr
  if_instr :: addr
  if_is_entry :: bool
  if_stacktop :: int

record py_frame =
  f_code :: addr
  f_lasti :: i32
  f_back :: addr
  f_executing :: bool
  f_stackdepth :: int
  f_valuestack :: addr
  f_stacktop :: addr

record py_unicode =
  u_kind :: nat
  u_compact :: bool
  u_length :: int
  u_utf8 :: addr
  u_utf8_length :: int

text \<open>The helpers of \<open>pycore_long.h\<close> applied to a copied \<open>PyLongObject\<close>.\<close>

record py_long =
  l_exact :: bool
  l_is_compact :: bool
  l_compact_value :: i64
  l_sign :: int
  l_digit_count :: int
  l_ob_digit :: i32

record py_dict =
  ma_keys :: addr
  ma_values :: addr

record py_dictkeys =
  dk_unicode :: bool
  dk_log2_index_bytes :: nat
  dk_size :: i64
  dk_nentries :: i64

record py_set =
  set_mask :: i64
  set_table :: addr

record py_gen =
  gi_type :: gen_type
  ags_gen :: addr
  gi_frame_state :: frame_state
  gi_frame :: addr
  gi_running :: bool

record py_weakref =
  wr_object :: addr

record py_tstate =
  ts_next :: addr
  ts_prev :: addr
  ts_thread_id :: addr
  ts_native_thread_id :: i64
  ts_datastack_chunk :: addr
  ts_current_frame :: addr
  ts_cframe :: addr
  ts_frame :: addr
  ts_interp_id :: i64

text \<open>
  \<open>_PyStackChunk\<close>: \<open>chunk_size\<close> is a \<open>size_t\<close>. The sources keep copies of whole chunks
  and read frames out of them, so the decoding of a frame and of a chunk's size from bytes
  (\<open>dec_iframe\<close>, \<open>dec_chunk_size\<close>) is part of \<open>remote\<close> as well.
\<close>

record py_chunk =
  chunk_previous :: addr
  chunk_size :: nat

text \<open>\<open>TaskObj\<close> is declared by \<open>echion/cpython/tasks.h\<close> itself; these are the members
  the sampler reads.\<close>

record TaskObj =
  task_loop :: addr
  task_coro :: addr
  task_name :: addr
  task_fut_waiter :: addr

record remote =
  rd_code :: "addr \<Rightarrow> py_code option"
  rd_iframe :: "addr \<Rightarrow> py_iframe option"
  rd_frame :: "addr \<Rightarrow> py_frame option"
  rd_unicode :: "addr \<Rightarrow> py_unicode option"
  rd_bytes_size :: "addr \<Rightarrow> int option"
  rd_long :: "addr \<Rightarrow> py_long option"
  rd_dict :: "addr \<Rightarrow> py_dict option"
  rd_dictkeys :: "addr \<Rightarrow> py_dictkeys option"
  rd_set :: "addr \<Rightarrow> py_set option"
  rd_gen :: "addr \<Rightarrow> py_gen option"
  rd_task :: "addr \<Rightarrow> TaskObj option"
  rd_weakref :: "addr \<Rightarrow> py_weakref option"
  rd_tstate :: "addr \<Rightarrow> py_tstate option"
  rd_cframe :: "addr \<Rightarrow> addr option"
  rd_chunk :: "addr \<Rightarrow> py_chunk option"
  rd_codeunit :: "addr \<Rightarrow> (nat \<times> nat) option"
  rd_f_frame :: "addr \<Rightarrow> addr option"
  rd_interp_id :: "addr \<Rightarrow> i64 option"
  rd_interp_threads :: "addr \<Rightarrow> addr option"
  rd_interp_next :: "addr \<Rightarrow> addr option"
  rd_raw :: "addr \<Rightarrow> nat \<Rightarrow> byte list option"
  rd_ptrs :: "addr \<Rightarrow> nat \<Rightarrow> addr list option"
  dec_iframe :: "byte list \<Rightarrow> py_iframe"
  dec_chunk_size :: "byte list \<Rightarrow> nat"
  sizeof_iframe :: nat
  off_ob_sval :: addr
  off_ascii :: addr
  off_gi_iframe :: addr
  off_localsplus :: addr
  off_co_code :: addr
  sizeof_chunk :: nat
  sizeof_dictkeys :: i64
  sizeof_keyentry :: i64
  sizeof_unicodeentry :: i64
  sizeof_setentry :: i64
  op_RESUME :: nat
  op_RESUME_QUICK :: nat
  op_YIELD_FROM :: byte
  off_interp_id :: addr
  off_interp_threads :: addr
  off_interp_next :: addr
  addr_Py_None :: addr
  addr_Py_False :: addr

definition no_iframe :: py_iframe where
  "no_iframe = \<lparr>if_owner = FRAME_OWNED_BY_THREAD, if_previous = 0, if_code = 0, if_instr = 0,
     if_is_entry = False, if_stacktop = 0\<rparr>"

text \<open>Memory in which nothing can be read: witnesses start from it.\<close>

definition no_memory :: remote where
  "no_memory =
     \<lparr>rd_code = (\<lambda>_. None), rd_iframe = (\<lambda>_. None), rd_frame = (\<lambda>_. None),
      rd_unicode = (\<lambda>_. None), rd_bytes_size = (\<lambda>_. None), rd_long = (\<lambda>_. None),
      rd_dict = (\<lambda>_. None), rd_dictkeys = (\<lambda>_. None), rd_set = (\<lambda>_. None),
      rd_gen = (\<lambda>_. None), rd_task = (\<lambda>_. None), rd_weakref = (\<lambda>_. None),
      rd_tstate = (\<lambda>_. None), rd_cframe = (\<lambda>_. None), rd_chunk = (\<lambda>_. None),
      rd_codeunit = (\<lambda>_. None), rd_f_frame = (\<lambda>_. None),
      rd_interp_id = (\<lambda>_. None), rd_interp_threads = (\<lambda>_. None), rd_interp_next = (\<lambda>_. None),
      rd_raw = (\<lambda>_ _. None), rd_ptrs = (\<lambda>_ _. None),
      dec_iframe = (\<lambda>_. no_iframe), dec_chunk_size = (\<lambda>_. 0), sizeof_iframe = 80,
      off_ob_sval = 32, off_ascii = 40, off_gi_iframe = 72, off_localsplus = 80,
      off_co_code = 192, sizeof_chunk = 24, sizeof_dictkeys = 32, sizeof_keyentry = 24,
      sizeof_unicodeentry = 16, sizeof_setentry = 16,
      op_RESUME = 149, op_RESUME_QUICK = 166, op_YIELD_FROM = 72,
      off_interp_id = 16, off_interp_threads = 24, off_interp_next = 0, addr_Py_None = 256, addr_Py_False = 512\<rparr>"

end
