(* ===== verification/Mojo.thy ===== *)
theory Mojo
  imports Errors
begin

text \<open>
  \<open>echion/mojo.h\<close> and the class \<open>MojoRenderer\<close> of \<open>echion/render.h\<close>: the binary stream.
  The calls of \<open>RendererInterface\<close> are a datatype, so that a run of the sampler is the
  list of the calls it makes; a renderer is a function of a call and its own state. The
  reference parser at the end reads the stream back.
\<close>

section \<open>Frames as the renderer sees them\<close>

text \<open>
  \<open>class Frame\<close> of \<open>echion/frame.h\<close>. The location's members are \<open>int\<close>s.
\<close>

record frame =
  cache_key :: addr
  fr_filename :: addr
  fr_name :: addr
  fr_line :: i32
  fr_line_end :: i32
  fr_column :: i32
  fr_column_end :: i32
  is_entry :: bool

definition new_frame :: "addr \<Rightarrow> addr \<Rightarrow> frame" where
  "new_frame filename_key name_key =
     \<lparr>cache_key = 0, fr_filename = filename_key, fr_name = name_key, fr_line = 0, fr_line_end = 0,
      fr_column = 0, fr_column_end = 0, is_entry = False\<rparr>"

section \<open>The interface\<close>

datatype metric_type = Time | Memory

datatype rcall =
    R_open
  | R_close
  | R_header
  | R_metadata string string
  | R_frame addr addr addr i64 i64 i64 i64
  | R_frame_ref addr
  | R_frame_kernel string
  | R_string addr string
  | R_string_ref addr
  | R_render_message string
  | R_render_thread_begin string i64 addr i64
  | R_render_task_begin string bool
  | R_render_stack_begin i64 i64 string
  | R_render_frame frame
  | R_render_cpu_time i64
  | R_render_stack_end metric_type i64

text \<open>
  What a sampler sends between the opening and the close of the stream, and the text a call
  puts into it.
\<close>

fun sampling_call :: "rcall \<Rightarrow> bool" where
  "sampling_call R_open = False"
| "sampling_call R_close = False"
| "sampling_call R_header = False"
| "sampling_call _ = True"

fun call_text :: "rcall \<Rightarrow> string list" where
  "call_text (R_metadata label value) = [label, value]"
| "call_text (R_frame_kernel scope) = [scope]"
| "call_text (R_string key str) = [str]"
| "call_text (R_render_stack_begin pid iid name) = [name]"
| "call_text _ = []"

section \<open>MojoRenderer\<close>

datatype MojoEvent =
    MOJO_RESERVED | MOJO_METADATA | MOJO_STACK | MOJO_FRAME | MOJO_FRAME_INVALID
  | MOJO_FRAME_REF | MOJO_FRAME_KERNEL | MOJO_GC | MOJO_IDLE | MOJO_METRIC_TIME
  | MOJO_METRIC_MEMORY | MOJO_STRING | MOJO_STRING_REF | MOJO_MAX

fun mojo_code :: "MojoEvent \<Rightarrow> byte" where
  "mojo_code MOJO_RESERVED = 0"
| "mojo_code MOJO_METADATA = 1"
| "mojo_code MOJO_STACK = 2"
| "mojo_code MOJO_FRAME = 3"
| "mojo_code MOJO_FRAME_INVALID = 4"
| "mojo_code MOJO_FRAME_REF = 5"
| "mojo_code MOJO_FRAME_KERNEL = 6"
| "mojo_code MOJO_GC = 7"
| "mojo_code MOJO_IDLE = 8"
| "mojo_code MOJO_METRIC_TIME = 9"
| "mojo_code MOJO_METRIC_MEMORY = 10"
| "mojo_code MOJO_STRING = 11"
| "mojo_code MOJO_STRING_REF = 12"
| "mojo_code MOJO_MAX = 13"

definition MOJO_VERSION :: i64 where
  "MOJO_VERSION = 3"

subsection \<open>Primitives\<close>

definition m_event :: "MojoEvent \<Rightarrow> byte list" where
  "m_event e = [mojo_code e]"

definition byte_of_char :: "char \<Rightarrow> byte" where
  "byte_of_char c = of_nat (of_char c)"

definition m_string :: "string \<Rightarrow> byte list" where
  "m_string s = map byte_of_char s @ [0]"

text \<open>
  \<open>integer\<close>: the sign and six bits, then seven bits a byte, low bits first. The negation
  is that of two's complement, also for the least value, where C++ leaves it undefined.
\<close>

function integer_loop :: "i64 \<Rightarrow> byte list" where
  "integer_loop integer =
     (if integer = 0 then []
      else
        (let byte = ucast (integer AND 0x7f);
             integer = drop_bit 7 integer;
             byte = (if integer \<noteq> 0 then byte OR 0x80 else byte)
         in byte # integer_loop integer))"
  by pat_completeness auto

lemma unat_drop_bit_less:
  assumes "(w :: i64) \<noteq> 0" "0 < n"
  shows "unat (drop_bit n w) < unat w"
proof -
  have "0 < unat w"
    using assms(1) by (simp add: unat_gt_0)
  moreover have "(1::nat) < 2 ^ n"
    using assms(2) one_less_power [of "2::nat" n] by simp
  moreover have "unat (drop_bit n w) = drop_bit n (unat w)"
    by (rule unat_drop_bit_eq)
  ultimately show ?thesis
    by (simp only: drop_bit_eq_div div_less_dividend)
qed

termination integer_loop
  by (relation "measure unat") (auto simp: unat_drop_bit_less)

declare integer_loop.simps [simp del]

definition m_integer :: "i64 \<Rightarrow> byte list" where
  "m_integer n =
     (let sign = n <s 0;
          integer = (if sign then - n else n);
          byte = ucast (integer AND 0x3f);
          byte = (if sign then byte OR 0x40 else byte);
          integer = drop_bit 6 integer;
          byte = (if integer \<noteq> 0 then byte OR 0x80 else byte)
      in byte # integer_loop integer)"

definition m_ref :: "addr \<Rightarrow> byte list" where
  "m_ref value = m_integer value"

subsection \<open>Events\<close>

definition m_header :: "byte list" where
  "m_header = map byte_of_char ''MOJ'' @ m_integer MOJO_VERSION"

definition m_metadata :: "string \<Rightarrow> string \<Rightarrow> byte list" where
  "m_metadata label value = m_event MOJO_METADATA @ m_string label @ m_string value"

definition m_stack :: "i64 \<Rightarrow> i64 \<Rightarrow> string \<Rightarrow> byte list" where
  "m_stack pid iid thread_name =
     m_event MOJO_STACK @ m_integer pid @ m_integer iid @ m_string thread_name"

definition m_frame :: "addr \<Rightarrow> addr \<Rightarrow> addr \<Rightarrow> i64 \<Rightarrow> i64 \<Rightarrow> i64 \<Rightarrow> i64 \<Rightarrow> byte list" where
  "m_frame key filename name line line_end column column_end =
     m_event MOJO_FRAME @ m_ref key @ m_ref filename @ m_ref name
       @ m_integer line @ m_integer line_end @ m_integer column @ m_integer column_end"

definition m_frame_ref :: "addr \<Rightarrow> byte list" where
  "m_frame_ref key =
     (if key = 0 then m_event MOJO_FRAME_INVALID else m_event MOJO_FRAME_REF @ m_ref key)"

definition m_frame_kernel :: "string \<Rightarrow> byte list" where
  "m_frame_kernel scope = m_event MOJO_FRAME_KERNEL @ m_string scope"

definition m_metric_time :: "i64 \<Rightarrow> byte list" where
  "m_metric_time value = m_event MOJO_METRIC_TIME @ m_integer value"

definition m_metric_memory :: "i64 \<Rightarrow> byte list" where
  "m_metric_memory value = m_event MOJO_METRIC_MEMORY @ m_integer value"

definition m_string_event :: "addr \<Rightarrow> string \<Rightarrow> byte list" where
  "m_string_event key value = m_event MOJO_STRING @ m_ref key @ m_string value"

definition m_string_ref :: "addr \<Rightarrow> byte list" where
  "m_string_ref key = m_event MOJO_STRING_REF @ m_ref key"

subsection \<open>The renderer's state and operations\<close>

text \<open>
  The output file, whether it is open (a write to a closed \<open>ofstream\<close> is lost), and the
  CPU time to report at the end of the stack.
\<close>

record mojo_renderer =
  mj_output :: "byte list"
  mj_open :: bool
  mj_metric :: i64

definition new_mojo_renderer :: mojo_renderer where
  "new_mojo_renderer = \<lparr>mj_output = [], mj_open = False, mj_metric = 0\<rparr>"

definition mj_put :: "byte list \<Rightarrow> mojo_renderer \<Rightarrow> mojo_renderer" where
  "mj_put bs r = (if mj_open r then r\<lparr>mj_output := mj_output r @ bs\<rparr> else r)"

text \<open>\<open>open\<close> truncates the file; \<open>ok\<close> is whether it could be opened.\<close>

definition mojo_open :: "bool \<Rightarrow> mojo_renderer \<Rightarrow> unit result \<times> mojo_renderer" where
  "mojo_open ok r =
     (if \<not> ok then (Inl RendererError, r)
      else (Inr (), r\<lparr>mj_output := [], mj_open := True\<rparr>))"

fun mojo_call :: "bool \<Rightarrow> rcall \<Rightarrow> mojo_renderer \<Rightarrow> mojo_renderer" where
  "mojo_call cpu R_open r = snd (mojo_open True r)"
| "mojo_call cpu R_close r = r\<lparr>mj_open := False\<rparr>"
| "mojo_call cpu R_header r = mj_put m_header r"
| "mojo_call cpu (R_metadata label v) r = mj_put (m_metadata label v) r"
| "mojo_call cpu (R_frame k f n l le c ce) r = mj_put (m_frame k f n l le c ce) r"
| "mojo_call cpu (R_frame_ref k) r = mj_put (m_frame_ref k) r"
| "mojo_call cpu (R_frame_kernel s) r = mj_put (m_frame_kernel s) r"
| "mojo_call cpu (R_string k s) r = mj_put (m_string_event k s) r"
| "mojo_call cpu (R_string_ref k) r = mj_put (m_string_ref k) r"
| "mojo_call cpu (R_render_message s) r = r"
| "mojo_call cpu (R_render_thread_begin n t i ni) r = r"
| "mojo_call cpu (R_render_task_begin n b) r = r"
| "mojo_call cpu (R_render_stack_begin pid iid n) r = mj_put (m_stack pid iid n) r"
| "mojo_call cpu (R_render_frame f) r = mj_put (m_frame_ref (cache_key f)) r"
| "mojo_call cpu (R_render_cpu_time t) r = r\<lparr>mj_metric := t\<rparr>"
| "mojo_call cpu (R_render_stack_end Time delta) r =
     mj_put (m_metric_time (if cpu then mj_metric r else delta)) r"
| "mojo_call cpu (R_render_stack_end Memory delta) r = mj_put (m_metric_memory delta) r"

definition mojo_run :: "bool \<Rightarrow> rcall list \<Rightarrow> mojo_renderer \<Rightarrow> mojo_renderer" where
  "mojo_run cpu cs r = fold (mojo_call cpu) cs r"

section \<open>Reading the stream back\<close>

text \<open>The reference reader of an integer: the magnitude is put together from its pieces.\<close>

fun read_tail :: "byte list \<Rightarrow> (i64 \<times> byte list) option" where
  "read_tail [] = None"
| "read_tail (b # bs) =
     (if bit b 7
      then (case read_tail bs of
              None \<Rightarrow> None
            | Some (w, rest) \<Rightarrow> Some (ucast (b AND 0x7f) OR push_bit 7 w, rest))
      else Some (ucast (b AND 0x7f), bs))"

fun read_integer :: "byte list \<Rightarrow> (i64 \<times> byte list) option" where
  "read_integer [] = None"
| "read_integer (b # bs) =
     (case (if bit b 7 then read_tail bs else Some (0, bs)) of
        None \<Rightarrow> None
      | Some (w, rest) \<Rightarrow>
          (let m = ucast (b AND 0x3f) OR push_bit 6 w
           in Some (if bit b 6 then - m else m, rest)))"

lemmas mojo_bits = word_mask_lits word_or_lits bit_simps

lemma low7_ucast: "ucast (take_bit 7 (ucast (take_bit 7 w :: i64) :: byte)) = (take_bit 7 w :: i64)"
  by (rule bit_word_eqI) (auto simp: mojo_bits)

lemma low7_high: "ucast (take_bit 7 (set_bit 7 (ucast (take_bit 7 w :: i64) :: byte))) = (take_bit 7 w :: i64)"
  by (rule bit_word_eqI) (auto simp: mojo_bits)

lemma take_push_split: "take_bit n w OR push_bit n (drop_bit n w) = (w :: i64)"
proof (rule bit_word_eqI)
  fix k assume "k < LENGTH(64)"
  then show "bit (take_bit n w OR push_bit n (drop_bit n w)) k = bit w k"
    by (cases "k < n") (simp_all add: bit_simps)
qed

lemma integer_loop_0 [simp]: "integer_loop 0 = []"
  by (simp add: integer_loop.simps)

lemma integer_loop_eq_Nil [simp]: "integer_loop w = [] \<longleftrightarrow> w = 0"
  by (subst integer_loop.simps) (simp add: Let_def)

lemma read_tail_integer_loop:
  "w \<noteq> 0 \<Longrightarrow> read_tail (integer_loop w @ rest) = Some (w, rest)"
proof (induction w rule: integer_loop.induct)
  case (1 w)
  note step = integer_loop.simps [of w]
  show ?case
  proof (cases "drop_bit 7 w = 0")
    case True
    then have "take_bit 7 w = w"
      using take_push_split [of 7 w] by simp
    with True show ?thesis
      using "1.prems" low7_ucast [of w] bit_take_bit_iff [of 7 w 7]
      by (simp add: step Let_def word_mask_lits bit_simps)
  next
    case False
    then have "read_tail (integer_loop (drop_bit 7 w) @ rest) = Some (drop_bit 7 w, rest)"
      using "1.IH" [OF "1.prems" refl refl refl] by simp
    with False show ?thesis
      using "1.prems" take_push_split [of 7 w] low7_high [of w]
      by (simp add: step Let_def mojo_bits)
  qed
qed

lemma head_byte:
  fixes w :: i64
  defines "b \<equiv> (ucast (take_bit 6 w) :: byte)"
  shows "ucast (take_bit 6 (if s then set_bit 6 b else b)) = take_bit 6 w"
    "bit (if s then set_bit 6 b else b) 6 = s"
    "\<not> bit (if s then set_bit 6 b else b) 7"
    "ucast (take_bit 6 (set_bit 7 (if s then set_bit 6 b else b))) = take_bit 6 w"
    "bit (set_bit 7 (if s then set_bit 6 b else b)) 6 = s"
    "bit (set_bit 7 (if s then set_bit 6 b else b)) 7"
  unfolding b_def by (auto simp: bit_simps intro!: bit_word_eqI)

lemma read_m_integer: "read_integer (m_integer n @ rest) = Some (n, rest)"
proof -
  define s where "s = (n <s 0)"
  define w where "w = (if s then - n else n)"
  define b where "b = (if s then set_bit 6 (ucast (take_bit 6 w)) else (ucast (take_bit 6 w) :: byte))"
  have n: "(if s then - w else w) = n"
    by (simp add: w_def)
  have m: "m_integer n = (if drop_bit 6 w \<noteq> 0 then set_bit 7 b else b) # integer_loop (drop_bit 6 w)"
    by (simp add: m_integer_def Let_def s_def w_def b_def word_mask_lits word_or_lits)
  show ?thesis
  proof (cases "drop_bit 6 w = 0")
    case True
    then have "take_bit 6 w = w"
      using take_push_split [of 6 w] by simp
    with True n show ?thesis
      using head_byte(1-3) [of s w] unfolding m b_def [symmetric]
      by (auto simp: Let_def word_mask_lits split: if_splits)
  next
    case False
    with n show ?thesis
      using head_byte(4-6) [of s w] take_push_split [of 6 w] read_tail_integer_loop [OF False, of rest]
      unfolding m b_def [symmetric] by (auto simp: Let_def word_mask_lits split: if_splits)
  qed
qed

subsection \<open>Strings\<close>

definition char_of_byte :: "byte \<Rightarrow> char" where
  "char_of_byte b = char_of (unat b)"

fun read_string :: "byte list \<Rightarrow> (string \<times> byte list) option" where
  "read_string [] = None"
| "read_string (b # bs) =
     (if b = 0 then Some ([], bs)
      else map_option (\<lambda>(s, rest). (char_of_byte b # s, rest)) (read_string bs))"

definition c_string :: "string \<Rightarrow> bool" where
  "c_string s = (CHR 0x00 \<notin> set s)"

lemma char_of_byte_of_char [simp]: "char_of_byte (byte_of_char c) = c"
proof -
  have "of_char c < (256 :: nat)"
    by (rule nat_of_char_less_256)
  then show ?thesis
    by (simp add: char_of_byte_def byte_of_char_def unsigned_of_nat take_bit_nat_eq_self)
qed

lemma byte_of_char_eq_0: "byte_of_char c = 0 \<longleftrightarrow> c = CHR 0x00"
proof
  assume "byte_of_char c = 0"
  then have "c = char_of_byte 0"
    by (metis char_of_byte_of_char)
  then show "c = CHR 0x00"
    by (simp add: char_of_byte_def char_of_def)
qed (simp add: byte_of_char_def)

lemma read_m_string:
  "c_string s \<Longrightarrow> read_string (m_string s @ rest) = Some (s, rest)"
  by (induction s) (auto simp: m_string_def c_string_def byte_of_char_eq_0)

subsection \<open>Items\<close>

text \<open>What one call puts into the stream, before it is encoded.\<close>

datatype mojo_item =
    I_metadata string string
  | I_stack i64 i64 string
  | I_frame addr addr addr i64 i64 i64 i64
  | I_frame_invalid
  | I_frame_ref addr
  | I_frame_kernel string
  | I_metric_time i64
  | I_metric_memory i64
  | I_string addr string
  | I_string_ref addr

definition ref_item :: "addr \<Rightarrow> mojo_item" where
  "ref_item k = (if k = 0 then I_frame_invalid else I_frame_ref k)"

text \<open>The reference writer: tag, then fields.\<close>

fun item_bytes :: "mojo_item \<Rightarrow> byte list" where
  "item_bytes (I_metadata l v) = 1 # m_string l @ m_string v"
| "item_bytes (I_stack p i n) = 2 # m_integer p @ m_integer i @ m_string n"
| "item_bytes (I_frame k f n l le c ce) = 3 # m_integer k @ m_integer f @ m_integer n
     @ m_integer l @ m_integer le @ m_integer c @ m_integer ce"
| "item_bytes I_frame_invalid = [4]"
| "item_bytes (I_frame_ref k) = 5 # m_integer k"
| "item_bytes (I_frame_kernel s) = 6 # m_string s"
| "item_bytes (I_metric_time v) = 9 # m_integer v"
| "item_bytes (I_metric_memory v) = 10 # m_integer v"
| "item_bytes (I_string k s) = 11 # m_integer k @ m_string s"
| "item_bytes (I_string_ref k) = 12 # m_integer k"

text \<open>Strings must not hold the terminator; a frame reference is not the invalid key.\<close>

fun item_ok :: "mojo_item \<Rightarrow> bool" where
  "item_ok (I_metadata l v) = (c_string l \<and> c_string v)"
| "item_ok (I_stack p i n) = c_string n"
| "item_ok (I_frame_kernel s) = c_string s"
| "item_ok (I_string k s) = c_string s"
| "item_ok _ = True"

fun read_item :: "byte list \<Rightarrow> (mojo_item \<times> byte list) option" where
  "read_item [] = None"
| "read_item (t # bs) =
     (if t = 1 then
        do { (l, bs) \<leftarrow> read_string bs; (v, bs) \<leftarrow> read_string bs; Some (I_metadata l v, bs) }
      else if t = 2 then
        do { (p, bs) \<leftarrow> read_integer bs; (i, bs) \<leftarrow> read_integer bs; (n, bs) \<leftarrow> read_string bs;
             Some (I_stack p i n, bs) }
      else if t = 3 then
        do { (k, bs) \<leftarrow> read_integer bs; (f, bs) \<leftarrow> read_integer bs; (n, bs) \<leftarrow> read_integer bs;
             (l, bs) \<leftarrow> read_integer bs; (le, bs) \<leftarrow> read_integer bs; (c, bs) \<leftarrow> read_integer bs;
             (ce, bs) \<leftarrow> read_integer bs; Some (I_frame k f n l le c ce, bs) }
      else if t = 4 then Some (I_frame_invalid, bs)
      else if t = 5 then do { (k, bs) \<leftarrow> read_integer bs; Some (I_frame_ref k, bs) }
      else if t = 6 then do { (s, bs) \<leftarrow> read_string bs; Some (I_frame_kernel s, bs) }
      else if t = 9 then do { (v, bs) \<leftarrow> read_integer bs; Some (I_metric_time v, bs) }
      else if t = 10 then do { (v, bs) \<leftarrow> read_integer bs; Some (I_metric_memory v, bs) }
      else if t = 11 then
        do { (k, bs) \<leftarrow> read_integer bs; (s, bs) \<leftarrow> read_string bs; Some (I_string k s, bs) }
      else if t = 12 then do { (k, bs) \<leftarrow> read_integer bs; Some (I_string_ref k, bs) }
      else None)"

text \<open>The reader of a whole stream, one unit of fuel per item.\<close>

fun read_items :: "nat \<Rightarrow> byte list \<Rightarrow> mojo_item list option" where
  "read_items fuel [] = Some []"
| "read_items 0 (b # bs) = None"
| "read_items (Suc fuel) (b # bs) =
     do { (i, rest) \<leftarrow> read_item (b # bs); is \<leftarrow> read_items fuel rest; Some (i # is) }"

definition read_stream :: "byte list \<Rightarrow> mojo_item list option" where
  "read_stream bs =
     (if take 3 bs = map byte_of_char ''MOJ''
      then do { (v, bs) \<leftarrow> read_integer (drop 3 bs);
                if v = MOJO_VERSION then read_items (length bs) bs else None }
      else None)"

lemma read_item_bytes:
  "item_ok i \<Longrightarrow> read_item (item_bytes i @ rest) = Some (i, rest)"
  by (cases i) (simp_all add: read_m_integer read_m_string)

lemma item_bytes_Cons: "\<exists>b bs. item_bytes i = b # bs"
  by (cases i) auto

lemma read_items_bytes:
  assumes "list_all item_ok its" "length its \<le> fuel"
  shows "read_items fuel (concat (map item_bytes its)) = Some its"
  using assms
proof (induction its arbitrary: fuel)
  case (Cons i its)
  obtain b bs where b: "item_bytes i = b # bs"
    using item_bytes_Cons by blast
  obtain f where f: "fuel = Suc f"
    using Cons.prems(2) by (cases fuel) auto
  have "read_item (b # bs @ concat (map item_bytes its)) = Some (i, concat (map item_bytes its))"
    using read_item_bytes [of i "concat (map item_bytes its)"] Cons.prems(1) b by simp
  with Cons f b show ?case
    by simp
qed simp

lemma length_items_le: "length its \<le> length (concat (map item_bytes its))"
proof (induction its)
  case (Cons i its)
  obtain b bs where "item_bytes i = b # bs"
    using item_bytes_Cons by blast
  with Cons show ?case
    by simp
qed simp

lemma read_stream_items:
  assumes "list_all item_ok its"
  shows "read_stream (m_header @ concat (map item_bytes its)) = Some its"
proof -
  have "take 3 (m_header @ bs) = map byte_of_char ''MOJ''"
    and d: "drop 3 (m_header @ bs) = m_integer MOJO_VERSION @ bs" for bs
    by (simp_all add: m_header_def)
  then show ?thesis
    using read_items_bytes [OF assms length_items_le]
    by (simp add: read_stream_def read_m_integer)
qed

section \<open>What a run of calls writes\<close>

text \<open>The items of a call list, given the CPU mode and the pending metric.\<close>

fun call_items :: "bool \<Rightarrow> i64 \<Rightarrow> rcall list \<Rightarrow> mojo_item list" where
  "call_items cpu metric [] = []"
| "call_items cpu metric (R_metadata l v # cs) = I_metadata l v # call_items cpu metric cs"
| "call_items cpu metric (R_frame k f n l le c ce # cs) =
     I_frame k f n l le c ce # call_items cpu metric cs"
| "call_items cpu metric (R_frame_ref k # cs) = ref_item k # call_items cpu metric cs"
| "call_items cpu metric (R_frame_kernel s # cs) = I_frame_kernel s # call_items cpu metric cs"
| "call_items cpu metric (R_string k s # cs) = I_string k s # call_items cpu metric cs"
| "call_items cpu metric (R_string_ref k # cs) = I_string_ref k # call_items cpu metric cs"
| "call_items cpu metric (R_render_stack_begin p i n # cs) = I_stack p i n # call_items cpu metric cs"
| "call_items cpu metric (R_render_frame f # cs) = ref_item (cache_key f) # call_items cpu metric cs"
| "call_items cpu metric (R_render_cpu_time t # cs) = call_items cpu t cs"
| "call_items cpu metric (R_render_stack_end Time delta # cs) =
     I_metric_time (if cpu then metric else delta) # call_items cpu metric cs"
| "call_items cpu metric (R_render_stack_end Memory delta # cs) =
     I_metric_memory delta # call_items cpu metric cs"
| "call_items cpu metric (c # cs) = call_items cpu metric cs"

text \<open>A call list without \<open>open\<close>, \<open>close\<close> and \<open>header\<close>, whose strings are C strings.\<close>

fun body_call :: "rcall \<Rightarrow> bool" where
  "body_call R_open = False"
| "body_call R_close = False"
| "body_call R_header = False"
| "body_call (R_metadata l v) = (c_string l \<and> c_string v)"
| "body_call (R_frame_kernel s) = c_string s"
| "body_call (R_string k s) = c_string s"
| "body_call (R_render_stack_begin p i n) = c_string n"
| "body_call _ = True"

lemmas m_event_defs =
  m_event_def m_ref_def m_metadata_def m_stack_def m_frame_def m_frame_ref_def m_frame_kernel_def
  m_metric_time_def m_metric_memory_def m_string_event_def m_string_ref_def ref_item_def

lemma mojo_run_simps [simp]:
  "mojo_run cpu [] r = r"
  "mojo_run cpu (c # cs) r = mojo_run cpu cs (mojo_call cpu c r)"
  by (simp_all add: mojo_run_def)

lemma mojo_run_items:
  assumes "list_all body_call cs" "mj_open r"
  shows "mj_output (mojo_run cpu cs r)
      = mj_output r @ concat (map item_bytes (call_items cpu (mj_metric r) cs))
    \<and> mj_open (mojo_run cpu cs r)"
  using assms
proof (induction cs arbitrary: r)
  case (Cons c cs)
  have IH: "mj_output (mojo_run cpu cs r')
      = mj_output r' @ concat (map item_bytes (call_items cpu (mj_metric r') cs))
    \<and> mj_open (mojo_run cpu cs r')" if "mj_open r'" for r'
    using Cons.IH [OF _ that] Cons.prems(1) by simp
  show ?case
  proof (cases c)
    case (R_render_stack_end m d)
    with Cons.prems(2) show ?thesis
      by (cases m) (simp_all add: IH mj_put_def m_event_defs)
  qed (use Cons.prems in \<open>simp_all add: IH mj_put_def m_event_defs\<close>)
qed simp

lemma call_items_ok: "list_all body_call cs \<Longrightarrow> list_all item_ok (call_items cpu m cs)"
  by (induction cpu m cs rule: call_items.induct) (simp_all add: ref_item_def)

section \<open>Properties\<close>

text \<open>C6: the stream can be read back. Opening the renderer, writing the header and making
  any sequence of calls whose strings hold no NUL leaves a file from which the reference
  reader recovers exactly the items of the calls, in order, with every integer (negative
  and extreme ones too), string, reference, the invalid-frame mark and, in CPU mode, the
  metric set last.\<close>

theorem mojo_stream_roundtrip:
  assumes "list_all body_call cs"
  shows "read_stream (mj_output (mojo_run cpu (R_open # R_header # cs) r)) = Some (call_items cpu (mj_metric r) cs)"
proof -
  define r' where "r' = mj_put m_header (snd (mojo_open True r))"
  have r': "mj_output r' = m_header" "mj_open r'" "mj_metric r' = mj_metric r"
    by (simp_all add: r'_def mojo_open_def mj_put_def)
  have "mojo_run cpu (R_open # R_header # cs) r = mojo_run cpu cs r'"
    by (simp add: r'_def)
  moreover have "mj_output (mojo_run cpu cs r')
      = m_header @ concat (map item_bytes (call_items cpu (mj_metric r) cs))"
    using mojo_run_items [OF assms, of r' cpu] r' by simp
  ultimately show ?thesis
    using read_stream_items [OF call_items_ok [OF assms]] by simp
qed

theorem mojo_stream_roundtrip_witness:
  "read_stream (mj_output (mojo_run True
     [R_open, R_header, R_render_stack_begin 77 0 ''MainThread'', R_frame_ref 0,
      R_render_cpu_time (-3), R_render_stack_end Time 9] new_mojo_renderer))
   = Some [I_stack 77 0 ''MainThread'', I_frame_invalid, I_metric_time (-3)]"
  using mojo_stream_roundtrip [of "[R_render_stack_begin 77 0 ''MainThread'', R_frame_ref 0,
      R_render_cpu_time (-3), R_render_stack_end Time 9]" True new_mojo_renderer]
  by (simp add: c_string_def ref_item_def)

end
