(* ===== verification/Strings.thy ===== *)
theory Strings
  imports Cpython Mojo
begin

text \<open>
  \<open>echion/long.h\<close> and \<open>echion/strings.h\<close>: reading Python integers, byte strings and text
  out of memory, and the string table that interns them under their address. A string
  that is new to the table is told to the renderer once.
\<close>

section \<open>Python integers\<close>

definition MAX_DIGITS :: int where
  "MAX_DIGITS = 128"

definition PyLong_SHIFT :: nat where
  "PyLong_SHIFT = 30"

text \<open>
  The digit loop \<open>while (--i >= 0) { ret <<= PyLong_SHIFT; ret |= digits[i]; }\<close>: the
  digits are visited from the last one down.
\<close>

definition digits_to_llong :: "i32 list \<Rightarrow> i64" where
  "digits_to_llong digits = foldr (\<lambda>d ret. push_bit PyLong_SHIFT ret OR ucast d) digits 0"

text \<open>
  \<open>ob_digit\<close> is an array inside \<open>PyLongObject\<close>, so \<open>long_obj.long_value.ob_digit\<close> is an
  address in the local copy: the digits after the first come from whatever follows that
  copy on the stack (\<open>local_stack\<close>), not from the object.
\<close>

definition pylong_to_llong :: "remote \<Rightarrow> i32 list \<Rightarrow> addr \<Rightarrow> i64 result" where
  "pylong_to_llong R local_stack long_addr =
     (case copy_type (rd_long R) long_addr of
        None \<Rightarrow> Inl PyLongError
      | Some long_obj \<Rightarrow>
          if \<not> l_exact long_obj then Inl PyLongError
          else if l_is_compact long_obj then Inr (l_compact_value long_obj)
          else if MAX_DIGITS < l_digit_count long_obj then Inl PyLongError
          else
            (let digits = take (nat (l_digit_count long_obj)) (l_ob_digit long_obj # local_stack)
             in Inr (digits_to_llong digits * word_of_int (l_sign long_obj))))"

text \<open>The integer a digit list denotes in base \<open>2 ^ 30\<close>.\<close>

fun digits_value :: "i32 list \<Rightarrow> int" where
  "digits_value [] = 0"
| "digits_value (d # ds) = uint d + 2 ^ 30 * digits_value ds"

lemma shift_or_digit:
  assumes "uint (d :: i32) < 2 ^ 30"
  shows "push_bit 30 (w :: i64) OR ucast d = 2 ^ 30 * w + ucast d"
proof -
  have "take_bit 30 d = d"
    using assms by (simp add: word_uint_eq_iff unsigned_take_bit_eq take_bit_int_eq_self)
  then have "bit d n \<Longrightarrow> n < 30" for n
    by (metis bit_take_bit_iff)
  then have "push_bit 30 w OR ucast d = push_bit 30 w + ucast d"
    by (intro disjunctive_add_eq_or [symmetric] bit_word_eqI) (auto simp: bit_simps dest: leD)
  then show ?thesis
    by (simp add: push_bit_eq_mult mult.commute)
qed

lemma digits_to_llong_value:
  assumes "\<forall>d \<in> set ds. uint d < 2 ^ 30"
  shows "digits_to_llong ds = word_of_int (digits_value ds)"
  using assms
proof (induction ds)
  case (Cons d ds)
  then have "digits_to_llong (d # ds) = 2 ^ 30 * word_of_int (digits_value ds) + ucast d"
    using shift_or_digit [of d "digits_to_llong ds"]
    by (simp add: digits_to_llong_def PyLong_SHIFT_def)
  then show ?case
    by simp
qed (simp add: digits_to_llong_def)

section \<open>Byte strings and text\<close>

definition MAX_STRING_SIZE :: int where
  "MAX_STRING_SIZE = 1048576"

text \<open>A null result is \<^term>\<open>None\<close>; the size is the length of the bytes.\<close>

definition pybytes_to_bytes_and_size :: "remote \<Rightarrow> addr \<Rightarrow> byte list option" where
  "pybytes_to_bytes_and_size R bytes_addr =
     (case copy_type (rd_bytes_size R) bytes_addr of
        None \<Rightarrow> None
      | Some sz \<Rightarrow>
          if sz < 0 \<or> MAX_STRING_SIZE < sz then None
          else copy_generic (rd_raw R) (bytes_addr + off_ob_sval R) sz)"

text \<open>A string of size 0 has nothing to copy.\<close>

definition pyunicode_to_utf8 :: "remote \<Rightarrow> addr \<Rightarrow> string result" where
  "pyunicode_to_utf8 R str_addr =
     (case copy_type (rd_unicode R) str_addr of
        None \<Rightarrow> Inl PyUnicodeError
      | Some str \<Rightarrow>
          if u_kind str \<noteq> 1 then Inl PyUnicodeError
          else
            (let data = (if u_compact str then str_addr + off_ascii R else u_utf8 str) in
             if data = NULL then Inl PyUnicodeError
             else
               (let sz = (if u_compact str then u_length str else u_utf8_length str) in
                if sz < 0 \<or> 1024 < sz then Inl PyUnicodeError
                else (case copy_generic (rd_raw R) data sz of
                        None \<Rightarrow> Inl PyUnicodeError
                      | Some bytes \<Rightarrow> Inr (map char_of_byte bytes)))))"

section \<open>The string table\<close>

text \<open>
  The state of the table and the calls made to the renderer so far. The components
  above extend this record with their own fields.
\<close>

record strings_state =
  string_table :: "addr \<rightharpoonup> string"
  calls :: "rcall list"

definition INVALID :: addr where "INVALID = 1"
definition UNKNOWN :: addr where "UNKNOWN = 2"
definition C_FRAME :: addr where "C_FRAME = 3"

definition StringTable_new :: "addr \<rightharpoonup> string" where
  "StringTable_new = [0 \<mapsto> [], INVALID \<mapsto> ''<invalid>'', UNKNOWN \<mapsto> ''<unknown>'']"

definition emit :: "rcall \<Rightarrow> 'a strings_state_scheme \<Rightarrow> 'a strings_state_scheme" where
  "emit c s = s\<lparr>calls := calls s @ [c]\<rparr>"

text \<open>\<open>emplace\<close>, then \<open>Renderer::string\<close>.\<close>

definition intern_new :: "addr \<Rightarrow> string \<Rightarrow> 'a strings_state_scheme \<Rightarrow> 'a strings_state_scheme" where
  "intern_new k str s = emit (R_string k str) (s\<lparr>string_table := (string_table s)(k \<mapsto> str)\<rparr>)"

text \<open>The text of a name object: from 3.12 on a task's name may be a number.\<close>

definition name_text :: "py_version \<Rightarrow> remote \<Rightarrow> i32 list \<Rightarrow> addr \<Rightarrow> string result" where
  "name_text V R stk s =
     (if V312 \<le> V
      then (case pylong_to_llong R stk s of
              Inr n \<Rightarrow> Inr (''Task-'' @ to_string (sint n))
            | Inl _ \<Rightarrow> (case pyunicode_to_utf8 R s of
                Inl _ \<Rightarrow> Inl PyUnicodeError | Inr str \<Rightarrow> Inr str))
      else (case pyunicode_to_utf8 R s of Inl _ \<Rightarrow> Inl PyUnicodeError | Inr str \<Rightarrow> Inr str))"

definition string_key ::
  "py_version \<Rightarrow> remote \<Rightarrow> i32 list \<Rightarrow> addr \<Rightarrow> 'a strings_state_scheme
     \<Rightarrow> addr result \<times> 'a strings_state_scheme" where
  "string_key V R stk k s =
     (case string_table s k of
        Some _ \<Rightarrow> (Inr k, s)
      | None \<Rightarrow>
          (case name_text V R stk k of
             Inl e \<Rightarrow> (Inl e, s)
           | Inr str \<Rightarrow> (Inr k, intern_new k str s)))"

text \<open>
  \<open>key_unsafe\<close> asks the interpreter: \<open>as_long\<close> is \<open>PyLong_AsLong\<close> of an exact integer,
  \<open>as_utf8\<close> is \<open>PyUnicode_AsUTF8\<close>.
\<close>

definition string_key_unsafe ::
  "py_version \<Rightarrow> (addr \<Rightarrow> int option) \<Rightarrow> (addr \<Rightarrow> string) \<Rightarrow> addr \<Rightarrow> 'a strings_state_scheme
     \<Rightarrow> addr \<times> 'a strings_state_scheme" where
  "string_key_unsafe V as_long as_utf8 k s =
     (case string_table s k of
        Some _ \<Rightarrow> (k, s)
      | None \<Rightarrow>
          (let str = (if V312 \<le> V
                      then (case as_long k of Some n \<Rightarrow> ''Task-'' @ to_string n | None \<Rightarrow> as_utf8 k)
                      else as_utf8 k)
           in (k, intern_new k str s)))"

text \<open>Native file names by program counter: \<open>snprintf\<close> into 32 bytes.\<close>

definition string_key_pc :: "addr \<Rightarrow> 'a strings_state_scheme \<Rightarrow> addr \<times> 'a strings_state_scheme" where
  "string_key_pc k s =
     (case string_table s k of
        Some _ \<Rightarrow> (k, s)
      | None \<Rightarrow> (k, intern_new k (take 31 (''native@'' @ print_pointer k)) s))"

text \<open>What libunwind says of a cursor; the demangler gives \<^term>\<open>None\<close> when its status is
  not 0. The symbol is never empty.\<close>

record unw_cursor =
  cur_start_ip :: "addr option"
  cur_proc_name :: "string option"
  cur_ip :: addr

definition string_key_cursor ::
  "(string \<Rightarrow> string option) \<Rightarrow> unw_cursor \<Rightarrow> 'a strings_state_scheme
     \<Rightarrow> addr result \<times> 'a strings_state_scheme" where
  "string_key_cursor demangle cursor s =
     (case cur_start_ip cursor of
        None \<Rightarrow> (Inl UnwindError, s)
      | Some k \<Rightarrow>
          (case string_table s k of
             Some _ \<Rightarrow> (Inr k, s)
           | None \<Rightarrow>
               (case cur_proc_name cursor of
                  None \<Rightarrow> (Inl UnwindError, s)
                | Some symbol \<Rightarrow>
                    (let name = (if take 2 symbol = ''_Z''
                                 then (case demangle symbol of None \<Rightarrow> symbol | Some d \<Rightarrow> d)
                                 else symbol)
                     in (Inr k, intern_new k name s)))))"

definition string_lookup :: "addr \<Rightarrow> 'a strings_state_scheme \<Rightarrow> string result" where
  "string_lookup key s =
     (case string_table s key of None \<Rightarrow> Inl LookupError | Some str \<Rightarrow> Inr str)"

section \<open>The interface of an interning operation\<close>

text \<open>
  All four \<open>key\<close> operations share a contract: a key that is returned can be looked up
  from then on, entries never change, only new entries are told to the renderer, and a
  failing call changes nothing.
\<close>

definition presets :: "addr set" where
  "presets = {0, INVALID, UNKNOWN}"

text \<open>Every entry of the table is a preset or has been told to the renderer.\<close>

definition announced :: "'a strings_state_scheme \<Rightarrow> bool" where
  "announced s \<longleftrightarrow>
     (\<forall>k str. string_table s k = Some str \<longrightarrow> k \<in> presets \<or> R_string k str \<in> set (calls s))"

text \<open>What an operation may do to the table and the call log: extend them, the stream staying open.\<close>

definition extends :: "'a strings_state_scheme \<Rightarrow> 'a strings_state_scheme \<Rightarrow> bool" where
  "extends s s' \<longleftrightarrow> string_table s \<subseteq>\<^sub>m string_table s' \<and> (\<exists>cs. calls s' = calls s @ cs \<and> list_all sampling_call cs)"

lemma extends_refl [simp, intro]: "extends s s"
  by (simp add: extends_def)

lemma extends_trans: "extends s t \<Longrightarrow> extends t u \<Longrightarrow> extends s u"
  by (auto simp: extends_def intro: map_le_trans)

lemma extends_calls: "extends s s' \<Longrightarrow> c \<in> set (calls s) \<Longrightarrow> c \<in> set (calls s')"
  by (auto simp: extends_def)

lemma extends_table: "extends s s' \<Longrightarrow> string_table s k = Some v \<Longrightarrow> string_table s' k = Some v"
  by (auto simp: extends_def map_le_def dom_def)

lemma emit_simps [simp]:
  "string_table (emit c s) = string_table s"
  "calls (emit c s) = calls s @ [c]"
  "strings_state.more (emit c s) = strings_state.more s"
  by (simp_all add: emit_def)

lemma extends_emit [simp, intro]: "sampling_call c \<Longrightarrow> extends s (emit c s)"
  by (simp add: extends_def)

lemma announced_emit: "announced s \<Longrightarrow> announced (emit c s)"
  by (auto simp: announced_def)

lemma intern_new_simps [simp]:
  "string_table (intern_new k str s) = (string_table s)(k \<mapsto> str)"
  "calls (intern_new k str s) = calls s @ [R_string k str]"
  "strings_state.more (intern_new k str s) = strings_state.more s"
  by (simp_all add: intern_new_def)

lemma intern_new_laws:
  assumes "string_table s k = None"
  shows "extends s (intern_new k str s)" "announced s \<Longrightarrow> announced (intern_new k str s)"
  using assms by (auto simp: announced_def extends_def map_le_def dom_def)

fun is_string_call :: "rcall \<Rightarrow> bool" where
  "is_string_call (R_string k str) = True"
| "is_string_call _ = False"

locale interner =
  fixes intern :: "'x \<Rightarrow> 'a strings_state_scheme \<Rightarrow> addr result \<times> 'a strings_state_scheme"
  assumes interned: "intern x s = (Inr k, s') \<Longrightarrow> string_table s' k \<noteq> None"
    and grows: "intern x s = (r, s') \<Longrightarrow> extends s s'"
    and keeps: "intern x s = (r, s') \<Longrightarrow> announced s \<Longrightarrow> announced s'"
    and rest: "intern x s = (r, s') \<Longrightarrow> strings_state.more s' = strings_state.more s"
    and failed: "intern x s = (Inl e, s') \<Longrightarrow> s' = s"
    and tells: "intern x s = (r, s') \<Longrightarrow> \<exists>cs. calls s' = calls s @ cs \<and> list_all is_string_call cs"
begin

lemma found_after:
  assumes "intern x s = (Inr k, s')" "extends s' t"
  shows "\<exists>str. string_lookup k t = Inr str \<and> string_lookup k s' = Inr str"
proof -
  obtain str where str: "string_table s' k = Some str"
    using interned [OF assms(1)] by auto
  then have "string_table t k = Some str"
    by (rule extends_table [OF assms(2)])
  with str show ?thesis
    by (simp add: string_lookup_def)
qed

lemma announced_key:
  assumes "intern x s = (Inr k, s')" "announced s"
  shows "k \<in> presets \<or> (\<exists>str. R_string k str \<in> set (calls s'))"
  using interned [OF assms(1)] keeps [OF assms] by (auto simp: announced_def)

end

interpretation key_obj: interner "string_key V R stk"
  by unfold_locales
    (auto simp: string_key_def intern_new_laws split: option.splits sum.splits)

interpretation key_cur: interner "string_key_cursor demangle"
  by unfold_locales
    (auto simp: string_key_cursor_def intern_new_laws Let_def split: option.splits)

interpretation key_uns: interner
  "\<lambda>k s. case string_key_unsafe V as_long as_utf8 k s of (k, s) \<Rightarrow> (Inr k, s)"
  by unfold_locales
    (auto simp: string_key_unsafe_def intern_new_laws Let_def split: option.splits)

interpretation key_pc: interner "\<lambda>k s. case string_key_pc k s of (k, s) \<Rightarrow> (Inr k, s)"
  by unfold_locales
    (auto simp: string_key_pc_def intern_new_laws split: option.splits)

section \<open>Properties\<close>

text \<open>An integer object of several digits is read as its value modulo \<open>2 ^ 64\<close>: with the
  digits the loop is given, all below \<open>2 ^ 30\<close>, the result is the sign times their value
  in base \<open>2 ^ 30\<close>, wrapped to a \<open>long long\<close>; more than 128 digits are an error.\<close>

theorem pylong_to_llong_value:
  assumes "copy_type (rd_long R) a = Some obj" "l_exact obj" "\<not> l_is_compact obj"
    and "0 \<le> l_digit_count obj"
    and "digits = take (nat (l_digit_count obj)) (l_ob_digit obj # local_stack)"
    and "\<forall>d \<in> set digits. uint d < 2 ^ 30"
  shows "pylong_to_llong R local_stack a =
    (if l_digit_count obj \<le> 128 then Inr (word_of_int (l_sign obj * digits_value digits))
     else Inl PyLongError)"
  using assms digits_to_llong_value [OF assms(6)]
  by (simp add: pylong_to_llong_def MAX_DIGITS_def mult.commute)

text \<open>The object \<open>1 + 5 * 2 ^ 30\<close>, negative, of two digits.\<close>

definition two_digit_long :: py_long where
  "two_digit_long = \<lparr>l_exact = True, l_is_compact = False, l_compact_value = 0, l_sign = -1,
     l_digit_count = 2, l_ob_digit = 1\<rparr>"

theorem pylong_to_llong_value_witness:
  "pylong_to_llong (no_memory\<lparr>rd_long := (\<lambda>_. Some two_digit_long)\<rparr>) [5, 77] 8192
     = Inr (word_of_int (- (1 + 5 * 2 ^ 30)))"
proof -
  have "copy_type (rd_long (no_memory\<lparr>rd_long := (\<lambda>_. Some two_digit_long)\<rparr>)) 8192 = Some two_digit_long"
    by (simp add: copy_type_def)
  from pylong_to_llong_value [OF this, of "[1, 5]" "[5, 77]"] show ?thesis
    by (simp add: two_digit_long_def)
qed

text \<open>The digits after the first are not those of the object. Two reads of the same
  object in the same memory, made with different bytes behind the local copy on the
  stack, give different numbers.\<close>

theorem pylong_to_llong_reads_local_stack:
  "\<exists>R a. pylong_to_llong R [5] a = Inr (word_of_int (- (1 + 5 * 2 ^ 30)))
     \<and> pylong_to_llong R [6] a = Inr (word_of_int (- (1 + 6 * 2 ^ 30)))
     \<and> pylong_to_llong R [5] a \<noteq> pylong_to_llong R [6] a"
proof -
  let ?R = "no_memory\<lparr>rd_long := (\<lambda>_. Some two_digit_long)\<rparr>"
  have long: "copy_type (rd_long ?R) 8192 = Some two_digit_long"
    by (simp add: copy_type_def)
  have "pylong_to_llong ?R [5] 8192 = Inr (word_of_int (- (1 + 5 * 2 ^ 30)))"
    "pylong_to_llong ?R [6] 8192 = Inr (word_of_int (- (1 + 6 * 2 ^ 30)))"
    using digits_to_llong_value [of "[1, 5]"] digits_to_llong_value [of "[1, 6]"] long
    by (simp_all add: pylong_to_llong_def two_digit_long_def MAX_DIGITS_def)
  then show ?thesis
    by (intro exI [of _ ?R] exI [of _ "8192::addr"]) simp
qed


text \<open>A one-byte name at address 65536, in every version.\<close>

definition one_name :: remote where
  "one_name = no_memory\<lparr>
     rd_unicode := (\<lambda>_. Some \<lparr>u_kind = 1, u_compact = True, u_length = 1, u_utf8 = 0, u_utf8_length = 0\<rparr>),
     rd_raw := (\<lambda>_ n. Some (replicate n (byte_of_char (CHR ''f''))))\<rparr>"

lemma name_text_one_name: "name_text V one_name stk 65536 = Inr ''f''"
  by (simp add: name_text_def pylong_to_llong_def pyunicode_to_utf8_def copy_type_def
      copy_generic_def one_name_def no_memory_def)


end
