(* ===== verification/Render.thy ===== *)
theory Render
  imports Strings
begin

text \<open>
  The rest of \<open>echion/render.h\<close> and \<open>echion/render.cc\<close>: \<open>WhereRenderer\<close>, which prints
  stacks for people, and \<open>Renderer\<close>, the singleton that passes every call to the renderer
  in charge.
\<close>

section \<open>WhereRenderer\<close>

text \<open>
  Its stream, and the standard error it complains on. Strings are bytes: the needle of a
  thread's line is the four bytes of its UTF-8 encoding.
\<close>

record where_renderer =
  wh_output :: string
  wh_cerr :: string

definition newline :: string where
  "newline = [CHR 0x0A]"

definition esc :: string where
  "esc = [CHR 0x1B]"

definition where_render_message :: "string \<Rightarrow> where_renderer \<Rightarrow> where_renderer" where
  "where_render_message msg w = w\<lparr>wh_output := wh_output w @ msg @ newline\<rparr>"

definition where_thread_begin :: "string \<Rightarrow> where_renderer \<Rightarrow> where_renderer" where
  "where_thread_begin name w =
     w\<lparr>wh_output := wh_output w @ ''    '' @ [CHR 0xF0, CHR 0x9F, CHR 0xA7, CHR 0xB5] @ '' ''
        @ name @ '':'' @ newline\<rparr>"

text \<open>\<open>filename_str.rfind("native@", 0) == 0\<close>: the string starts with it.\<close>

definition is_native_file :: "string \<Rightarrow> bool" where
  "is_native_file s = (take 7 s = ''native@'')"

definition where_frame_line :: "string \<Rightarrow> string \<Rightarrow> i32 \<Rightarrow> string" where
  "where_frame_line name_str filename_str line_no =
     (if is_native_file filename_str
      then esc @ ''[38;5;248;1m'' @ name_str @ esc @ ''[0m '' @ esc @ ''[38;5;246m('' @ filename_str
        @ esc @ ''[0m:'' @ esc @ ''[38;5;246m'' @ to_string (sint line_no) @ '')'' @ esc @ ''[0m''
      else esc @ ''[33;1m'' @ name_str @ esc @ ''[0m ('' @ esc @ ''[36m'' @ filename_str
        @ esc @ ''[0m:'' @ esc @ ''[32m'' @ to_string (sint line_no) @ esc @ ''[0m)'')"

definition where_render_frame ::
  "'a strings_state_scheme \<Rightarrow> frame \<Rightarrow> where_renderer \<Rightarrow> where_renderer" where
  "where_render_frame s frame w =
     (case string_lookup (fr_name frame) s of
        Inl _ \<Rightarrow> w\<lparr>wh_cerr := wh_cerr w @ ''could not get name for render_frame'' @ newline\<rparr>
      | Inr name_str \<Rightarrow>
          (case string_lookup (fr_filename frame) s of
             Inl _ \<Rightarrow> w\<lparr>wh_cerr := wh_cerr w @ ''could not get filename for render_frame'' @ newline\<rparr>
           | Inr filename_str \<Rightarrow>
               where_render_message (where_frame_line name_str filename_str (fr_line frame)) w))"

text \<open>The calls of the interface: the rest do nothing.\<close>

fun where_call :: "'a strings_state_scheme \<Rightarrow> rcall \<Rightarrow> where_renderer \<Rightarrow> where_renderer" where
  "where_call s (R_render_thread_begin n t i ni) w = where_thread_begin n w"
| "where_call s (R_render_message msg) w = where_render_message msg w"
| "where_call s (R_render_frame f) w = where_render_frame s f w"
| "where_call s _ w = w"

section \<open>The renderer in charge\<close>

text \<open>
  \<open>currentRenderer\<close> is a weak pointer: \<open>locked\<close> says whether \<open>lock()\<close> still gets the
  object, \<open>valid\<close> is its own \<open>is_valid\<close>. The default renderer is the \<open>MojoRenderer\<close> made
  with the singleton. Renderers are known by a name here.
\<close>

datatype 'r renderer_id = Default | Client 'r

record 'r renderer_facade =
  current_renderer :: "'r option"

definition set_renderer :: "'r option \<Rightarrow> 'r renderer_facade \<Rightarrow> 'r renderer_facade" where
  "set_renderer r f = f\<lparr>current_renderer := r\<rparr>"

definition getActiveRenderer ::
  "('r \<Rightarrow> bool) \<Rightarrow> ('r \<Rightarrow> bool) \<Rightarrow> 'r renderer_facade \<Rightarrow> 'r renderer_id" where
  "getActiveRenderer locked valid f =
     (case current_renderer f of
        Some r \<Rightarrow> if locked r then (if valid r then Client r else Default) else Default
      | None \<Rightarrow> Default)"

text \<open>Every method of \<open>Renderer\<close> is the same call on the active renderer.\<close>

definition renderer_dispatch ::
  "('r \<Rightarrow> bool) \<Rightarrow> ('r \<Rightarrow> bool) \<Rightarrow> 'r renderer_facade \<Rightarrow> rcall
     \<Rightarrow> ('r renderer_id \<Rightarrow> rcall list) \<Rightarrow> ('r renderer_id \<Rightarrow> rcall list)" where
  "renderer_dispatch locked valid f c log =
     (let a = getActiveRenderer locked valid f in log(a := log a @ [c]))"

section \<open>The interface: appending to a stream\<close>

text \<open>
  What a client of a renderer relies on: a call only appends. The client lemma is about
  whole runs.
\<close>

locale appending_renderer =
  fixes call :: "rcall \<Rightarrow> 'w \<Rightarrow> 'w" and out :: "'w \<Rightarrow> 'o list" and plain :: "rcall \<Rightarrow> bool"
  assumes appends: "plain c \<Longrightarrow> \<exists>xs. out (call c w) = out w @ xs"
begin

lemma run_appends:
  "list_all plain cs \<Longrightarrow> \<exists>xs. out (fold call cs w) = out w @ xs"
proof (induction cs arbitrary: w)
  case (Cons c cs)
  have "\<exists>xs. out (call c w) = out w @ xs" "\<exists>ys. out (fold call cs (call c w)) = out (call c w) @ ys"
    using Cons.IH [of "call c w"] Cons.prems appends by auto
  then show ?case
    by auto
qed simp

end

text \<open>Opening truncates the file; every other call of \<open>MojoRenderer\<close> appends.\<close>

lemma mojo_call_appends:
  assumes "c \<noteq> R_open"
  shows "\<exists>xs. mj_output (mojo_call cpu c r) = mj_output r @ xs"
proof (cases c)
  case (R_render_stack_end m d)
  then show ?thesis
    by (cases m) (auto simp: mj_put_def)
qed (use assms in \<open>auto simp: mj_put_def\<close>)

interpretation mojo: appending_renderer "mojo_call cpu" mj_output "\<lambda>c. c \<noteq> R_open"
  by unfold_locales (rule mojo_call_appends)

interpretation where_stream: appending_renderer "where_call s" wh_output "\<lambda>_. True"
proof unfold_locales
  fix c w
  show "\<exists>xs. wh_output (where_call s c w) = wh_output w @ xs"
    by (cases c) (auto simp: where_thread_begin_def where_render_message_def where_render_frame_def
        split: sum.split)
qed

section \<open>Property\<close>

text \<open>The sampler's session is stable. Everything the \<open>MojoRenderer\<close> wrote before stays
  in its file when more calls are made, the stream of the readable renderer only grows as
  well, and calls reach the default renderer whenever the one a client registered is gone
  or says it is not valid.\<close>

theorem renderers_append:
  assumes "R_open \<notin> set cs"
  shows "(\<exists>xs. mj_output (mojo_run cpu cs r) = mj_output r @ xs)
    \<and> (\<exists>ys. wh_output (fold (where_call s) cs w) = wh_output w @ ys)
    \<and> (\<not> locked x \<or> \<not> valid x \<longrightarrow>
         renderer_dispatch locked valid (set_renderer (Some x) f) c log
           = log(Default := log Default @ [c]))
    \<and> (locked x \<and> valid x \<longrightarrow>
         renderer_dispatch locked valid (set_renderer (Some x) f) c log
           = log(Client x := log (Client x) @ [c]))"
proof (intro conjI impI)
  have "list_all (\<lambda>c. c \<noteq> R_open) cs"
    using assms by (auto simp: list_all_iff)
  then show "\<exists>xs. mj_output (mojo_run cpu cs r) = mj_output r @ xs"
    unfolding mojo_run_def by (rule mojo.run_appends)
  show "\<exists>ys. wh_output (fold (where_call s) cs w) = wh_output w @ ys"
    by (rule where_stream.run_appends) (simp add: list_all_iff)
qed (auto simp: renderer_dispatch_def getActiveRenderer_def set_renderer_def Let_def)

theorem renderers_append_witness:
  "(\<exists>xs. mj_output (mojo_run False [R_header, R_render_stack_end Memory 4]
      \<lparr>mj_output = [1, 2], mj_open = True, mj_metric = 0\<rparr>) = [1, 2] @ xs)"
proof -
  have "R_open \<notin> set [R_header, R_render_stack_end Memory 4]"
    by simp
  note run = renderers_append [OF this, of False "\<lparr>mj_output = [1, 2], mj_open = True, mj_metric = 0\<rparr>"]
  show ?thesis
    by (rule run [THEN conjunct1, unfolded mojo_renderer.select_convs])
qed

end
