(* ===== verification/Linetable.thy ===== *)
theory Linetable
  imports Strings
begin

text \<open>
  The location tables of code objects: \<open>_read_varint\<close>, \<open>_read_signed_varint\<close> and
  \<open>Frame::infer_location\<close> of \<open>echion/frame.cc\<close>, in the format of 3.11 and later, of 3.10, and
  of the versions before. A table is a list of bytes; an access outside it, or a shift by
  the width of \<open>int\<close> or more, is \<^term>\<open>None\<close>. The second half is a reference encoder of
  the three formats.
\<close>

section \<open>Reading a table\<close>

definition table_at :: "byte list \<Rightarrow> int \<Rightarrow> byte option" where
  "table_at table i = (if 0 \<le> i \<and> i < int (length table) then Some (table ! nat i) else None)"

lemma table_at_Some: "table_at table i = Some b \<Longrightarrow> 0 \<le> i \<and> i < int (length table)"
  by (simp add: table_at_def split: if_splits)

lemma table_at_in [simp]:
  "table_at table i \<noteq> None \<longleftrightarrow> 0 \<le> i \<and> i < int (length table)"
  by (simp add: table_at_def)

text \<open>\<open>while (table[*i] & 64 && *i < guard)\<close>; the result is the value and the index.\<close>

function read_varint_loop :: "byte list \<Rightarrow> int \<Rightarrow> nat \<Rightarrow> i32 \<Rightarrow> (i32 \<times> int) option" where
  "read_varint_loop table i shift val =
     (let guard = int (length table) - 1 in
      case table_at table i of
        None \<Rightarrow> None
      | Some b \<Rightarrow>
          if b AND 64 \<noteq> 0 \<and> i < guard
          then (case table_at table (i + 1) of
                  None \<Rightarrow> None
                | Some c \<Rightarrow>
                    if 32 \<le> shift + 6 then None
                    else read_varint_loop table (i + 1) (shift + 6)
                           (val OR push_bit (shift + 6) (ucast (c AND 63))))
          else Some (val, i))"
  by pat_completeness auto

termination
  by (relation "measure (\<lambda>(table, i, _, _). nat (int (length table) - i))") auto

declare read_varint_loop.simps [simp del]

definition read_varint :: "byte list \<Rightarrow> int \<Rightarrow> (i32 \<times> int) option" where
  "read_varint table i =
     (let guard = int (length table) - 1 in
      if guard \<le> i then Some (0, i)
      else (case table_at table (i + 1) of
              None \<Rightarrow> None
            | Some b \<Rightarrow> read_varint_loop table (i + 1) 0 (ucast (b AND 63))))"

definition read_signed_varint :: "byte list \<Rightarrow> int \<Rightarrow> (i32 \<times> int) option" where
  "read_signed_varint table i =
     (case read_varint table i of
        None \<Rightarrow> None
      | Some (val, i) \<Rightarrow>
          Some (if val AND 1 \<noteq> 0 then - signed_drop_bit 1 val else signed_drop_bit 1 val, i))"

lemma read_varint_loop_mono: "read_varint_loop table i s v = Some (w, j) \<Longrightarrow> i \<le> j"
proof (induction table i s v rule: read_varint_loop.induct)
  case (1 table i shift val)
  from 1(2) show ?case
    by (subst (asm) read_varint_loop.simps)
      (auto simp: Let_def split: option.splits if_splits dest: 1(1) [rotated -1])
qed

lemma read_varint_mono: "read_varint table i = Some (w, j) \<Longrightarrow> i \<le> j"
  by (fastforce simp: read_varint_def Let_def split: if_splits option.splits
      dest: read_varint_loop_mono)

lemma read_signed_varint_mono: "read_signed_varint table i = Some (w, j) \<Longrightarrow> i \<le> j"
  by (auto simp: read_signed_varint_def split: option.splits dest: read_varint_mono)

section \<open>infer_location\<close>

definition set_location :: "i32 \<Rightarrow> i32 \<Rightarrow> i32 \<Rightarrow> i32 \<Rightarrow> frame \<Rightarrow> frame" where
  "set_location line line_end column column_end f =
     f\<lparr>fr_line := line, fr_line_end := line_end, fr_column := column, fr_column_end := column_end\<rparr>"

text \<open>
  One pass of the \<open>switch\<close>, from 3.11 on: the new \<open>lineno\<close>, the index of the last byte it
  consumed and the frame with its location.
\<close>

definition location_entry ::
  "byte list \<Rightarrow> nat \<Rightarrow> i32 \<Rightarrow> int \<Rightarrow> frame \<Rightarrow> (i32 \<times> int \<times> frame) result option" where
  "location_entry table code lineno i f =
     (let len = int (length table) in
      if code = 15 then Some (Inr (lineno, i, f))
      else if code = 14 then
        do { (d, i) \<leftarrow> read_signed_varint table i;
             let lineno = lineno + d;
             (e, i) \<leftarrow> read_varint table i;
             (c, i) \<leftarrow> read_varint table i;
             (ce, i) \<leftarrow> read_varint table i;
             Some (Inr (lineno, i, set_location lineno (lineno + e) c ce f)) }
      else if code = 13 then
        do { (d, i) \<leftarrow> read_signed_varint table i;
             let lineno = lineno + d;
             Some (Inr (lineno, i, set_location lineno lineno 0 0 f)) }
      else if 10 \<le> code then
        (if len - 2 \<le> i then Some (Inl LocationError)
         else
           do { let lineno = lineno + of_nat (code - 10);
                c \<leftarrow> table_at table (i + 1);
                ce \<leftarrow> table_at table (i + 2);
                Some (Inr (lineno, i + 2, set_location lineno lineno (1 + ucast c) (1 + ucast ce) f)) })
      else
        (if len - 1 \<le> i then Some (Inl LocationError)
         else
           do { next_byte \<leftarrow> table_at table (i + 1);
                let c = 1 + push_bit 3 (of_nat code) + ucast (drop_bit 4 next_byte AND 7);
                Some (Inr (lineno, i + 1, set_location lineno lineno c (c + ucast (next_byte AND 15)) f)) }))"

lemma location_entry_mono:
  "location_entry table code lineno i f = Some (Inr (l, j, g)) \<Longrightarrow> i \<le> j"
  unfolding location_entry_def Let_def
  by (auto simp: bind_eq_Some_iff split: if_splits
      dest!: read_varint_mono read_signed_varint_mono)

text \<open>\<open>for (Py_ssize_t i = 0, bc = 0; i < len; i++)\<close>.\<close>

function location_loop_311 ::
  "byte list \<Rightarrow> int \<Rightarrow> int \<Rightarrow> int \<Rightarrow> i32 \<Rightarrow> frame \<Rightarrow> (i32 \<times> frame) result option" where
  "location_loop_311 table lasti i bc lineno f =
     (if int (length table) \<le> i then Some (Inr (lineno, f))
      else case table_at table i of
        None \<Rightarrow> None
      | Some b \<Rightarrow>
          (let bc = bc + uint (b AND 7) + 1;
               code = unat (drop_bit 3 b AND 15)
           in case location_entry table code lineno i f of
                None \<Rightarrow> None
              | Some (Inl e) \<Rightarrow> Some (Inl e)
              | Some (Inr (lineno, j, f)) \<Rightarrow>
                  if lasti < bc then Some (Inr (lineno, f))
                  else location_loop_311 table lasti (j + 1) bc lineno f))"
  by pat_completeness auto

termination
  by (relation "measure (\<lambda>(table, _, i, _, _, _). nat (int (length table) - i))")
    (auto dest!: location_entry_mono)

declare location_loop_311.simps [simp del]

text \<open>The loop of 3.10; \<open>lasti\<close> has been doubled.\<close>

function location_loop_310 :: "byte list \<Rightarrow> int \<Rightarrow> int \<Rightarrow> int \<Rightarrow> i32 \<Rightarrow> i32 option" where
  "location_loop_310 table lasti i bc lineno =
     (if int (length table) \<le> i then Some lineno
      else case table_at table i of
        None \<Rightarrow> None
      | Some sdelta \<Rightarrow>
          if sdelta = 0xff then Some lineno
          else
            (let i = i + 1; bc = bc + uint sdelta in
             case table_at table i of
               None \<Rightarrow> None
             | Some b \<Rightarrow>
                 (let ldelta = (if b = 0x80 then 0 else ucast b);
                      lineno = (if b > 0x80 then lineno - 0x100 else lineno) + ldelta
                  in if lasti < bc then Some lineno
                     else location_loop_310 table lasti (i + 1) bc lineno)))"
  by pat_completeness auto

termination
  by (relation "measure (\<lambda>(table, _, i, _, _). nat (int (length table) - i))") auto

declare location_loop_310.simps [simp del]

function location_loop_39 :: "byte list \<Rightarrow> int \<Rightarrow> int \<Rightarrow> int \<Rightarrow> i32 \<Rightarrow> i32 option" where
  "location_loop_39 table lasti i bc lineno =
     (if int (length table) \<le> i then Some lineno
      else case table_at table i of
        None \<Rightarrow> None
      | Some d \<Rightarrow>
          (let bc = bc + uint d; i = i + 1 in
           if lasti < bc then Some lineno
           else case table_at table i of
             None \<Rightarrow> None
           | Some b \<Rightarrow>
               (let lineno = (if b \<ge> 0x80 then lineno - 0x100 else lineno) + ucast b
                in location_loop_39 table lasti (i + 1) bc lineno)))"
  by pat_completeness auto

termination
  by (relation "measure (\<lambda>(table, _, i, _, _). nat (int (length table) - i))") auto

declare location_loop_39.simps [simp del]

text \<open>
  The whole method. \<open>lasti <<= 1\<close> is done in 32 bits. The last four assignments are
  common to all versions: they overwrite what the loop has stored in the location. The
  value is the frame with its location; when the method fails, its only caller destroys
  the frame.
\<close>

definition infer_location ::
  "py_version \<Rightarrow> remote \<Rightarrow> py_code \<Rightarrow> i32 \<Rightarrow> frame \<Rightarrow> frame result option" where
  "infer_location V R code lasti f =
     (let lineno = co_firstlineno code;
          done = (\<lambda>lineno f. Inr (set_location lineno lineno 0 0 f))
      in if V311 \<le> V then
           (case pybytes_to_bytes_and_size R (co_linetable code) of
              None \<Rightarrow> Some (Inl LocationError)
            | Some table \<Rightarrow>
                (case location_loop_311 table (sint lasti) 0 0 lineno f of
                   None \<Rightarrow> None
                 | Some (Inl e) \<Rightarrow> Some (Inl e)
                 | Some (Inr (lineno, f)) \<Rightarrow> Some (done lineno f)))
         else if V310 \<le> V then
           (case pybytes_to_bytes_and_size R (co_linetable code) of
              None \<Rightarrow> Some (Inl LocationError)
            | Some table \<Rightarrow>
                map_option (\<lambda>lineno. done lineno f)
                  (location_loop_310 table (sint (push_bit 1 lasti)) 0 0 lineno))
         else
           (case pybytes_to_bytes_and_size R (co_lnotab code) of
              None \<Rightarrow> Some (Inl LocationError)
            | Some table \<Rightarrow>
                map_option (\<lambda>lineno. done lineno f)
                  (location_loop_39 table (sint lasti) 0 0 lineno)))"

section \<open>A reference encoder\<close>

text \<open>Six bits a byte, low bits first, bit 6 says that more follow.\<close>

fun encode_varint :: "nat \<Rightarrow> byte list" where
  "encode_varint n =
     (if n < 64 then [of_nat n] else of_nat (64 + n mod 64) # encode_varint (n div 64))"

declare encode_varint.simps [simp del]

definition encode_signed_varint :: "int \<Rightarrow> byte list" where
  "encode_signed_varint z =
     encode_varint (if z < 0 then nat (2 * (- z) + 1) else nat (2 * z))"

lemma encode_varint_nonempty [simp]: "encode_varint n \<noteq> []"
  by (subst encode_varint.simps) simp

lemma table_at_app: "table_at (pre @ b # post) (int (length pre)) = Some b"
  by (simp add: table_at_def)

lemma byte_and_64: "(b :: byte) AND 64 \<noteq> 0 \<longleftrightarrow> bit b 6"
  using and_exp_eq_0_iff_not_bit [of b 6] by simp

lemma bit_of_nat_byte: "bit (of_nat m :: byte) n \<longleftrightarrow> n < 8 \<and> bit m n"
  by (simp add: bit_simps)

lemma bit6_nat: "bit (n mod 64 :: nat) 6 \<longleftrightarrow> False" "bit (64 + n mod 64 :: nat) 6 \<longleftrightarrow> True"
proof -
  have "(64 + n mod 64) div 64 = 1"
    by (intro div_nat_eqI) (simp_all add: add.commute)
  then show "bit (n mod 64 :: nat) 6 \<longleftrightarrow> False" "bit (64 + n mod 64 :: nat) 6 \<longleftrightarrow> True"
    by (simp_all add: bit_iff_odd)
qed

lemma low6_byte:
  "(ucast ((of_nat m :: byte) AND 63) :: i32) = of_nat (m mod 64)"
proof -
  have "m mod 64 = take_bit 6 m"
    by (simp add: take_bit_eq_mod)
  then show ?thesis
    by (intro bit_word_eqI) (auto simp: word_mask_lits bit_simps)
qed

lemma of_nat_split_6:
  "push_bit s (of_nat (m mod 64)) OR push_bit (s + 6) (of_nat (m div 64))
     = (push_bit s (of_nat m) :: i32)"
proof -
  have "m mod 64 = take_bit 6 m" "m div 64 = drop_bit 6 m"
    by (simp_all add: take_bit_eq_mod drop_bit_eq_div)
  moreover have "6 + (k - (s + 6)) = k - s" if "s + 6 \<le> k" for k
    using that by arith
  moreover have "(k - s < 6) = (\<not> s + 6 \<le> k)" if "s \<le> k" for k
    using that by arith
  ultimately show ?thesis
    by (intro bit_word_eqI) (auto simp: bit_simps)
qed

text \<open>The loop, standing at the first byte of an encoded number whose low six bits it has.\<close>

lemma read_varint_loop_encode:
  assumes "m * 2 ^ s < 2 ^ 31"
  shows "read_varint_loop (pre @ encode_varint m @ post) (int (length pre)) s
      (acc OR push_bit s (of_nat (m mod 64)))
    = Some (acc OR push_bit s (of_nat m), int (length pre) + int (length (encode_varint m)) - 1)"
  using assms
proof (induction m arbitrary: s acc pre rule: encode_varint.induct)
  case (1 n)
  show ?case
  proof (cases "n < 64")
    case True
    then have "\<not> bit (of_nat n :: byte) 6"
      using bit6_nat(1) [of n] by (simp add: bit_of_nat_byte)
    then show ?thesis
      using True by (subst read_varint_loop.simps)
        (simp add: encode_varint.simps [of n] table_at_app byte_and_64)
  next
    case False
    let ?b = "of_nat (64 + n mod 64) :: byte" and ?pre = "pre @ [of_nat (64 + n mod 64)]"
    obtain c cs where c: "encode_varint (n div 64) = c # cs"
      by (cases "encode_varint (n div 64)") auto
    have c6: "(ucast (c AND 63) :: i32) = of_nat (n div 64 mod 64)"
      using c low6_byte [of "n div 64"] low6_byte [of "64 + n div 64 mod 64"]
      by (auto simp: encode_varint.simps [of "n div 64"] split: if_splits)
    have "2 ^ (s + 6) = 64 * (2::nat) ^ s"
      by (simp add: power_add)
    also have "\<dots> \<le> n * 2 ^ s"
      using False by (intro mult_le_mono1) simp
    finally have "2 ^ (s + 6) < (2::nat) ^ 31"
      using 1(2) by (rule le_less_trans)
    then have s: "s + 6 < 31"
      by (simp only: power_strict_increasing_iff)
    have "n div 64 * 2 ^ (s + 6) \<le> n * 2 ^ s"
      by (simp add: power_add)
    with 1(2) have small: "n div 64 * 2 ^ (s + 6) < 2 ^ 31"
      by simp
    have b6: "bit ?b 6"
      unfolding bit_of_nat_byte using bit6_nat(2) [of n] by simp
    have enc: "pre @ encode_varint n @ post = ?pre @ encode_varint (n div 64) @ post"
      "length (encode_varint n) = Suc (length (encode_varint (n div 64)))"
      using False by (simp_all add: encode_varint.simps [of n])
    have at: "table_at (?pre @ encode_varint (n div 64) @ post) (int (length pre)) = Some ?b"
      "table_at (?pre @ encode_varint (n div 64) @ post) (int (length pre) + 1) = Some c"
      using table_at_app [of pre ?b] table_at_app [of ?pre c] c by (simp_all add: add.commute)
    have "read_varint_loop (?pre @ encode_varint (n div 64) @ post) (int (length pre)) s
        (acc OR push_bit s (of_nat (n mod 64)))
      = read_varint_loop (?pre @ encode_varint (n div 64) @ post) (int (length ?pre)) (s + 6)
          ((acc OR push_bit s (of_nat (n mod 64))) OR push_bit (s + 6) (of_nat (n div 64 mod 64)))"
      using s b6 c c6 at by (subst read_varint_loop.simps) (simp add: byte_and_64 add.commute)
    also have "\<dots> = Some ((acc OR push_bit s (of_nat (n mod 64))) OR push_bit (s + 6) (of_nat (n div 64)),
        int (length ?pre) + int (length (encode_varint (n div 64))) - 1)"
      using 1(1) [OF False small, of ?pre "acc OR push_bit s (of_nat (n mod 64))"] by simp
    finally show ?thesis
      using enc by (simp add: or.assoc of_nat_split_6)
  qed
qed

lemma read_varint_encode:
  assumes "m < 2 ^ 31" "i = int (length pre) - 1"
  shows "read_varint (pre @ encode_varint m @ post) i
    = Some (of_nat m, i + int (length (encode_varint m)))"
proof -
  obtain c cs where c: "encode_varint m = c # cs"
    by (cases "encode_varint m") auto
  then have c6: "(ucast (c AND 63) :: i32) = of_nat (m mod 64)"
    using low6_byte [of m] low6_byte [of "64 + m mod 64"]
    by (auto simp: encode_varint.simps [of m] split: if_splits)
  have "table_at (pre @ encode_varint m @ post) (i + 1) = Some c"
    using assms(2) c table_at_app [of pre c] by simp
  then show ?thesis
    using assms c c6 read_varint_loop_encode [of m 0 pre post 0]
    by (simp add: read_varint_def)
qed

lemma read_signed_varint_encode:
  assumes "\<bar>z\<bar> < 2 ^ 30" "i = int (length pre) - 1"
  shows "read_signed_varint (pre @ encode_signed_varint z @ post) i
    = Some (word_of_int z, i + int (length (encode_signed_varint z)))"
proof -
  define m where "m = (if z < 0 then nat (2 * (- z) + 1) else nat (2 * z))"
  have m: "m < 2 ^ 31"
    using assms(1) by (auto simp: m_def)
  have odd: "(of_nat m :: i32) AND 1 \<noteq> 0 \<longleftrightarrow> z < 0"
    by (auto simp: m_def and_one_eq mod_2_eq_odd bit_simps bit_0 even_nat_iff)
  have "m div 2 = nat \<bar>z\<bar>"
    by (auto simp: m_def)
  then have "sint (signed_drop_bit 1 (of_nat m :: i32)) = \<bar>z\<bar>"
    using m by (simp add: sint_signed_drop_bit_eq drop_bit_eq_div signed_of_nat
        signed_take_bit_int_eq_self)
  then have "sint (signed_drop_bit 1 (of_nat m :: i32)) = sint (word_of_int \<bar>z\<bar> :: i32)"
    using assms(1) by (simp add: signed_of_int signed_take_bit_int_eq_self)
  then have half: "signed_drop_bit 1 (of_nat m :: i32) = word_of_int \<bar>z\<bar>"
    by (rule signed_word_eqI)
  show ?thesis
    using read_varint_encode [OF m assms(2), of post] odd half
    by (simp add: read_signed_varint_def encode_signed_varint_def m_def [symmetric])
qed


text \<open>
  The entries of a table of 3.11 and later, with the number of code units each covers (1
  to 8) and what \<open>Objects/locations.md\<close> calls its form; only the line deltas matter.
\<close>

datatype loc_entry =
    NoInfo nat
  | LongForm nat int nat nat nat
  | NoColumns nat int
  | OneLine nat nat byte byte
  | ShortForm nat nat byte

fun entry_units :: "loc_entry \<Rightarrow> nat" where
  "entry_units (NoInfo n) = n"
| "entry_units (LongForm n d e c ce) = n"
| "entry_units (NoColumns n d) = n"
| "entry_units (OneLine n d c ce) = n"
| "entry_units (ShortForm n code b) = n"

fun entry_delta :: "loc_entry \<Rightarrow> int" where
  "entry_delta (NoInfo n) = 0"
| "entry_delta (LongForm n d e c ce) = d"
| "entry_delta (NoColumns n d) = d"
| "entry_delta (OneLine n d c ce) = int d"
| "entry_delta (ShortForm n code b) = 0"

fun entry_code :: "loc_entry \<Rightarrow> nat" where
  "entry_code (NoInfo n) = 15"
| "entry_code (LongForm n d e c ce) = 14"
| "entry_code (NoColumns n d) = 13"
| "entry_code (OneLine n d c ce) = 10 + d"
| "entry_code (ShortForm n code b) = code"

fun entry_ok :: "loc_entry \<Rightarrow> bool" where
  "entry_ok (NoInfo n) = (n \<in> {1..8})"
| "entry_ok (LongForm n d e c ce) =
     (n \<in> {1..8} \<and> \<bar>d\<bar> < 2 ^ 30 \<and> e < 2 ^ 31 \<and> c < 2 ^ 31 \<and> ce < 2 ^ 31)"
| "entry_ok (NoColumns n d) = (n \<in> {1..8} \<and> \<bar>d\<bar> < 2 ^ 30)"
| "entry_ok (OneLine n d c ce) = (n \<in> {1..8} \<and> d < 3)"
| "entry_ok (ShortForm n code b) = (n \<in> {1..8} \<and> code < 10)"

definition entry_head :: "nat \<Rightarrow> nat \<Rightarrow> byte" where
  "entry_head code n = of_nat (128 + 8 * code + (n - 1))"

fun encode_entry :: "loc_entry \<Rightarrow> byte list" where
  "encode_entry (NoInfo n) = [entry_head 15 n]"
| "encode_entry (LongForm n d e c ce) =
     entry_head 14 n # encode_signed_varint d @ encode_varint e @ encode_varint c @ encode_varint ce"
| "encode_entry (NoColumns n d) = entry_head 13 n # encode_signed_varint d"
| "encode_entry (OneLine n d c ce) = [entry_head (10 + d) n, c, ce]"
| "encode_entry (ShortForm n code b) = [entry_head code n, b]"

definition encode_table :: "loc_entry list \<Rightarrow> byte list" where
  "encode_table es = concat (map encode_entry es)"

text \<open>The line of the code unit \<open>q\<close>: that of the entry that covers it.\<close>

fun line_at :: "int \<Rightarrow> loc_entry list \<Rightarrow> int \<Rightarrow> int" where
  "line_at line [] q = line"
| "line_at line (e # es) q =
     (if q < int (entry_units e) then line + entry_delta e
      else line_at (line + entry_delta e) es (q - int (entry_units e)))"

lemma entry_head_fields:
  assumes "code < 16" "n \<in> {1..8}"
  shows "uint (entry_head code n AND 7) + 1 = int n"
    and "unat (drop_bit 3 (entry_head code n) AND 15) = code"
proof -
  have u: "unat (entry_head code n) = 128 + 8 * code + (n - 1)"
    unfolding entry_head_def unsigned_of_nat using assms by (simp add: take_bit_nat_eq_self)
  have w: "128 + 8 * code + (n - 1) = (n - 1) + 8 * (16 + code)" "n - 1 < 8"
    using assms(2) by auto
  have t: "(n - 1 + 8 * t) mod 8 = n - 1" "(n - 1 + 8 * t) div 8 = t" for t
    using w(2) by simp_all
  have "take_bit 3 (128 + 8 * code + (n - 1)) = n - 1"
    unfolding w(1) take_bit_eq_mod using t(1) [of "16 + code"] by simp
  then have "unat (entry_head code n AND 7) = n - 1"
    by (simp add: word_mask_lits unsigned_take_bit_eq u)
  then have "uint (entry_head code n AND 7) = int (n - 1)"
    by (simp add: uint_nat)
  then show "uint (entry_head code n AND 7) + 1 = int n"
    using assms(2) by simp
  have "take_bit 4 (drop_bit 3 (128 + 8 * code + (n - 1))) = code"
    unfolding w(1) take_bit_eq_mod drop_bit_eq_div using assms(1) t(2) [of "16 + code"] by simp
  then show "unat (drop_bit 3 (entry_head code n) AND 15) = code"
    by (simp add: word_mask_lits unsigned_take_bit_eq unat_drop_bit_eq u)
qed

lemma encode_entry_Cons:
  "\<exists>body. encode_entry e = entry_head (entry_code e) (entry_units e) # body"
  by (cases e) auto

lemma entry_ok_head: "entry_ok e \<Longrightarrow> entry_code e < 16 \<and> entry_units e \<in> {1..8}"
  by (cases e) auto

text \<open>One pass of the switch over one encoded entry.\<close>

lemma location_entry_encode:
  assumes "entry_ok e" "i = int (length pre)"
  shows "\<exists>g. location_entry (pre @ encode_entry e @ post) (entry_code e) line i f
      = Some (Inr (line + word_of_int (entry_delta e), i + int (length (encode_entry e)) - 1, g))
    \<and> (\<forall>a b c d. set_location a b c d g = set_location a b c d f)"
proof (cases e)
  case (LongForm n d v c ce)
  let ?h = "entry_head 14 n"
  note a = LongForm assms
  have 1: "read_signed_varint (pre @ encode_entry e @ post) i
      = Some (word_of_int d, i + int (length (encode_signed_varint d)))"
    using a read_signed_varint_encode [of d i "pre @ [?h]" "encode_varint v @ encode_varint c @ encode_varint ce @ post"]
    by simp
  have 2: "read_varint (pre @ encode_entry e @ post) (i + int (length (encode_signed_varint d)))
      = Some (of_nat v, i + int (length (encode_signed_varint d)) + int (length (encode_varint v)))"
    using a read_varint_encode [of v "i + int (length (encode_signed_varint d))"
        "pre @ ?h # encode_signed_varint d" "encode_varint c @ encode_varint ce @ post"] by simp
  have 3: "read_varint (pre @ encode_entry e @ post)
        (i + int (length (encode_signed_varint d)) + int (length (encode_varint v)))
      = Some (of_nat c, i + int (length (encode_signed_varint d)) + int (length (encode_varint v))
          + int (length (encode_varint c)))"
    using a read_varint_encode [of c "i + int (length (encode_signed_varint d)) + int (length (encode_varint v))"
        "pre @ ?h # encode_signed_varint d @ encode_varint v" "encode_varint ce @ post"] by simp
  have 4: "read_varint (pre @ encode_entry e @ post)
        (i + int (length (encode_signed_varint d)) + int (length (encode_varint v)) + int (length (encode_varint c)))
      = Some (of_nat ce, i + int (length (encode_signed_varint d)) + int (length (encode_varint v))
          + int (length (encode_varint c)) + int (length (encode_varint ce)))"
    using a read_varint_encode [of ce "i + int (length (encode_signed_varint d)) + int (length (encode_varint v))
          + int (length (encode_varint c))"
        "pre @ ?h # encode_signed_varint d @ encode_varint v @ encode_varint c" post] by simp
  show ?thesis
    using 1 2 3 4 by (simp add: location_entry_def LongForm set_location_def Let_def add.assoc)
next
  case (NoColumns n d)
  then show ?thesis
    using assms read_signed_varint_encode [of d i "pre @ [entry_head 13 n]" post]
    by (simp add: location_entry_def set_location_def Let_def)
next
  case (OneLine n d c ce)
  then show ?thesis
    using assms by (auto simp: location_entry_def set_location_def table_at_def nth_append Let_def)
next
  case (ShortForm n code b)
  then show ?thesis
    using assms by (auto simp: location_entry_def set_location_def table_at_def nth_append Let_def)
qed (auto simp: location_entry_def)


lemma location_loop_311_encode:
  assumes "list_all entry_ok es"
  shows "\<exists>g. location_loop_311 (pre @ encode_table es) lasti (int (length pre)) bc (word_of_int line) f
      = Some (Inr (word_of_int (line_at line es (lasti - bc)), g))
    \<and> (\<forall>a b c d. set_location a b c d g = set_location a b c d f)"
  using assms
proof (induction es arbitrary: pre bc line f)
  case Nil
  then show ?case
    by (subst location_loop_311.simps) (auto simp: encode_table_def)
next
  case (Cons e es)
  let ?t = "pre @ encode_table (e # es)" and ?i = "int (length pre)"
  have ok: "entry_ok e" "entry_code e < 16" "entry_units e \<in> {1..8}"
    using Cons.prems entry_ok_head [of e] by auto
  note head = entry_head_fields [OF ok(2,3)]
  obtain body where body: "encode_entry e = entry_head (entry_code e) (entry_units e) # body"
    using encode_entry_Cons by blast
  then have at: "table_at ?t ?i = Some (entry_head (entry_code e) (entry_units e))"
    "\<not> int (length ?t) \<le> ?i"
    using table_at_app [of pre] by (simp_all add: encode_table_def)
  have t: "?t = pre @ encode_entry e @ encode_table es" "?t = (pre @ encode_entry e) @ encode_table es"
    by (simp_all add: encode_table_def)
  obtain g where step: "location_entry ?t (entry_code e) (word_of_int line) ?i f
      = Some (Inr (word_of_int line + word_of_int (entry_delta e),
          ?i + int (length (encode_entry e)) - 1, g))"
    and same: "\<forall>a b c d. set_location a b c d g = set_location a b c d f"
    unfolding t(1) using location_entry_encode [OF ok(1) refl] by blast
  have line': "word_of_int line + word_of_int (entry_delta e) = word_of_int (line + entry_delta e)"
    by simp
  define bc' where "bc' = bc + int (entry_units e)"
  have bc: "bc + uint (entry_head (entry_code e) (entry_units e) AND 7) + 1 = bc'"
    using head(1) by (simp add: bc'_def)
  have loop: "location_loop_311 ?t lasti ?i bc (word_of_int line) f
      = (if lasti < bc' then Some (Inr (word_of_int (line + entry_delta e), g))
         else location_loop_311 ?t lasti (?i + int (length (encode_entry e))) bc'
                (word_of_int (line + entry_delta e)) g)"
    using at head(2) bc step
    by (subst location_loop_311.simps) (simp add: Let_def)
  have stop: "lasti < bc' \<longleftrightarrow> lasti - bc < int (entry_units e)" and
    next_pos: "lasti - bc' = lasti - bc - int (entry_units e)"
    and pos: "?i + int (length (encode_entry e)) = int (length (pre @ encode_entry e))"
    by (auto simp: bc'_def)
  from Cons.IH [of "pre @ encode_entry e" bc' "line + entry_delta e" g] Cons.prems
  obtain h where "location_loop_311 ?t lasti (?i + int (length (encode_entry e))) bc'
        (word_of_int (line + entry_delta e)) g
      = Some (Inr (word_of_int (line_at (line + entry_delta e) es (lasti - bc')), h))"
    "\<forall>a b c d. set_location a b c d h = set_location a b c d g"
    unfolding t(2) pos by auto
  with loop same show ?case
    unfolding stop next_pos by auto
qed

subsection \<open>The older formats\<close>

text \<open>3.10: pairs of a byte count and a line delta, or no line.\<close>

fun line_at_310 :: "int \<Rightarrow> (nat \<times> int option) list \<Rightarrow> int \<Rightarrow> int" where
  "line_at_310 line [] q = line"
| "line_at_310 line ((sd, ld) # es) q =
     (let line = line + (case ld of None \<Rightarrow> 0 | Some d \<Rightarrow> d) in
      if q < int sd then line else line_at_310 line es (q - int sd))"

fun encode_310 :: "(nat \<times> int option) list \<Rightarrow> byte list" where
  "encode_310 [] = []"
| "encode_310 ((sd, ld) # es) =
     of_nat sd # (case ld of None \<Rightarrow> 0x80 | Some d \<Rightarrow> word_of_int d) # encode_310 es"

definition ok_310 :: "nat \<times> int option \<Rightarrow> bool" where
  "ok_310 e = (fst e < 255 \<and> (case snd e of None \<Rightarrow> True | Some d \<Rightarrow> \<bar>d\<bar> \<le> 127))"

text \<open>Before 3.10: pairs of a byte increment and a line increment.\<close>

fun line_at_39 :: "int \<Rightarrow> (nat \<times> int) list \<Rightarrow> int \<Rightarrow> int" where
  "line_at_39 line [] q = line"
| "line_at_39 line ((a, d) # es) q =
     (if q < int a then line else line_at_39 (line + d) es (q - int a))"

fun encode_39 :: "(nat \<times> int) list \<Rightarrow> byte list" where
  "encode_39 [] = []"
| "encode_39 ((a, d) # es) = of_nat a # word_of_int d # encode_39 es"

definition ok_39 :: "nat \<times> int \<Rightarrow> bool" where
  "ok_39 e = (fst e < 256 \<and> - 128 \<le> snd e \<and> snd e \<le> 127)"

lemma byte_delta:
  assumes "- 128 \<le> d" "d \<le> 127"
  shows "(if (word_of_int d :: byte) \<ge> 0x80 then (l :: i32) - 0x100 else l) + ucast (word_of_int d :: byte)
     = l + word_of_int d"
    and "(word_of_int d :: byte) = 0x80 \<longleftrightarrow> d = - 128"
    and "(word_of_int d :: byte) > 0x80 \<longleftrightarrow> - 128 < d \<and> d < 0"
proof -
  have u: "uint (word_of_int d :: byte) = (if d < 0 then d + 256 else d)"
  proof (cases "d < 0")
    case True
    then have "d mod 256 = d + 256"
      using assms by (intro int_mod_pos_eq [where q = "-1"]) auto
    with True show ?thesis
      by (simp add: uint_word_of_int)
  next
    case False
    then show ?thesis
      using assms by (simp add: uint_word_of_int)
  qed
  show "(word_of_int d :: byte) = 0x80 \<longleftrightarrow> d = - 128"
    using u assms by (auto simp: word_uint_eq_iff split: if_splits)
  show "(word_of_int d :: byte) > 0x80 \<longleftrightarrow> - 128 < d \<and> d < 0"
    using u assms by (auto simp: word_less_def split: if_splits)
  have "(ucast (word_of_int d :: byte) :: i32) = word_of_int (if d < 0 then d + 256 else d)"
    by (simp only: ucast_eq u)
  moreover have "(word_of_int d :: byte) \<ge> 0x80 \<longleftrightarrow> d < 0"
    using u assms by (auto simp: word_le_def split: if_splits)
  ultimately show "(if (word_of_int d :: byte) \<ge> 0x80 then (l :: i32) - 0x100 else l)
      + ucast (word_of_int d :: byte) = l + word_of_int d"
    by auto
qed

lemma location_loop_39_encode:
  assumes "list_all ok_39 es"
  shows "location_loop_39 (pre @ encode_39 es) lasti (int (length pre)) bc (word_of_int line)
    = Some (word_of_int (line_at_39 line es (lasti - bc)))"
  using assms
proof (induction es arbitrary: pre bc line)
  case Nil
  then show ?case
    by (subst location_loop_39.simps) simp
next
  case (Cons e es)
  obtain a d where e: "e = (a, d)"
    by (cases e)
  have d: "- 128 \<le> d" "d \<le> 127" "a < 256"
    using Cons.prems by (auto simp: e ok_39_def)
  have at: "table_at (pre @ encode_39 (e # es)) (int (length pre)) = Some (of_nat a)"
    "table_at (pre @ encode_39 (e # es)) (int (length pre) + 1) = Some (word_of_int d)"
    using table_at_app [of pre] table_at_app [of "pre @ [of_nat a]"] by (simp_all add: e add.commute)
  have "location_loop_39 (pre @ encode_39 (e # es)) lasti (int (length pre)) bc (word_of_int line)
    = (if lasti < bc + int a then Some (word_of_int line)
       else location_loop_39 (pre @ encode_39 (e # es)) lasti (int (length pre) + 2) (bc + int a)
              (word_of_int (line + d)))"
    using at d byte_delta(1) [OF d(1,2), of "word_of_int line"]
    by (subst location_loop_39.simps)
      (simp add: Let_def e unsigned_of_nat take_bit_nat_eq_self uint_nat add.assoc)
  then show ?case
    using Cons.IH [of "pre @ [of_nat a, word_of_int d]" "bc + int a" "line + d"] Cons.prems
    by (auto simp: e diff_diff_eq add.commute)
qed


lemma location_loop_310_encode:
  assumes "list_all ok_310 es"
  shows "location_loop_310 (pre @ encode_310 es) lasti (int (length pre)) bc (word_of_int line)
    = Some (word_of_int (line_at_310 line es (lasti - bc)))"
  using assms
proof (induction es arbitrary: pre bc line)
  case Nil
  then show ?case
    by (subst location_loop_310.simps) simp
next
  case (Cons e es)
  obtain a ld where e: "e = (a, ld)"
    by (cases e)
  define b where "b = (case ld of None \<Rightarrow> 0x80 | Some d \<Rightarrow> (word_of_int d :: byte))"
  define d where "d = (case ld of None \<Rightarrow> 0 | Some d \<Rightarrow> d)"
  have a: "a < 255" "uint (of_nat a :: byte) = int a"
    using Cons.prems by (auto simp: e ok_310_def unsigned_of_nat take_bit_nat_eq_self uint_nat)
  then have ne: "(of_nat a :: byte) \<noteq> 0xff"
    by (auto simp: word_uint_eq_iff)
  have b: "(if b > 0x80 then (l :: i32) - 0x100 else l) + (if b = 0x80 then 0 else ucast b)
      = l + word_of_int d" for l
  proof (cases ld)
    case (Some z)
    then have z: "- 128 \<le> z" "z \<le> 127" "z \<noteq> - 128"
      using Cons.prems by (auto simp: e ok_310_def)
    from z Some show ?thesis
      using byte_delta(1) [OF z(1,2), of l] byte_delta(2,3) [OF z(1,2)]
      by (auto simp: b_def d_def order_le_less split: if_splits)
  qed (simp add: b_def d_def)
  have at: "table_at (pre @ encode_310 (e # es)) (int (length pre)) = Some (of_nat a)"
    "table_at (pre @ encode_310 (e # es)) (int (length pre) + 1) = Some b"
    using table_at_app [of pre] table_at_app [of "pre @ [of_nat a]"]
    by (simp_all add: e add.commute b_def)
  have "location_loop_310 (pre @ encode_310 (e # es)) lasti (int (length pre)) bc (word_of_int line)
    = (if lasti < bc + int a then Some (word_of_int (line + d))
       else location_loop_310 (pre @ encode_310 (e # es)) lasti (int (length pre) + 2) (bc + int a)
              (word_of_int (line + d)))"
    using at a ne b [of "word_of_int line"]
    by (subst location_loop_310.simps) (simp add: Let_def e add.assoc)
  then show ?case
    using Cons.IH [of "pre @ [of_nat a, b]" "bc + int a" "line + d"] Cons.prems
    by (auto simp: e diff_diff_eq add.commute Let_def b_def [symmetric] d_def [symmetric])
qed

section \<open>Reads stay inside the table\<close>

text \<open>No six bytes in a row ask for another one: \<open>int\<close> has room for the others.\<close>

definition no_long_run :: "byte list \<Rightarrow> bool" where
  "no_long_run table = list_all (\<lambda>i. \<exists>j \<in> set [0..<6]. \<not> bit (table ! (i + j)) 6) [0..<length table - 5]"

lemma read_varint_loop_defined:
  assumes "no_long_run table" "s = 6 * k" "k \<le> 5" "i = int p" "k \<le> p" "p < length table"
    and "\<forall>j < k. bit (table ! (p - k + j)) 6"
  shows "\<exists>v j. read_varint_loop table i s val = Some (v, j) \<and> j < int (length table)"
  using assms
proof (induction table i s val arbitrary: k p rule: read_varint_loop.induct)
  case (1 table i shift val)
  have at: "table_at table i = Some (table ! p)"
    using 1(5,7) by (simp add: table_at_def)
  show ?case
  proof (cases "table ! p AND 64 \<noteq> 0 \<and> i < int (length table) - 1")
    case False
    then show ?thesis
      using at 1(5,7) by (subst read_varint_loop.simps) (auto simp: Let_def)
  next
    case True
    then have b: "bit (table ! p) 6" and p: "Suc p < length table"
      using 1(5) by (auto simp: byte_and_64)
    then have at': "table_at table (i + 1) = Some (table ! Suc p)"
      using 1(5) by (simp add: table_at_def nat_add_distrib)
    have run: "\<forall>j < Suc k. bit (table ! (p - k + j)) 6"
      using 1(6,8) b by (auto simp: less_Suc_eq)
    have "k \<noteq> 5"
    proof
      assume "k = 5"
      with run have "\<forall>j < 6. bit (table ! (p - 5 + j)) 6"
        by simp
      moreover have "p - 5 < length table - 5"
        using 1(6) 1(7) \<open>k = 5\<close> by auto
      ultimately show False
        using 1(2) by (fastforce simp: no_long_run_def list_all_iff)
    qed
    with 1(4) have k: "Suc k \<le> 5"
      by simp
    have "\<exists>v j. read_varint_loop table (i + 1) (shift + 6)
        (val OR push_bit (shift + 6) (ucast (table ! Suc p AND 63))) = Some (v, j) \<and> j < int (length table)"
      using 1(1) [OF refl at True at', of "Suc k" "Suc p"] 1(2,3,5,6) k p run by simp
    then show ?thesis
      using at at' True k 1(3) by (subst read_varint_loop.simps) (simp add: Let_def)
  qed
qed

lemma read_varint_defined:
  assumes "no_long_run table" "0 \<le> i" "i < int (length table)"
  shows "\<exists>v j. read_varint table i = Some (v, j) \<and> 0 \<le> j \<and> j < int (length table)"
proof (cases "int (length table) - 1 \<le> i")
  case False
  define p where "p = nat (i + 1)"
  have p: "i + 1 = int p" "p < length table"
    using False assms(2) by (auto simp: p_def)
  then obtain v j where r: "read_varint_loop table (i + 1) 0 (ucast (table ! p AND 63)) = Some (v, j)"
    "j < int (length table)"
    using read_varint_loop_defined [OF assms(1), of 0 0 "i + 1" p] by fastforce
  moreover have "table_at table (i + 1) = Some (table ! p)"
    using p by (simp add: table_at_def)
  ultimately have "read_varint table i = Some (v, j)"
    using False by (simp add: read_varint_def)
  with r read_varint_mono [OF this] assms(2) show ?thesis
    by auto
qed (use assms in \<open>simp add: read_varint_def\<close>)

lemma read_signed_varint_defined:
  assumes "no_long_run table" "0 \<le> i" "i < int (length table)"
  shows "\<exists>v j. read_signed_varint table i = Some (v, j) \<and> 0 \<le> j \<and> j < int (length table)"
  using read_varint_defined [OF assms] by (auto simp: read_signed_varint_def)

lemma location_entry_defined:
  assumes t: "no_long_run table" and i: "0 \<le> i" "i < int (length table)"
  shows "\<exists>r. location_entry table code line i f = Some r"
proof -
  have at: "\<exists>b. table_at table j = Some b" if "0 \<le> j" "j < int (length table)" for j
    using that by (simp add: table_at_def)
  consider (long) "code = 14" | (nocol) "code = 13" | (line) "10 \<le> code" "code < 13"
    | (short) "code < 10" | (none) "13 < code" "code \<noteq> 14"
    by linarith
  then show ?thesis
  proof cases
    case long
    obtain v j where 1: "read_signed_varint table i = Some (v, j)" "0 \<le> j" "j < int (length table)"
      using read_signed_varint_defined [OF t i] by blast
    obtain v' k where 2: "read_varint table j = Some (v', k)" "0 \<le> k" "k < int (length table)"
      using read_varint_defined [OF t 1(2,3)] by blast
    obtain w l where 3: "read_varint table k = Some (w, l)" "0 \<le> l" "l < int (length table)"
      using read_varint_defined [OF t 2(2,3)] by blast
    obtain w' m where 4: "read_varint table l = Some (w', m)"
      using read_varint_defined [OF t 3(2,3)] by blast
    from 1(1) 2(1) 3(1) 4 long show ?thesis
      by (simp add: location_entry_def Let_def)
  next
    case nocol
    then show ?thesis
      using read_signed_varint_defined [OF t i] by (auto simp: location_entry_def Let_def)
  next
    case line
    then show ?thesis
      using i at [of "i + 1"] at [of "i + 2"] by (auto simp: location_entry_def Let_def)
  next
    case short
    then show ?thesis
      using i at [of "i + 1"] by (auto simp: location_entry_def Let_def)
  next
    case none
    then show ?thesis
      using i at [of "i + 1"] at [of "i + 2"]
      by (cases "code = 15") (auto simp: location_entry_def Let_def)
  qed
qed


lemma location_loop_311_defined:
  assumes "no_long_run table" "0 \<le> i"
  shows "location_loop_311 table lasti i bc line f \<noteq> None"
  using assms
proof (induction table lasti i bc line f rule: location_loop_311.induct)
  case (1 table lasti i bc line f)
  show ?case
  proof (cases "int (length table) \<le> i")
    case False
    then obtain b where b: "table_at table i = Some b"
      using 1(3) by (simp add: table_at_def)
    obtain r where r: "location_entry table (unat (drop_bit 3 b AND 15)) line i f = Some r"
      using location_entry_defined [OF 1(2,3)] False by force
    show ?thesis
    proof (cases r)
      case (Inl e)
      then show ?thesis
        using False b r by (subst location_loop_311.simps) (simp add: Let_def)
    next
      case (Inr x)
      obtain l j g where x: "x = (l, j, g)"
        by (cases x)
      have "0 \<le> j + 1"
        using location_entry_mono r Inr x 1(3) by fastforce
      then show ?thesis
        using False b r Inr x 1(1) [OF False b refl refl r Inr x [symmetric] refl _ 1(2)]
        by (subst location_loop_311.simps) (simp add: Let_def)
    qed
  qed (subst location_loop_311.simps, simp)
qed

lemma location_loop_39_defined:
  assumes "even (length table)" "0 \<le> i" "even i"
  shows "location_loop_39 table lasti i bc line \<noteq> None"
  using assms
proof (induction table lasti i bc line rule: location_loop_39.induct)
  case (1 table lasti i bc line)
  show ?case
  proof (cases "int (length table) \<le> i")
    case False
    moreover have "even (int (length table))"
      using 1(2) by simp
    ultimately have "i + 1 < int (length table)"
      using 1(4) by presburger
    then obtain b c where "table_at table i = Some b" "table_at table (i + 1) = Some c"
      using 1(3) by (simp add: table_at_def)
    with False 1 show ?thesis
      by (subst location_loop_39.simps) (simp add: Let_def)
  qed (subst location_loop_39.simps, simp)
qed

lemma location_loop_310_defined:
  assumes "even (length table)" "0 \<le> i" "even i"
  shows "location_loop_310 table lasti i bc line \<noteq> None"
  using assms
proof (induction table lasti i bc line rule: location_loop_310.induct)
  case (1 table lasti i bc line)
  show ?case
  proof (cases "int (length table) \<le> i")
    case False
    moreover have "even (int (length table))"
      using 1(2) by simp
    ultimately have "i + 1 < int (length table)"
      using 1(4) by presburger
    then obtain b c where "table_at table i = Some b" "table_at table (i + 1) = Some c"
      using 1(3) by (simp add: table_at_def)
    with False 1 show ?thesis
      by (subst location_loop_310.simps) (simp add: Let_def)
  qed (subst location_loop_310.simps, simp)
qed

section \<open>Properties\<close>

text \<open>C12: the location of a frame, from 3.11 on. For a code object whose table encodes the
  entries \<open>es\<close>, of any of the five forms and with line deltas below \<open>2 ^ 30\<close>,
  \<open>infer_location\<close> succeeds and gives the line of the entry that covers the instruction;
  the columns the entries carry are lost (they are always 0).\<close>

theorem infer_location_line:
  assumes "V311 \<le> V" "list_all entry_ok es"
    and "pybytes_to_bytes_and_size R (co_linetable code) = Some (encode_table es)"
  shows "infer_location V R code lasti f =
    (let line = word_of_int (line_at (sint (co_firstlineno code)) es (sint lasti))
     in Some (Inr (f\<lparr>fr_line := line, fr_line_end := line, fr_column := 0, fr_column_end := 0\<rparr>)))"
proof -
  have "\<exists>g. location_loop_311 (encode_table es) (sint lasti) 0 0 (co_firstlineno code) f
      = Some (Inr (word_of_int (line_at (sint (co_firstlineno code)) es (sint lasti)), g))
    \<and> (\<forall>a b c d. set_location a b c d g = set_location a b c d f)"
    using location_loop_311_encode [OF assms(2), of "[]" "sint lasti" 0 "sint (co_firstlineno code)" f]
    by simp
  then show ?thesis
    using assms(1,3) by (auto simp: infer_location_def Let_def set_location_def)
qed

text \<open>Two entries: the second, in long form, is 300 lines further on and has columns.\<close>

definition two_entries :: "loc_entry list" where
  "two_entries = [ShortForm 2 3 7, LongForm 4 300 1 80 90]"

theorem infer_location_line_witness:
  "\<exists>R code f. infer_location V312 R code 3 f
     = Some (Inr (f\<lparr>fr_line := 310, fr_line_end := 310, fr_column := 0, fr_column_end := 0\<rparr>))"
proof -
  define R where "R = no_memory\<lparr>rd_bytes_size := (\<lambda>_. Some (int (length (encode_table two_entries)))),
     rd_raw := (\<lambda>_ _. Some (encode_table two_entries))\<rparr>"
  define code where "code = \<lparr>co_filename = 0, co_name = 0, co_qualname = 0, co_linetable = 65536,
     co_lnotab = 0, co_firstlineno = 10, co_code = 0\<rparr>"
  define n where "n = length (encode_table two_entries)"
  have n: "0 < n" "n \<le> 100"
    by (simp_all add: n_def two_entries_def encode_table_def encode_signed_varint_def encode_varint.simps)
  then have "pybytes_to_bytes_and_size R (co_linetable code) = Some (encode_table two_entries)"
    by (simp add: pybytes_to_bytes_and_size_def R_def code_def copy_type_def copy_generic_def
        no_memory_def MAX_STRING_SIZE_def n_def [symmetric])
  moreover have "list_all entry_ok two_entries"
    by (simp add: two_entries_def)
  moreover have "V311 \<le> V312"
    by (simp add: py_version_order)
  moreover have "line_at (sint (co_firstlineno code)) two_entries (sint (3 :: i32)) = 310"
    by (simp add: code_def two_entries_def)
  ultimately have "infer_location V312 R code 3 f
     = Some (Inr (f\<lparr>fr_line := 310, fr_line_end := 310, fr_column := 0, fr_column_end := 0\<rparr>))" for f
    using infer_location_line [of V312 two_entries R code 3 f] by simp
  then show ?thesis
    by blast
qed

text \<open>C13: the location of a frame in the older formats. In 3.10 \<open>infer_location\<close> gives the
  line of the pair that covers the instruction's byte offset (twice \<open>lasti\<close>), where a pair
  may say that its bytes have no line; before 3.10 it gives the line after all the pairs
  that start at or before \<open>lasti\<close>.\<close>

theorem infer_location_line_legacy:
  assumes "\<not> V311 \<le> V"
    and "0 \<le> sint lasti" "sint lasti < 2 ^ 30"
    and "V = V310 \<Longrightarrow> list_all ok_310 es
      \<and> pybytes_to_bytes_and_size R (co_linetable code) = Some (encode_310 es)"
    and "V \<noteq> V310 \<Longrightarrow> list_all ok_39 ps
      \<and> pybytes_to_bytes_and_size R (co_lnotab code) = Some (encode_39 ps)"
  shows "infer_location V R code lasti f =
    (let line = word_of_int
           (if V = V310 then line_at_310 (sint (co_firstlineno code)) es (2 * sint lasti)
            else line_at_39 (sint (co_firstlineno code)) ps (sint lasti))
     in Some (Inr (f\<lparr>fr_line := line, fr_line_end := line, fr_column := 0, fr_column_end := 0\<rparr>)))"
proof (cases "V = V310")
  case True
  have "sint (push_bit 1 lasti) = 2 * sint lasti"
  proof -
    have "push_bit 1 lasti = word_of_int (2 * sint lasti)"
      by (simp add: push_bit_eq_mult)
    then show ?thesis
      using assms(2,3) by (simp add: signed_of_int signed_take_bit_int_eq_self del: of_int_mult)
  qed
  then show ?thesis
    using assms(4) [OF True] True
      location_loop_310_encode [of es "[]" "2 * sint lasti" 0 "sint (co_firstlineno code)"]
    by (simp add: infer_location_def py_version_order set_location_def Let_def)
next
  case False
  then have "\<not> V310 \<le> V"
    using assms(1) by (cases V) (auto simp: py_version_order)
  then show ?thesis
    using assms(1) assms(5) [OF False] False
      location_loop_39_encode [of ps "[]" "sint lasti" 0 "sint (co_firstlineno code)"]
    by (simp add: infer_location_def set_location_def Let_def)
qed

theorem infer_location_line_legacy_witness:
  "\<exists>R code f. infer_location V310 R code 4 f
     = Some (Inr (f\<lparr>fr_line := 7, fr_line_end := 7, fr_column := 0, fr_column_end := 0\<rparr>))"
proof -
  let ?es = "[(4, Some 2), (2, None), (10, Some (-5))]"
  define R where "R = no_memory\<lparr>rd_bytes_size := (\<lambda>_. Some 6), rd_raw := (\<lambda>_ _. Some (encode_310 ?es))\<rparr>"
  define code where "code = \<lparr>co_filename = 0, co_name = 0, co_qualname = 0, co_linetable = 65536,
     co_lnotab = 0, co_firstlineno = 10, co_code = 0\<rparr>"
  have bytes: "pybytes_to_bytes_and_size R (co_linetable code) = Some (encode_310 ?es)"
    by (simp add: pybytes_to_bytes_and_size_def R_def code_def copy_type_def copy_generic_def
        no_memory_def MAX_STRING_SIZE_def)
  have "list_all ok_310 ?es"
    by (simp add: ok_310_def)
  moreover have "line_at_310 (sint (co_firstlineno code)) ?es (2 * sint (4 :: i32)) = 7"
    by (simp add: code_def Let_def)
  ultimately have "infer_location V310 R code 4 f
     = Some (Inr (f\<lparr>fr_line := 7, fr_line_end := 7, fr_column := 0, fr_column_end := 0\<rparr>))" for f
    using infer_location_line_legacy [of V310 4 ?es R code "[]" f] bytes
    by (simp add: py_version_order Let_def)
  then show ?thesis
    by blast
qed



end
