(* ===== verification/Chunks.thy ===== *)
theory Chunks
  imports Cpython
begin

text \<open>
  \<open>echion/stack_chunk.h\<close>: the local copy of a thread's chain of data stack chunks, from
  3.11 on. \<open>update\<close> follows the \<open>previous\<close> links of the memory it reads, so it need not
  return: it is a partial function, and not returning is \<^term>\<open>None\<close>.
\<close>

section \<open>StackChunk\<close>

definition MAX_CHUNK_SIZE :: nat where
  "MAX_CHUNK_SIZE = 256 * 1024"

text \<open>\<open>origin\<close>, \<open>data\<close> (whose length is its \<open>size()\<close>), \<open>data_capacity\<close>, \<open>previous\<close>.\<close>

datatype stack_chunk =
  StackChunk (sc_origin: addr) (sc_data: "byte list") (sc_capacity: nat) (sc_previous: "stack_chunk option")

definition new_chunk :: stack_chunk where
  "new_chunk = StackChunk NULL [] 0 None"

text \<open>\<open>data.resize(data_capacity)\<close>, when the chunk is larger than what is there.\<close>

definition chunk_grow :: "nat \<Rightarrow> byte list \<Rightarrow> nat \<Rightarrow> byte list \<times> nat" where
  "chunk_grow sz data data_capacity =
     (if data_capacity < sz then (take sz (data @ replicate sz 0), sz) else (data, data_capacity))"

text \<open>
  A copy that fails may leave some of its bytes in \<open>data\<close>; every caller drops the object
  then.
\<close>

partial_function (option) chunk_update ::
  "remote \<Rightarrow> addr \<Rightarrow> stack_chunk \<Rightarrow> (unit result \<times> stack_chunk) option" where
  "chunk_update R chunk_addr sc =
     (case copy_type (rd_chunk R) chunk_addr of
        None \<Rightarrow> Some (Inl StackChunkError, sc)
      | Some chunk \<Rightarrow>
          if MAX_CHUNK_SIZE < chunk_size chunk then Some (Inl StackChunkError, sc)
          else
            (let (data, cap) = chunk_grow (chunk_size chunk) (sc_data sc) (sc_capacity sc) in
             case copy_generic (rd_raw R) chunk_addr (int (chunk_size chunk)) of
               None \<Rightarrow> Some (Inl StackChunkError, StackChunk chunk_addr data cap (sc_previous sc))
             | Some bytes \<Rightarrow>
                 (let data = bytes @ drop (length bytes) data in
                  if chunk_previous chunk = NULL
                  then Some (Inr (), StackChunk chunk_addr data cap (sc_previous sc))
                  else
                    do { (r, p) \<leftarrow> chunk_update R (chunk_previous chunk)
                                    (case sc_previous sc of None \<Rightarrow> new_chunk | Some p \<Rightarrow> p);
                         Some (Inr (), StackChunk chunk_addr data cap
                                 (case r of Inl e \<Rightarrow> None | Inr u \<Rightarrow> Some p)) })))"

definition chunk_is_valid :: "remote \<Rightarrow> stack_chunk \<Rightarrow> bool" where
  "chunk_is_valid R sc =
     (0 < sc_capacity sc \<and> 0 < length (sc_data sc) \<and> sizeof_chunk R \<le> length (sc_data sc)
      \<and> sc_origin sc \<noteq> NULL)"

text \<open>
  \<open>resolve\<close> returns the address it got, or a pointer into the data of one of the copies:
  the bytes and the offset.
\<close>

datatype resolved = Unresolved addr | Local "byte list" nat

fun chunk_resolve :: "remote \<Rightarrow> stack_chunk \<Rightarrow> addr \<Rightarrow> resolved" where
  "chunk_resolve R (StackChunk origin data cap previous) address =
     (if \<not> chunk_is_valid R (StackChunk origin data cap previous) then Unresolved address
      else
        (let sz = dec_chunk_size R (take (sizeof_chunk R) data) in
         if origin \<le> address \<and> address < origin + of_nat sz
         then Local data (unat (address - origin))
         else (case previous of
                 Some p \<Rightarrow> chunk_resolve R p address
               | None \<Rightarrow> Unresolved address)))"

text \<open>
  How \<open>Frame::read\<close> uses it: the structure is taken from the copy when the address is in
  one, and copied from memory otherwise. The fields are read through the pointer, so a
  structure that does not lie within the copy is read past the end of the vector.
\<close>

definition read_iframe :: "remote \<Rightarrow> stack_chunk option \<Rightarrow> addr \<Rightarrow> py_iframe result option" where
  "read_iframe R stack_chunk frame_addr =
     (case (case stack_chunk of Some sc \<Rightarrow> chunk_resolve R sc frame_addr | None \<Rightarrow> Unresolved frame_addr) of
        Local data off \<Rightarrow>
          if off + sizeof_iframe R \<le> length data
          then Some (Inr (dec_iframe R (take (sizeof_iframe R) (drop off data))))
          else None
      | Unresolved a \<Rightarrow>
          (case copy_type (rd_iframe R) a of
             None \<Rightarrow> Some (Inl FrameError)
           | Some iframe \<Rightarrow> Some (Inr iframe)))"

text \<open>The two lines of \<open>unwind_python_stack\<close> that refresh the global \<open>stack_chunk\<close>.\<close>

definition refresh_stack_chunk :: "remote \<Rightarrow> addr \<Rightarrow> stack_chunk option \<Rightarrow> stack_chunk option option" where
  "refresh_stack_chunk R datastack_chunk stack_chunk =
     (case chunk_update R datastack_chunk (case stack_chunk of None \<Rightarrow> new_chunk | Some sc \<Rightarrow> sc) of
        None \<Rightarrow> None
      | Some (Inl e, sc) \<Rightarrow> Some None
      | Some (Inr u, sc) \<Rightarrow> Some (Some sc))"

section \<open>When update returns\<close>

text \<open>The chunk the recursion goes on with.\<close>

definition next_chunk :: "remote \<Rightarrow> addr \<Rightarrow> addr option" where
  "next_chunk R a =
     (case copy_type (rd_chunk R) a of
        None \<Rightarrow> None
      | Some chunk \<Rightarrow>
          if chunk_size chunk \<le> MAX_CHUNK_SIZE
            \<and> copy_generic (rd_raw R) a (int (chunk_size chunk)) \<noteq> None
            \<and> chunk_previous chunk \<noteq> NULL
          then Some (chunk_previous chunk) else None)"

fun chain_ends :: "remote \<Rightarrow> nat \<Rightarrow> addr \<Rightarrow> bool" where
  "chain_ends R 0 a = False"
| "chain_ends R (Suc n) a = (case next_chunk R a of None \<Rightarrow> True | Some p \<Rightarrow> chain_ends R n p)"

lemma chunk_update_returns:
  "chain_ends R n a \<Longrightarrow> \<exists>y. chunk_update R a sc = Some y"
proof (induction n arbitrary: a sc)
  case (Suc n)
  show ?case
  proof (cases "next_chunk R a")
    case None
    then show ?thesis
      by (subst chunk_update.simps)
        (auto simp: next_chunk_def Let_def split: option.splits if_splits prod.splits)
  next
    case (Some p)
    then obtain y where "chunk_update R p (case sc_previous sc of None \<Rightarrow> new_chunk | Some p \<Rightarrow> p) = Some y"
      using Suc by fastforce
    with Some show ?thesis
      by (subst chunk_update.simps)
        (auto simp: next_chunk_def Let_def split: option.splits if_splits prod.splits sum.splits)
  qed
qed simp

lemma chunk_update_returned:
  assumes "chunk_update R a sc = Some y"
  shows "\<exists>n. chain_ends R n a"
proof (rule chunk_update.raw_induct [OF _ assms, where P = "\<lambda>R a sc y. \<exists>n. chain_ends R n a"])
  fix f R a sc y
  assume IH: "\<And>R a sc y. f R a sc = Some y \<Longrightarrow> \<exists>n. chain_ends R n a"
    and body: "(case copy_type (rd_chunk R) a of
        None \<Rightarrow> Some (Inl StackChunkError, sc)
      | Some chunk \<Rightarrow>
          if MAX_CHUNK_SIZE < chunk_size chunk then Some (Inl StackChunkError, sc)
          else
            (let (data, cap) = chunk_grow (chunk_size chunk) (sc_data sc) (sc_capacity sc) in
             case copy_generic (rd_raw R) a (int (chunk_size chunk)) of
               None \<Rightarrow> Some (Inl StackChunkError, StackChunk a data cap (sc_previous sc))
             | Some bytes \<Rightarrow>
                 (let data = bytes @ drop (length bytes) data in
                  if chunk_previous chunk = NULL
                  then Some (Inr (), StackChunk a data cap (sc_previous sc))
                  else
                    do { (r, p) \<leftarrow> f R (chunk_previous chunk)
                                    (case sc_previous sc of None \<Rightarrow> new_chunk | Some p \<Rightarrow> p);
                         Some (Inr (), StackChunk a data cap
                                 (case r of Inl e \<Rightarrow> None | Inr u \<Rightarrow> Some p)) }))) = Some y"
  show "\<exists>n. chain_ends R n a"
  proof (cases "next_chunk R a")
    case None
    then have "chain_ends R 1 a"
      by simp
    then show ?thesis ..
  next
    case (Some p)
    then obtain z where "f R p (case sc_previous sc of None \<Rightarrow> new_chunk | Some p \<Rightarrow> p) = Some z"
      using body by (auto simp: next_chunk_def Let_def bind_eq_Some_iff split: option.splits if_splits prod.splits)
    then obtain n where "chain_ends R n p"
      using IH by blast
    with Some have "chain_ends R (Suc n) a"
      by simp
    then show ?thesis ..
  qed
qed

text \<open>The two ways to succeed.\<close>

lemma chunk_update_success:
  assumes "chunk_update R a sc = Some (Inr u, sc')"
  obtains chunk bytes data cap previous where
    "copy_type (rd_chunk R) a = Some chunk" "chunk_size chunk \<le> MAX_CHUNK_SIZE"
    "copy_generic (rd_raw R) a (int (chunk_size chunk)) = Some bytes"
    "chunk_grow (chunk_size chunk) (sc_data sc) (sc_capacity sc) = (data, cap)"
    "sc' = StackChunk a (bytes @ drop (length bytes) data) cap previous"
    "(case next_chunk R a of
        None \<Rightarrow> previous = sc_previous sc
      | Some p \<Rightarrow> \<exists>r q. chunk_update R p (case sc_previous sc of None \<Rightarrow> new_chunk | Some p \<Rightarrow> p) = Some (r, q)
           \<and> previous = (case r of Inl e \<Rightarrow> None | Inr u \<Rightarrow> Some q))"
  using assms
  by (subst (asm) chunk_update.simps)
    (auto simp: next_chunk_def Let_def bind_eq_Some_iff split: option.splits if_splits prod.splits)


section \<open>Reading through the copies\<close>

text \<open>
  Memory that does not change: \<open>mem\<close> is its content, and the typed reads are decodings of
  it. A chunk is at least as large as its own header.
\<close>

definition read_mem :: "(nat \<Rightarrow> byte option) \<Rightarrow> nat \<Rightarrow> nat \<Rightarrow> byte list option" where
  "read_mem mem a n =
     (if list_all (\<lambda>i. mem (a + i) \<noteq> None) [0..<n] then Some (map (\<lambda>i. the (mem (a + i))) [0..<n]) else None)"

definition steady :: "remote \<Rightarrow> (nat \<Rightarrow> byte option) \<Rightarrow> bool" where
  "steady R mem \<longleftrightarrow>
     (\<forall>a n. rd_raw R a n = read_mem mem (unat a) n)
     \<and> (\<forall>a. rd_iframe R a = map_option (dec_iframe R) (read_mem mem (unat a) (sizeof_iframe R)))
     \<and> (\<forall>a. map_option chunk_size (rd_chunk R a)
            = map_option (dec_chunk_size R) (read_mem mem (unat a) (sizeof_chunk R)))
     \<and> (\<forall>a chunk. rd_chunk R a = Some chunk \<longrightarrow> sizeof_chunk R \<le> chunk_size chunk)"

text \<open>A copy agrees with the memory it was taken from, and so do those behind it; its
  capacity is its length.\<close>

abbreviation data_size :: "remote \<Rightarrow> byte list \<Rightarrow> nat" where
  "data_size R data \<equiv> dec_chunk_size R (take (sizeof_chunk R) data)"

fun chunk_agrees :: "remote \<Rightarrow> (nat \<Rightarrow> byte option) \<Rightarrow> stack_chunk \<Rightarrow> bool" where
  "chunk_agrees R mem (StackChunk origin data cap previous) =
     (4096 \<le> unat origin \<and> length data = cap \<and> data_size R data \<le> cap \<and> data_size R data \<le> MAX_CHUNK_SIZE
      \<and> read_mem mem (unat origin) (data_size R data) = Some (take (data_size R data) data)
      \<and> (case previous of None \<Rightarrow> True | Some p \<Rightarrow> chunk_agrees R mem p))"

text \<open>What an update may start from: a new object, or one that agrees already.\<close>

definition chunk_ready :: "remote \<Rightarrow> (nat \<Rightarrow> byte option) \<Rightarrow> stack_chunk \<Rightarrow> bool" where
  "chunk_ready R mem sc \<longleftrightarrow> length (sc_data sc) = sc_capacity sc
     \<and> (case sc_previous sc of None \<Rightarrow> True | Some p \<Rightarrow> chunk_agrees R mem p)"

lemma chunk_ready_new [simp]: "chunk_ready R mem new_chunk"
  by (simp add: chunk_ready_def new_chunk_def)

lemma chunk_agrees_ready: "chunk_agrees R mem sc \<Longrightarrow> chunk_ready R mem sc"
  by (cases sc) (simp add: chunk_ready_def)

lemma read_mem_length: "read_mem mem a n = Some bs \<Longrightarrow> length bs = n"
  by (auto simp: read_mem_def split: if_splits)

lemma read_mem_drop:
  assumes "read_mem mem a n = Some bs" "off + k \<le> n"
  shows "read_mem mem (a + off) k = Some (take k (drop off bs))"
proof -
  have bs: "bs = map (\<lambda>i. the (mem (a + i))) [0..<n]" and all: "\<forall>i<n. mem (a + i) \<noteq> None"
    using assms(1) by (auto simp: read_mem_def list_all_iff split: if_splits)
  have "take k (drop off bs) = map (\<lambda>i. the (mem (a + off + i))) [0..<k]"
    using assms(2) by (intro nth_equalityI) (auto simp: bs add.assoc)
  moreover have "mem (a + off + i) \<noteq> None" if "i < k" for i
    using all [rule_format, of "off + i"] assms(2) that by (simp add: add.assoc)
  ultimately show ?thesis
    by (simp add: read_mem_def list_all_iff)
qed

lemma read_mem_take:
  "read_mem mem a n = Some bs \<Longrightarrow> k \<le> n \<Longrightarrow> read_mem mem a k = Some (take k bs)"
  using read_mem_drop [of mem a n bs 0 k] by simp

lemma chunk_grow_length:
  "chunk_grow sz data cap = (data', cap') \<Longrightarrow> length data = cap \<Longrightarrow> sz \<le> cap' \<and> length data' = cap'"
  by (auto simp: chunk_grow_def split: if_splits)

lemma chunk_update_agrees:
  assumes "steady R mem" "chunk_update R a sc = Some (Inr u, sc')" "chunk_ready R mem sc"
  shows "chunk_agrees R mem sc'"
proof -
  obtain n where "chain_ends R n a"
    using chunk_update_returned [OF assms(2)] by blast
  then show ?thesis
    using assms(2,3)
  proof (induction n arbitrary: a sc sc' u)
    case (Suc n)
    from Suc.prems(2) show ?case
    proof (cases rule: chunk_update_success)
      case (1 chunk bytes data cap previous)
      let ?d = "bytes @ drop (length bytes) data"
      have chunk: "rd_chunk R a = Some chunk" and low: "4096 \<le> unat a"
        using copy_type_SomeD [OF 1(1)] by auto
      have big: "sizeof_chunk R \<le> chunk_size chunk"
        using assms(1) chunk by (simp add: steady_def)
      have bytes: "read_mem mem (unat a) (chunk_size chunk) = Some bytes"
        using 1(3) assms(1) low
        by (auto simp: copy_generic_def steady_def read_mem_def not_le split: if_splits)
      then have len: "length bytes = chunk_size chunk"
        by (rule read_mem_length)
      have "read_mem mem (unat a) (sizeof_chunk R) = Some (take (sizeof_chunk R) ?d)"
        using read_mem_take [OF bytes big] big by (simp add: len)
      moreover have "map_option chunk_size (rd_chunk R a)
          = map_option (dec_chunk_size R) (read_mem mem (unat a) (sizeof_chunk R))"
        using assms(1) unfolding steady_def by blast
      ultimately have size: "data_size R ?d = chunk_size chunk"
        using chunk by simp
      have cap: "chunk_size chunk \<le> cap" "length data = cap"
        using chunk_grow_length [OF 1(4)] Suc.prems(3) by (auto simp: chunk_ready_def)
      have prev: "case previous of None \<Rightarrow> True | Some p \<Rightarrow> chunk_agrees R mem p"
      proof (cases "next_chunk R a")
        case None
        then show ?thesis
          using 1(6) Suc.prems(3) by (simp add: chunk_ready_def)
      next
        case (Some p)
        then obtain r q where q: "chunk_update R p (case sc_previous sc of None \<Rightarrow> new_chunk | Some p \<Rightarrow> p) = Some (r, q)"
          "previous = (case r of Inl e \<Rightarrow> None | Inr u \<Rightarrow> Some q)"
          using 1(6) by auto
        have "chunk_ready R mem (case sc_previous sc of None \<Rightarrow> new_chunk | Some p \<Rightarrow> p)"
          using Suc.prems(3) chunk_agrees_ready
          by (cases "sc_previous sc") (auto simp: chunk_ready_def [of R mem sc])
        with Suc.IH [of p] Suc.prems(1) Some q show ?thesis
          by (cases r) auto
      qed
      have "take (data_size R ?d) ?d = bytes"
        using len size by simp
      then show ?thesis
        using 1(2,5) bytes low cap len prev size by simp
    qed
  qed simp
qed

text \<open>An address found in a copy is read there as it would be in memory.\<close>

lemma chunk_resolve_agrees:
  assumes "steady R mem" "chunk_agrees R mem sc" "chunk_resolve R sc address = Local data off"
  shows "\<exists>origin. 4096 \<le> unat address \<and> unat address = origin + off \<and> data_size R data \<le> length data
    \<and> read_mem mem origin (data_size R data) = Some (take (data_size R data) data)"
  using assms
proof (induction R sc address rule: chunk_resolve.induct)
  case (1 R origin d cap previous address)
  let ?sz = "data_size R d"
  show ?case
  proof (cases "chunk_is_valid R (StackChunk origin d cap previous) \<and> origin \<le> address
      \<and> address < origin + of_nat ?sz")
    case True
    then have local: "data = d" "off = unat (address - origin)"
      using 1(4) by auto
    have "unat origin \<le> unat address"
      using True by (simp add: word_le_nat_alt)
    moreover from this have "unat address = unat origin + off"
      using True by (simp add: local unat_sub)
    ultimately show ?thesis
      using 1(3) local by (intro exI [of _ "unat origin"]) simp
  next
    case False
    have valid: "chunk_is_valid R (StackChunk origin d cap previous)"
      using 1(4) by (auto split: if_splits)
    with False 1(4) obtain p where p: "previous = Some p" "chunk_resolve R p address = Local data off"
      by (auto simp: Let_def split: option.splits if_splits)
    then show ?thesis
      using 1(1) [OF _ refl _ p(1) 1(2) _ p(2)] valid False 1(3) by auto
  qed
qed

lemma chunk_resolve_Unresolved: "chunk_resolve R sc address = Unresolved b \<Longrightarrow> b = address"
  by (induction R sc address rule: chunk_resolve.induct)
    (auto simp: Let_def split: if_splits option.splits)

section \<open>Properties\<close>

text \<open>The structure at an address does not cross the end of the copy it is found in: CPython
  allocates a frame within one chunk.\<close>

definition frame_fits :: "remote \<Rightarrow> stack_chunk option \<Rightarrow> addr \<Rightarrow> bool" where
  "frame_fits R stack_chunk a =
     (case stack_chunk of
        None \<Rightarrow> True
      | Some sc \<Rightarrow>
          (case chunk_resolve R sc a of
             Unresolved _ \<Rightarrow> True
           | Local data off \<Rightarrow> off + sizeof_iframe R \<le> data_size R data))"


text \<open>A chunk of 64 zero bytes at 65536, whose size reads as 64.\<close>

definition zero_mem :: "nat \<Rightarrow> byte option" where
  "zero_mem i = (if 65536 \<le> i \<and> i < 65600 then Some 0 else None)"

definition zero_remote :: remote where
  "zero_remote = no_memory\<lparr>
     rd_raw := (\<lambda>a n. read_mem zero_mem (unat a) n),
     rd_iframe := (\<lambda>a. map_option (\<lambda>_. no_iframe) (read_mem zero_mem (unat a) 8)),
     rd_chunk := (\<lambda>a. map_option (\<lambda>_. \<lparr>chunk_previous = 0, chunk_size = 64\<rparr>) (read_mem zero_mem (unat a) 24)),
     dec_chunk_size := (\<lambda>_. 64), sizeof_iframe := 8\<rparr>"

lemma zero_remote_steady: "steady zero_remote zero_mem"
  unfolding steady_def
  by (auto simp: zero_remote_def no_memory_def zero_mem_def option.map_comp comp_def split: if_splits)

lemma zero_remote_refresh:
  "refresh_stack_chunk zero_remote 65536 None
     = Some (Some (StackChunk 65536 (replicate 64 0) 64 None))"
proof -
  have "read_mem zero_mem 65536 24 = Some (replicate 24 0)"
    "read_mem zero_mem 65536 64 = Some (replicate 64 0)"
    by (auto simp: read_mem_def zero_mem_def list_all_iff intro: nth_equalityI)
  then show ?thesis
    by (subst refresh_stack_chunk_def, subst chunk_update.simps)
      (simp add: zero_remote_def no_memory_def copy_type_def copy_generic_def MAX_CHUNK_SIZE_def
        new_chunk_def chunk_grow_def)
qed


text \<open>C15: \<open>StackChunk::update\<close> returns exactly when the chain of chunks it reads ends: in a
  chunk without a \<open>previous\<close>, or one that is unreadable or too large. Nothing bounds the
  recursion: on a chunk that is its own \<open>previous\<close> it does not return.\<close>

theorem chunk_update_terminates_iff:
  "(chunk_update R a sc \<noteq> None \<longleftrightarrow> (\<exists>n. chain_ends R n a))
   \<and> (next_chunk R b = Some b \<longrightarrow> chunk_update R b sc = None)"
proof
  show iff: "chunk_update R a sc \<noteq> None \<longleftrightarrow> (\<exists>n. chain_ends R n a)"
    using chunk_update_returns [of R _ a sc] chunk_update_returned [of R a sc] by auto
  show "next_chunk R b = Some b \<longrightarrow> chunk_update R b sc = None"
  proof
    assume "next_chunk R b = Some b"
    then have "\<not> chain_ends R n b" for n
      by (induction n) simp_all
    then show "chunk_update R b sc = None"
      using chunk_update_returned [of R b sc] by (cases "chunk_update R b sc") auto
  qed
qed

text \<open>Memory whose one chunk names itself.\<close>

definition self_chunk :: remote where
  "self_chunk = no_memory\<lparr>rd_chunk := (\<lambda>a. Some \<lparr>chunk_previous = a, chunk_size = 64\<rparr>),
     rd_raw := (\<lambda>_ n. Some (replicate n 0))\<rparr>"

theorem chunk_update_terminates_iff_witness:
  "chunk_update self_chunk 65536 new_chunk = None"
proof -
  have "next_chunk self_chunk 65536 = Some 65536"
    by (simp add: next_chunk_def self_chunk_def no_memory_def copy_type_def copy_generic_def MAX_CHUNK_SIZE_def)
  then show ?thesis
    using chunk_update_terminates_iff [of self_chunk 65536 new_chunk 65536] by blast
qed

text \<open>A copy that has lost its successor keeps the old one. When the chunk just read has no
  \<open>previous\<close>, the object behind it stays from the last update, of this thread or of
  another, and every address outside the new chunk is still resolved in it.\<close>

theorem chunk_update_keeps_stale:
  assumes "chunk_update R a sc = Some (Inr u, sc')" "next_chunk R a = None"
    and "sc_previous sc = Some old" "chunk_is_valid R sc'"
    and "address < a \<or> a + of_nat (data_size R (sc_data sc')) \<le> address"
  shows "chunk_resolve R sc' address = chunk_resolve R old address"
  using assms(1)
proof (cases rule: chunk_update_success)
  case (1 chunk bytes data cap previous)
  then show ?thesis
    using assms(2-5) by (auto simp: Let_def not_le not_less)
qed

theorem chunk_update_keeps_stale_witness:
  "\<exists>sc'. chunk_update zero_remote 65536
       (StackChunk 131072 [] 0 (Some (StackChunk 131072 (replicate 64 7) 64 None))) = Some (Inr (), sc')
     \<and> chunk_resolve zero_remote sc' 131080 = Local (replicate 64 7) 8"
proof -
  let ?old = "StackChunk 131072 (replicate 64 7) 64 None"
  let ?new = "StackChunk 65536 (replicate 64 0) 64 (Some ?old)"
  have mem: "read_mem zero_mem 65536 24 = Some (replicate 24 0)"
    "read_mem zero_mem 65536 64 = Some (replicate 64 0)"
    by (auto simp: read_mem_def zero_mem_def list_all_iff intro: nth_equalityI)
  have run: "chunk_update zero_remote 65536 (StackChunk 131072 [] 0 (Some ?old)) = Some (Inr (), ?new)"
    using mem by (subst chunk_update.simps)
      (simp add: zero_remote_def no_memory_def copy_type_def copy_generic_def MAX_CHUNK_SIZE_def
        chunk_grow_def)
  moreover have "next_chunk zero_remote 65536 = None"
    using mem by (simp add: next_chunk_def zero_remote_def no_memory_def copy_type_def)
  moreover have "chunk_is_valid zero_remote ?new"
    by (simp add: chunk_is_valid_def zero_remote_def no_memory_def)
  ultimately have "chunk_resolve zero_remote ?new 131080 = chunk_resolve zero_remote ?old 131080"
    using chunk_update_keeps_stale [of zero_remote 65536 "StackChunk 131072 [] 0 (Some ?old)" "()" ?new ?old 131080]
    by (simp add: zero_remote_def)
  then show ?thesis
    using run by (simp add: chunk_is_valid_def zero_remote_def no_memory_def)
qed

end
