(* ===== verification/Frames.thy ===== *)
theory Frames
  imports Linetable Chunks Cache
begin

text \<open>
  \<open>class Frame\<close> of \<open>echion/frame.h\<close> and \<open>echion/frame.cc\<close>: the frames of the profile, the
  cache that owns them, and the ways to get one. A frame is an object on the heap that
  lives as long as its entry in \<open>frame_cache\<close>; stacks hold references. Reading through a
  reference whose object is gone, or through the cache when it is null, is \<^term>\<open>None\<close>.
\<close>

section \<open>References and the state\<close>

text \<open>The three static objects are never changed.\<close>

datatype frame_ref = INVALID_FRAME | UNKNOWN_FRAME | C_FRAME_REF | FrameRef nat

record frames_state = strings_state +
  frame_heap :: "nat \<rightharpoonup> frame"
  next_frame :: nat
  frame_cache :: "(addr, nat) lru option"
  stack_chunk :: "stack_chunk option"

fun deref :: "frame_ref \<Rightarrow> 'a frames_state_scheme \<Rightarrow> frame option" where
  "deref INVALID_FRAME s = Some (new_frame 0 INVALID)"
| "deref UNKNOWN_FRAME s = Some (new_frame 0 UNKNOWN)"
| "deref C_FRAME_REF s = Some (new_frame 0 C_FRAME)"
| "deref (FrameRef n) s = frame_heap s n"

definition init_frame_cache :: "nat \<Rightarrow> 'a frames_state_scheme \<Rightarrow> 'a frames_state_scheme" where
  "init_frame_cache cap s = s\<lparr>frame_cache := Some (lru_new cap)\<rparr>"

text \<open>Deleting the cache destroys the frames it owns.\<close>

definition reset_frame_cache :: "'a frames_state_scheme \<Rightarrow> 'a frames_state_scheme" where
  "reset_frame_cache s =
     (case frame_cache s of
        None \<Rightarrow> s
      | Some c \<Rightarrow> s\<lparr>frame_cache := None,
                    frame_heap := (\<lambda>n. if n \<in> snd ` set (lru_abs c) then None else frame_heap s n)\<rparr>)"

text \<open>\<open>frame_cache->lookup\<close> and \<open>frame_cache->store\<close>.\<close>

definition cache_lookup ::
  "addr \<Rightarrow> 'a frames_state_scheme \<Rightarrow> (frame_ref result \<times> 'a frames_state_scheme) option" where
  "cache_lookup key s =
     do { c \<leftarrow> frame_cache s;
          (r, c) \<leftarrow> lru_lookup c key;
          Some (map_sum id FrameRef r, s\<lparr>frame_cache := Some c\<rparr>) }"

text \<open>
  The end all four \<open>get\<close> have in common: the new frame gets its key, the renderer is told,
  and the cache takes it over, which may destroy another frame.
\<close>

definition frame_call :: "frame \<Rightarrow> rcall" where
  "frame_call f =
     R_frame (cache_key f) (fr_filename f) (fr_name f) (scast (fr_line f)) (scast (fr_line_end f))
       (scast (fr_column f)) (scast (fr_column_end f))"

definition cache_frame ::
  "addr \<Rightarrow> frame \<Rightarrow> 'a frames_state_scheme \<Rightarrow> (frame_ref \<times> 'a frames_state_scheme) option" where
  "cache_frame key f s =
     (let f = f\<lparr>cache_key := key\<rparr>;
          n = next_frame s;
          s = emit (frame_call f) (s\<lparr>next_frame := Suc n, frame_heap := (frame_heap s)(n \<mapsto> f)\<rparr>)
      in do { c \<leftarrow> frame_cache s;
              (c, evicted) \<leftarrow> lru_store c key n;
              Some (FrameRef n,
                s\<lparr>frame_cache := Some c,
                  frame_heap := (case evicted of None \<Rightarrow> frame_heap s | Some m \<Rightarrow> (frame_heap s)(m := None))\<rparr>) })"

section \<open>Keys\<close>

text \<open>
  \<open>(code << 16) | lasti\<close>: \<open>lasti\<close> is an \<open>int\<close>, so it is sign extended to the width of the
  key.
\<close>

definition frame_key :: "addr \<Rightarrow> i32 \<Rightarrow> addr" where
  "frame_key code lasti = push_bit 16 code OR scast lasti"

text \<open>
  The instruction index: the difference of two pointers to code units of two bytes,
  truncated to \<open>int\<close>, less the offset of the code in its object.
\<close>

definition lasti_of :: "py_version \<Rightarrow> remote \<Rightarrow> py_iframe \<Rightarrow> i32" where
  "lasti_of V R iframe =
     (let instr = (if V313 \<le> V then if_instr iframe - 2 else if_instr iframe)
      in ucast (signed_drop_bit 1 (instr - if_code iframe)) - ucast (drop_bit 1 (off_co_code R)))"

section \<open>Creating frames\<close>

definition frame_create ::
  "py_version \<Rightarrow> remote \<Rightarrow> i32 list \<Rightarrow> py_code \<Rightarrow> i32 \<Rightarrow> 'a frames_state_scheme
     \<Rightarrow> (frame result \<times> 'a frames_state_scheme) option" where
  "frame_create V R stk code lasti s =
     (case string_key V R stk (co_filename code) s of
        (Inl e, s) \<Rightarrow> Some (Inl FrameError, s)
      | (Inr filename, s) \<Rightarrow>
          (case string_key V R stk (if V311 \<le> V then co_qualname code else co_name code) s of
             (Inl e, s) \<Rightarrow> Some (Inl FrameError, s)
           | (Inr name, s) \<Rightarrow>
               (case infer_location V R code lasti (new_frame filename name) of
                  None \<Rightarrow> None
                | Some (Inl e) \<Rightarrow> Some (Inl LocationError, s)
                | Some (Inr f) \<Rightarrow> Some (Inr f, s))))"

definition frame_create_native ::
  "(string \<Rightarrow> string option) \<Rightarrow> unw_cursor \<Rightarrow> addr \<Rightarrow> 'a frames_state_scheme
     \<Rightarrow> frame result \<times> 'a frames_state_scheme" where
  "frame_create_native demangle cursor pc s =
     (case string_key_pc pc s of
        (filename, s) \<Rightarrow>
          (case string_key_cursor demangle cursor s of
             (Inl e, s) \<Rightarrow> (Inl FrameError, s)
           | (Inr name, s) \<Rightarrow> (Inr (new_frame filename name), s)))"

text \<open>
  What the unsafe operations ask of the interpreter: the instruction index of a frame,
  \<open>PyCode_Addr2Location\<close> (line, column, end line, end column), \<open>PyFrame_GetLineNumber\<close>,
  the conversions of \<open>key_unsafe\<close>, and whether an executable is a code object.
\<close>

record cpython_api =
  api_lasti :: "addr \<Rightarrow> i32"
  api_addr2location :: "addr \<Rightarrow> i32 \<Rightarrow> i32 \<times> i32 \<times> i32 \<times> i32"
  api_lineno :: "addr \<Rightarrow> i32"
  api_as_long :: "addr \<Rightarrow> int option"
  api_as_utf8 :: "addr \<Rightarrow> string"
  api_is_code :: "addr \<Rightarrow> bool"

text \<open>\<open>Frame(PyObject*)\<close> follows the interpreter's own pointers: an unreadable one is
  undefined.\<close>

definition frame_of_pyobject ::
  "py_version \<Rightarrow> remote \<Rightarrow> cpython_api \<Rightarrow> addr \<Rightarrow> 'a frames_state_scheme
     \<Rightarrow> (frame \<times> 'a frames_state_scheme) option" where
  "frame_of_pyobject V R api frame s =
     (if V311 \<le> V then
        do { iframe \<leftarrow> rd_iframe R frame;
             code \<leftarrow> rd_code R (if_code iframe);
             let (line, column, line_end, column_end) =
                   api_addr2location api (if_code iframe) (push_bit 1 (api_lasti api frame));
             let (name, s) = string_key_unsafe V (api_as_long api) (api_as_utf8 api) (co_qualname code) s;
             let is_entry' = (if V312 \<le> V then if_owner iframe = FRAME_OWNED_BY_CSTACK else if_is_entry iframe);
             let (filename, s) = string_key_unsafe V (api_as_long api) (api_as_utf8 api) (co_filename code) s;
             Some ((new_frame filename name)\<lparr>fr_line := line, fr_line_end := line_end,
                      fr_column := column + 1, fr_column_end := column_end + 1, is_entry := is_entry'\<rparr>, s) }
      else
        do { py_frame \<leftarrow> rd_frame R frame;
             code \<leftarrow> rd_code R (f_code py_frame);
             let (name, s) = string_key_unsafe V (api_as_long api) (api_as_utf8 api) (co_name code) s;
             let (filename, s) = string_key_unsafe V (api_as_long api) (api_as_utf8 api) (co_filename code) s;
             Some ((new_frame filename name)\<lparr>fr_line := api_lineno api frame\<rparr>, s) })"

definition frame_key_of_pyobject :: "py_version \<Rightarrow> remote \<Rightarrow> cpython_api \<Rightarrow> addr \<Rightarrow> addr option" where
  "frame_key_of_pyobject V R api frame =
     (if V311 \<le> V
      then do { iframe \<leftarrow> rd_iframe R frame; Some (frame_key (if_code iframe) (api_lasti api frame)) }
      else do { py_frame \<leftarrow> rd_frame R frame; Some (frame_key (f_code py_frame) (f_lasti py_frame)) })"

section \<open>Getting frames\<close>

text \<open>\<open>Frame::get(code_addr, lasti)\<close>: failures become the invalid frame.\<close>

definition frame_get ::
  "py_version \<Rightarrow> remote \<Rightarrow> i32 list \<Rightarrow> addr \<times> i32 \<Rightarrow> 'a frames_state_scheme
     \<Rightarrow> (frame_ref result \<times> 'a frames_state_scheme) option" where
  "frame_get V R stk x s =
     (let (code_addr, lasti) = x;
          key = frame_key code_addr lasti
      in do { (r, s) \<leftarrow> cache_lookup key s;
              case r of
                Inr f \<Rightarrow> Some (Inr f, s)
              | Inl _ \<Rightarrow>
                  (case copy_type (rd_code R) code_addr of
                     None \<Rightarrow> Some (Inr INVALID_FRAME, s)
                   | Some code \<Rightarrow>
                       do { (r, s) \<leftarrow> frame_create V R stk code lasti s;
                            case r of
                              Inl _ \<Rightarrow> Some (Inr INVALID_FRAME, s)
                            | Inr f \<Rightarrow> do { (ref, s) \<leftarrow> cache_frame key f s; Some (Inr ref, s) } }) })"

definition frame_get_unsafe ::
  "py_version \<Rightarrow> remote \<Rightarrow> cpython_api \<Rightarrow> addr \<Rightarrow> 'a frames_state_scheme
     \<Rightarrow> (frame_ref result \<times> 'a frames_state_scheme) option" where
  "frame_get_unsafe V R api frame s =
     do { key \<leftarrow> frame_key_of_pyobject V R api frame;
          (r, s) \<leftarrow> cache_lookup key s;
          case r of
            Inr f \<Rightarrow> Some (Inr f, s)
          | Inl _ \<Rightarrow>
              do { (f, s) \<leftarrow> frame_of_pyobject V R api frame s;
                   (ref, s) \<leftarrow> cache_frame key f s;
                   Some (Inr ref, s) } }"

definition frame_get_native ::
  "(string \<Rightarrow> string option) \<Rightarrow> unw_cursor \<Rightarrow> 'a frames_state_scheme
     \<Rightarrow> (frame_ref result \<times> 'a frames_state_scheme) option" where
  "frame_get_native demangle cursor s =
     (let pc = cur_ip cursor in
      if pc = 0 then Some (Inl FrameError, s)
      else
        do { (r, s) \<leftarrow> cache_lookup pc s;
             case r of
               Inr f \<Rightarrow> Some (Inr f, s)
             | Inl _ \<Rightarrow>
                 (case frame_create_native demangle cursor pc s of
                    (Inl _, s) \<Rightarrow> Some (Inr UNKNOWN_FRAME, s)
                  | (Inr f, s) \<Rightarrow> do { (ref, s) \<leftarrow> cache_frame pc f s; Some (Inr ref, s) }) })"

definition frame_get_name ::
  "addr \<Rightarrow> 'a frames_state_scheme \<Rightarrow> (frame_ref result \<times> 'a frames_state_scheme) option" where
  "frame_get_name name s =
     do { (r, s) \<leftarrow> cache_lookup name s;
          case r of
            Inr f \<Rightarrow> Some (Inr f, s)
          | Inl _ \<Rightarrow> do { (ref, s) \<leftarrow> cache_frame name (new_frame 0 name) s; Some (Inr ref, s) } }"

section \<open>Reading frames\<close>

text \<open>\<open>frame.is_entry = ...\<close> through the reference; \<open>get\<close> gives no other static object.\<close>

fun set_is_entry :: "frame_ref \<Rightarrow> bool \<Rightarrow> 'a frames_state_scheme \<Rightarrow> 'a frames_state_scheme option" where
  "set_is_entry INVALID_FRAME b s = Some s"
| "set_is_entry (FrameRef n) b s =
     (case frame_heap s n of
        None \<Rightarrow> None
      | Some f \<Rightarrow> Some (s\<lparr>frame_heap := (frame_heap s)(n \<mapsto> f\<lparr>is_entry := b\<rparr>)\<rparr>))"
| "set_is_entry _ b s = None"

text \<open>
  The value is the frame and what \<open>*prev_addr\<close> holds afterwards; \<open>prev\<close> is what it held
  before.
\<close>

definition frame_read ::
  "py_version \<Rightarrow> remote \<Rightarrow> i32 list \<Rightarrow> addr \<times> addr \<Rightarrow> 'a frames_state_scheme
     \<Rightarrow> (frame_ref result \<times> addr \<times> 'a frames_state_scheme) option" where
  "frame_read V R stk x s =
     (let (frame_addr, prev) = x in
      if V311 \<le> V then
        do { r \<leftarrow> read_iframe R (stack_chunk s) frame_addr;
             case r of
               Inl _ \<Rightarrow> Some (Inl FrameError, prev, s)
             | Inr iframe \<Rightarrow>
                 if V312 \<le> V \<and> if_owner iframe = FRAME_OWNED_BY_CSTACK
                 then Some (Inr C_FRAME_REF, if_previous iframe, s)
                 else if V312 \<le> V \<and> if_owner iframe \<noteq> FRAME_OWNED_BY_THREAD
                   \<and> if_owner iframe \<noteq> FRAME_OWNED_BY_GENERATOR
                 then Some (Inl FrameError, prev, s)
                 else
                   do { (r, s) \<leftarrow> frame_get V R stk (if_code iframe, lasti_of V R iframe) s;
                        case r of
                          Inl _ \<Rightarrow> Some (Inl FrameError, prev, s)
                        | Inr ref \<Rightarrow>
                            do { s \<leftarrow> set_is_entry ref
                                   (if V312 \<le> V then if_owner iframe = FRAME_OWNED_BY_CSTACK
                                    else if_is_entry iframe) s;
                                 Some (Inr ref, if ref = INVALID_FRAME then NULL else if_previous iframe, s) } } }
      else
        (case copy_type (rd_frame R) frame_addr of
           None \<Rightarrow> Some (Inl FrameError, prev, s)
         | Some py_frame \<Rightarrow>
             do { (r, s) \<leftarrow> frame_get V R stk (f_code py_frame, f_lasti py_frame) s;
                  case r of
                    Inl _ \<Rightarrow> Some (Inl FrameError, prev, s)
                  | Inr ref \<Rightarrow>
                      Some (Inr ref, if ref = INVALID_FRAME then NULL else f_back py_frame, s) }))"


section \<open>The invariant\<close>

text \<open>
  What the reader of the stream relies on: a frame's definition names strings that have
  been defined, and a reference to a frame (but the invalid one, whose key is 0) comes
  after the frame's definition.
\<close>

fun defines_string :: "rcall \<Rightarrow> addr set" where
  "defines_string (R_string k str) = {k}"
| "defines_string _ = {}"

fun defines_frame :: "rcall \<Rightarrow> addr set" where
  "defines_frame (R_frame k fn nm l le c ce) = {k}"
| "defines_frame _ = {}"

fun call_ok :: "addr set \<Rightarrow> addr set \<Rightarrow> rcall \<Rightarrow> bool" where
  "call_ok S F (R_frame k fn nm l le c ce) = (fn \<in> S \<and> nm \<in> S)"
| "call_ok S F (R_render_frame f) = (cache_key f = 0 \<or> cache_key f \<in> F)"
| "call_ok S F (R_frame_ref k) = (k = 0 \<or> k \<in> F)"
| "call_ok S F (R_string_ref k) = (k \<in> S)"
| "call_ok S F _ = True"

fun refs_ok :: "addr set \<Rightarrow> addr set \<Rightarrow> rcall list \<Rightarrow> bool" where
  "refs_ok S F [] = True"
| "refs_ok S F (c # cs) =
     (call_ok S F c \<and> refs_ok (S \<union> defines_string c) (F \<union> defines_frame c) cs)"

abbreviation string_keys :: "rcall list \<Rightarrow> addr set" where
  "string_keys cs \<equiv> \<Union> (defines_string ` set cs)"

abbreviation frame_keys :: "rcall list \<Rightarrow> addr set" where
  "frame_keys cs \<equiv> \<Union> (defines_frame ` set cs)"

lemma refs_ok_append:
  "refs_ok S F (cs @ ds)
     \<longleftrightarrow> refs_ok S F cs \<and> refs_ok (S \<union> string_keys cs) (F \<union> frame_keys cs) ds"
  by (induction cs arbitrary: S F) (auto simp: Un_assoc)

lemma refs_ok_snoc:
  "refs_ok S F (cs @ [c])
     \<longleftrightarrow> refs_ok S F cs \<and> call_ok (S \<union> string_keys cs) (F \<union> frame_keys cs) c"
  by (simp add: refs_ok_append)

text \<open>The recency list, and the frames it owns.\<close>

definition cache_entries :: "'a frames_state_scheme \<Rightarrow> (addr \<times> nat) list" where
  "cache_entries s = (case frame_cache s of None \<Rightarrow> [] | Some c \<Rightarrow> lru_abs c)"

definition cache_cap :: "'a frames_state_scheme \<Rightarrow> nat" where
  "cache_cap s = (case frame_cache s of None \<Rightarrow> 0 | Some c \<Rightarrow> capacity c)"

definition cache_owns :: "'a frames_state_scheme \<Rightarrow> bool" where
  "cache_owns s \<longleftrightarrow>
     (case frame_cache s of None \<Rightarrow> True | Some c \<Rightarrow> lru_ok c)
     \<and> distinct (map snd (cache_entries s))
     \<and> dom (frame_heap s) = snd ` set (cache_entries s)
     \<and> (\<forall>k n f. (k, n) \<in> set (cache_entries s) \<longrightarrow> frame_heap s n = Some f \<longrightarrow> cache_key f = k)
     \<and> (\<forall>n \<in> dom (frame_heap s). n < next_frame s)"

text \<open>The strings of a frame that has been made are in the table.\<close>

definition names_interned :: "frame \<Rightarrow> 'a frames_state_scheme \<Rightarrow> bool" where
  "names_interned f s \<longleftrightarrow>
     string_table s (fr_filename f) \<noteq> None \<and> string_table s (fr_name f) \<noteq> None"

lemma names_interned_table:
  "string_table s' = string_table s \<Longrightarrow> names_interned f s' = names_interned f s"
  by (simp add: names_interned_def)

text \<open>No string has the key of the C frame, so no frame on the heap can pass for it.\<close>

definition frames_ok :: "'a frames_state_scheme \<Rightarrow> bool" where
  "frames_ok s \<longleftrightarrow>
     announced s \<and> refs_ok presets {} (calls s) \<and> cache_owns s
     \<and> (\<forall>k \<in> fst ` set (cache_entries s). k \<in> frame_keys (calls s))
     \<and> string_table s C_FRAME = None \<and> presets \<subseteq> dom (string_table s)
     \<and> (\<forall>n f. frame_heap s n = Some f \<longrightarrow> names_interned f s)"

text \<open>
  References that were used within the last \<open>n\<close> uses of the cache: they are alive, and stay
  alive as long as \<open>n\<close> is below the capacity.
\<close>

definition pinned :: "frame_ref list \<Rightarrow> nat \<Rightarrow> 'a frames_state_scheme \<Rightarrow> bool" where
  "pinned refs n s \<longleftrightarrow>
     (\<exists>T. recent T n (cache_entries s) \<and> (\<forall>m. FrameRef m \<in> set refs \<longrightarrow> m \<in> snd ` T))"

lemma pinned_Nil [simp]: "pinned [] n s"
  unfolding pinned_def by (intro exI [of _ "{}"]) simp

lemma frames_ok_dom: "frames_ok s \<Longrightarrow> dom (frame_heap s) = snd ` set (cache_entries s)"
  by (simp add: frames_ok_def cache_owns_def)

lemma frames_ok_entry:
  assumes "frames_ok s" "(k, n) \<in> set (cache_entries s)"
  obtains f where "frame_heap s n = Some f" "cache_key f = k" "k \<in> frame_keys (calls s)"
proof -
  have "n \<in> dom (frame_heap s)"
    unfolding frames_ok_dom [OF assms(1)] using assms(2) by (rule image_eqI [rotated]) simp
  then obtain f where f: "frame_heap s n = Some f"
    by blast
  moreover have "cache_key f = k"
    using assms f by (simp add: frames_ok_def cache_owns_def)
  moreover have "k \<in> frame_keys (calls s)"
    using assms by (force simp: frames_ok_def)
  ultimately show ?thesis
    by (rule that)
qed

lemma pinned_live:
  assumes "frames_ok s" "pinned refs n s" "ref \<in> set refs"
  shows "deref ref s \<noteq> None"
proof (cases ref)
  case (FrameRef m)
  then obtain T k where "recent T n (cache_entries s)" "(k, m) \<in> T"
    using assms(2,3) by (fastforce simp: pinned_def)
  then have "(k, m) \<in> set (cache_entries s)"
    by (rule recent_mem)
  with assms(1) FrameRef show ?thesis
    by (auto elim!: frames_ok_entry)
qed simp_all

lemma pinned_static: "pinned refs n s \<Longrightarrow> (\<And>m. ref \<noteq> FrameRef m) \<Longrightarrow> pinned (refs @ [ref]) (Suc n) s"
  unfolding pinned_def by (metis Un_iff empty_iff insert_iff le_SucI list.set(1) list.set(2)
      order_refl recent_mono set_append)

lemma pinned_subset: "pinned refs n s \<Longrightarrow> set refs' \<subseteq> set refs \<Longrightarrow> n \<le> m \<Longrightarrow> pinned refs' m s"
  unfolding pinned_def by (meson recent_mono subsetD order_refl)

text \<open>A call that a live frame makes legal.\<close>

lemma live_frame_key:
  assumes "frames_ok s" "deref ref s = Some f"
  shows "cache_key f = 0 \<or> cache_key f \<in> frame_keys (calls s)"
proof (cases ref)
  case (FrameRef n)
  then have "n \<in> snd ` set (cache_entries s)"
    using assms unfolding frames_ok_dom [OF assms(1), symmetric] by auto
  then obtain k where "(k, n) \<in> set (cache_entries s)"
    by force
  with assms FrameRef show ?thesis
    by (auto elim!: frames_ok_entry)
qed (use assms in \<open>auto simp: new_frame_def\<close>)

section \<open>What leaves the cache alone\<close>

lemma more_frames:
  assumes "strings_state.more s' = strings_state.more s"
  shows "frame_heap s' = frame_heap s" "next_frame s' = next_frame s" "frame_cache s' = frame_cache s"
    "stack_chunk s' = stack_chunk s" "frames_state.more s' = frames_state.more s"
proof -
  have eq: "s' = s\<lparr>string_table := string_table s', calls := calls s'\<rparr>"
    by (rule strings_state.equality) (simp_all add: assms)
  show "frame_heap s' = frame_heap s" "next_frame s' = next_frame s" "frame_cache s' = frame_cache s"
    "stack_chunk s' = stack_chunk s" "frames_state.more s' = frames_state.more s"
    using arg_cong [OF eq, of frame_heap] arg_cong [OF eq, of next_frame] arg_cong [OF eq, of frame_cache]
      arg_cong [OF eq, of stack_chunk] arg_cong [OF eq, of frames_state.more]
    by simp_all
qed

lemma more_cache:
  assumes "strings_state.more s' = strings_state.more s"
  shows "cache_entries s' = cache_entries s" "cache_cap s' = cache_cap s" "cache_owns s' = cache_owns s"
  unfolding cache_owns_def cache_entries_def cache_cap_def more_frames [OF assms] by (rule refl)+

lemma more_pinned:
  assumes "strings_state.more s' = strings_state.more s"
  shows "pinned refs n s' = pinned refs n s"
  unfolding pinned_def more_cache [OF assms] by (rule refl)

text \<open>The strings a step has interned are defined, so it keeps the invariant.\<close>

lemma string_keys_announced:
  "announced s \<Longrightarrow> string_table s k \<noteq> None \<Longrightarrow> k \<in> presets \<union> string_keys (calls s)"
  by (force simp: announced_def)

lemma extends_keys:
  "extends s s' \<Longrightarrow> string_keys (calls s) \<subseteq> string_keys (calls s')"
  "extends s s' \<Longrightarrow> frame_keys (calls s) \<subseteq> frame_keys (calls s')"
  by (auto simp: extends_def)


section \<open>Steps\<close>

text \<open>What every operation of this theory does to the rest of the state.\<close>

definition frame_step :: "'a frames_state_scheme \<Rightarrow> 'a frames_state_scheme \<Rightarrow> bool" where
  "frame_step s s' \<longleftrightarrow> extends s s' \<and> cache_cap s' = cache_cap s
     \<and> stack_chunk s' = stack_chunk s \<and> frames_state.more s' = frames_state.more s"

lemma frame_step_refl [simp, intro]: "frame_step s s"
  by (simp add: frame_step_def)

lemma frame_step_trans [trans]: "frame_step s t \<Longrightarrow> frame_step t u \<Longrightarrow> frame_step s u"
  by (auto simp: frame_step_def intro: extends_trans)

lemma refs_ok_strings:
  "list_all is_string_call cs \<Longrightarrow> refs_ok S F cs"
proof (induction cs arbitrary: S F)
  case (Cons c cs)
  then show ?case
    by (cases c) auto
qed simp

text \<open>A step that only interns strings.\<close>

definition string_step :: "'a frames_state_scheme \<Rightarrow> 'a frames_state_scheme \<Rightarrow> bool" where
  "string_step s s' \<longleftrightarrow> extends s s' \<and> (announced s \<longrightarrow> announced s')
     \<and> (string_table s C_FRAME = None \<longrightarrow> string_table s' C_FRAME = None)
     \<and> strings_state.more s' = strings_state.more s
     \<and> (\<exists>cs. calls s' = calls s @ cs \<and> list_all is_string_call cs)"

lemma string_step_refl [simp, intro]: "string_step s s"
  by (auto simp: string_step_def)

lemma string_step_trans:
  assumes "string_step s t" "string_step t u"
  shows "string_step s u"
proof -
  obtain cs ds where "calls t = calls s @ cs" "list_all is_string_call cs"
    "calls u = calls t @ ds" "list_all is_string_call ds"
    using assms by (auto simp: string_step_def)
  then have "\<exists>es. calls u = calls s @ es \<and> list_all is_string_call es"
    by (intro exI [of _ "cs @ ds"]) simp
  then show ?thesis
    using assms unfolding string_step_def by (metis extends_trans)
qed

lemma string_step_frames:
  assumes "string_step s s'"
  shows "frame_step s s'" "frames_ok s \<Longrightarrow> frames_ok s'" "pinned refs n s' = pinned refs n s"
    "frame_cache s' = frame_cache s" "cache_entries s' = cache_entries s"
proof -
  have more: "strings_state.more s' = strings_state.more s"
    and ext: "extends s s'" and ann: "announced s \<Longrightarrow> announced s'"
    using assms by (auto simp: string_step_def)
  obtain cs where cs: "calls s' = calls s @ cs" "list_all is_string_call cs"
    using assms by (auto simp: string_step_def)
  show "frame_step s s'"
    unfolding frame_step_def more_cache [OF more] more_frames [OF more] using ext by simp
  show "frame_cache s' = frame_cache s" "cache_entries s' = cache_entries s"
    by (rule more_frames [OF more] more_cache [OF more])+
  show "pinned refs n s' = pinned refs n s"
    by (rule more_pinned [OF more])
  assume ok: "frames_ok s"
  have "refs_ok presets {} (calls s')"
    using ok cs(1) refs_ok_strings [OF cs(2)] by (simp add: refs_ok_append frames_ok_def)
  moreover have "\<forall>k \<in> fst ` set (cache_entries s). k \<in> frame_keys (calls s')"
    using ok extends_keys(2) [OF ext] unfolding frames_ok_def by blast
  moreover have "names_interned f s'" if "frame_heap s n = Some f" for n f
  proof -
    have "names_interned f s"
      using ok that by (simp add: frames_ok_def)
    then show ?thesis
      using extends_table [OF ext] by (auto simp: names_interned_def)
  qed
  moreover have "string_table s' C_FRAME = None"
    using ok assms by (simp add: string_step_def frames_ok_def)
  moreover have "presets \<subseteq> dom (string_table s')"
    using ok extends_table [OF ext] unfolding frames_ok_def dom_def by blast
  moreover have "announced s'" "cache_owns s"
    using ok ann by (simp_all add: frames_ok_def)
  ultimately show "frames_ok s'"
    unfolding frames_ok_def more_cache [OF more] more_frames [OF more] by simp
qed

lemmas key_string_steps =
  key_obj.grows key_obj.keeps key_obj.rest key_obj.tells
  key_cur.grows key_cur.keeps key_cur.rest key_cur.tells

lemma string_key_not_C_FRAME:
  "string_key V R stk k s = (r, s') \<Longrightarrow> string_table s C_FRAME = None \<Longrightarrow> string_table s' C_FRAME = None"
  by (cases "k = C_FRAME")
    (auto simp: string_key_def name_text_def pylong_to_llong_def pyunicode_to_utf8_def C_FRAME_def
      split: option.splits sum.splits if_splits)

lemma string_key_step: "string_key V R stk k s = (r, s') \<Longrightarrow> string_step s s'"
  unfolding string_step_def by (blast intro: key_string_steps string_key_not_C_FRAME)

lemma string_key_cursor_step:
  assumes "string_key_cursor demangle cur s = (r, s')" "cur_start_ip cur \<noteq> Some C_FRAME"
  shows "string_step s s'"
proof -
  have "string_table s C_FRAME = None \<longrightarrow> string_table s' C_FRAME = None"
    using assms by (auto simp: string_key_cursor_def Let_def split: option.splits)
  with assms(1) show ?thesis
    unfolding string_step_def by (blast intro: key_string_steps)
qed

lemma string_key_pc_step:
  assumes "string_key_pc k s = (r, s')" "k \<noteq> C_FRAME"
  shows "string_step s s'" "string_table s' r \<noteq> None"
proof -
  have "string_table s C_FRAME = None \<longrightarrow> string_table s' C_FRAME = None"
    using assms by (auto simp: string_key_pc_def split: option.splits)
  then show "string_step s s'" "string_table s' r \<noteq> None"
    using assms key_pc.grows [of k s "Inr r" s'] key_pc.keeps [of k s "Inr r" s'] key_pc.rest [of k s "Inr r" s']
      key_pc.tells [of k s "Inr r" s'] key_pc.interned [of k s r s']
    unfolding string_step_def by auto
qed

lemma string_key_unsafe_step:
  assumes "string_key_unsafe V al au k s = (r, s')" "k \<noteq> C_FRAME"
  shows "string_step s s'" "string_table s' r \<noteq> None"
proof -
  have "string_table s C_FRAME = None \<longrightarrow> string_table s' C_FRAME = None"
    using assms by (auto simp: string_key_unsafe_def Let_def split: option.splits)
  then show "string_step s s'" "string_table s' r \<noteq> None"
    using assms key_uns.grows [of V al au k s "Inr r" s'] key_uns.keeps [of V al au k s "Inr r" s']
      key_uns.rest [of V al au k s "Inr r" s'] key_uns.tells [of V al au k s "Inr r" s']
      key_uns.interned [of V al au k s r s']
    unfolding string_step_def by auto
qed

lemma string_step_interned:
  "string_step s s' \<Longrightarrow> string_table s k \<noteq> None \<Longrightarrow> string_table s' k \<noteq> None"
  by (auto simp: string_step_def dest: extends_table)

lemma names_interned_set_location [simp]:
  "names_interned (set_location a b c d f) s = names_interned f s"
  by (simp add: names_interned_def set_location_def)

definition same_names :: "frame \<Rightarrow> frame \<Rightarrow> bool" where
  "same_names f g \<longleftrightarrow> fr_filename g = fr_filename f \<and> fr_name g = fr_name f"

lemma same_names_simps [simp]:
  "same_names f f" "same_names f (set_location a b c d g) = same_names f g"
  by (simp_all add: same_names_def set_location_def)

lemma location_entry_names:
  "location_entry table code line i f = Some (Inr (l, j, g)) \<Longrightarrow> same_names f g"
  unfolding location_entry_def Let_def by (auto simp: bind_eq_Some_iff split: if_splits)

lemma location_loop_311_names:
  "location_loop_311 table lasti i bc line f = Some (Inr (l, g)) \<Longrightarrow> same_names f g"
proof (induction table lasti i bc line f rule: location_loop_311.induct)
  case (1 table lasti i bc line f)
  show ?case
  proof (cases "int (length table) \<le> i")
    case True
    with 1(2) show ?thesis
      by (subst (asm) location_loop_311.simps) simp
  next
    case False
    from 1(2) False obtain b where b: "table_at table i = Some b"
      by (subst (asm) location_loop_311.simps) (auto split: option.splits)
    from 1(2) have body: "(case location_entry table (unat (drop_bit 3 b AND 15)) line i f of
           None \<Rightarrow> None | Some (Inl e) \<Rightarrow> Some (Inl e)
         | Some (Inr (lineno, j, f)) \<Rightarrow>
             if lasti < bc + uint (b AND 7) + 1 then Some (Inr (lineno, f))
             else location_loop_311 table lasti (j + 1) (bc + uint (b AND 7) + 1) lineno f)
        = Some (Inr (l, g))"
      using False b by (subst (asm) location_loop_311.simps) (simp add: Let_def)
    then obtain x where x: "location_entry table (unat (drop_bit 3 b AND 15)) line i f = Some (Inr x)"
      by (auto split: option.splits sum.splits)
    obtain l' j h where lj: "x = (l', j, h)"
      by (cases x)
    have h: "same_names f h"
      using location_entry_names x lj by blast
    show ?thesis
    proof (cases "lasti < bc + uint (b AND 7) + 1")
      case True
      with body b x lj h show ?thesis
        by simp
    next
      case stop: False
      have "same_names h g"
        using body b x lj stop by (intro 1(1) [OF False b refl refl x refl lj [symmetric] refl stop]) simp
      with h show ?thesis
        by (simp add: same_names_def)
    qed
  qed
qed

lemma infer_location_names:
  "infer_location V R code lasti f = Some (Inr g) \<Longrightarrow> same_names f g"
  by (auto simp: infer_location_def Let_def split: if_splits option.splits sum.splits
      dest: location_loop_311_names)

lemma frame_create_step:
  assumes "frame_create V R stk code lasti s = Some (r, s')"
  shows "string_step s s'" "r = Inr f \<Longrightarrow> names_interned f s'"
proof -
  obtain r1 s1 where 1: "string_key V R stk (co_filename code) s = (r1, s1)"
    by fastforce
  obtain r2 s2 where 2: "string_key V R stk (if V311 \<le> V then co_qualname code else co_name code) s1 = (r2, s2)"
    by fastforce
  note steps = string_key_step [OF 1] string_key_step [OF 2]
  show "string_step s s'"
    using assms 1 2 steps string_step_trans [OF steps]
    by (auto simp: frame_create_def split: sum.splits option.splits)
  assume "r = Inr f"
  with assms 1 2 obtain a b where
    r: "r1 = Inr a" "r2 = Inr b" "s' = s2" "infer_location V R code lasti (new_frame a b) = Some (Inr f)"
    by (auto simp: frame_create_def split: sum.splits option.splits)
  have "string_table s2 a \<noteq> None" "string_table s2 b \<noteq> None"
    using key_obj.interned [of V R stk _ s a s1] key_obj.interned [of V R stk _ s1 b s2] 1 2 r
      string_step_interned [OF steps(2)] by auto
  with infer_location_names [OF r(4)] r(3) show "names_interned f s'"
    by (simp add: names_interned_def same_names_def new_frame_def)
qed

lemma frame_create_native_step:
  assumes "frame_create_native demangle cur pc s = (r, s')"
    and c: "pc \<noteq> C_FRAME" "cur_start_ip cur \<noteq> Some C_FRAME"
  shows "string_step s s'" "r = Inr f \<Longrightarrow> names_interned f s'"
proof -
  obtain k s1 where 1: "string_key_pc pc s = (k, s1)"
    by fastforce
  obtain r2 s2 where 2: "string_key_cursor demangle cur s1 = (r2, s2)"
    by fastforce
  note steps = string_key_pc_step(1) [OF 1 c(1)] string_key_cursor_step [OF 2 c(2)]
  show "string_step s s'"
    using assms 1 2 string_step_trans [OF steps]
    by (auto simp: frame_create_native_def split: sum.splits)
  assume "r = Inr f"
  with assms 1 2 obtain b where r: "r2 = Inr b" "s' = s2" "f = new_frame k b"
    by (auto simp: frame_create_native_def split: sum.splits)
  have "string_table s2 k \<noteq> None" "string_table s2 b \<noteq> None"
    using key_cur.interned [of demangle cur s1 b s2] 2 r string_key_pc_step(2) [OF 1 c(1)]
      string_step_interned [OF steps(2)] by auto
  with r show "names_interned f s'"
    by (simp add: names_interned_def new_frame_def)
qed

text \<open>No code object has the key of the C frame for a name: the unsafe paths take the
  interpreter's word for it.\<close>

definition names_not_C :: "remote \<Rightarrow> bool" where
  "names_not_C R \<longleftrightarrow>
     (\<forall>a code. rd_code R a = Some code \<longrightarrow> C_FRAME \<notin> {co_filename code, co_name code, co_qualname code})"

lemma frame_of_pyobject_step:
  assumes "frame_of_pyobject V R api frame s = Some (f, s')" "names_not_C R"
  shows "string_step s s'" "names_interned f s'"
proof -
  define n where "n = (\<lambda>c :: py_code. if V311 \<le> V then co_qualname c else co_name c)"
  define key where "key = (\<lambda>k :: addr. \<lambda>s :: 'a frames_state_scheme.
    string_key_unsafe V (api_as_long api) (api_as_utf8 api) k s)"
  have "\<exists>p code a s1 b s2. rd_code R p = Some code
      \<and> key (n code) s = (a, s1) \<and> key (co_filename code) s1 = (b, s2) \<and> s' = s2 \<and> fr_filename f = b \<and> fr_name f = a"
  proof (cases "V311 \<le> V")
    case True
    with assms obtain iframe code where "rd_iframe R frame = Some iframe" "rd_code R (if_code iframe) = Some code"
      by (auto simp: frame_of_pyobject_def bind_eq_Some_iff)
    moreover obtain l c le ce where
      "api_addr2location api (if_code iframe) (push_bit 1 (api_lasti api frame)) = (l, c, le, ce)"
      by (metis prod_cases4)
    moreover obtain a s1 where "key (n code) s = (a, s1)"
      by fastforce
    moreover obtain b s2 where "key (co_filename code) s1 = (b, s2)"
      by fastforce
    ultimately show ?thesis
      using assms(1) True unfolding key_def
      by (intro exI [of _ "if_code iframe"] exI [of _ code] exI [of _ a] exI [of _ s1] exI [of _ b] exI [of _ s2])
        (auto simp: frame_of_pyobject_def n_def new_frame_def)
  next
    case False
    with assms obtain py_frame code where "rd_frame R frame = Some py_frame" "rd_code R (f_code py_frame) = Some code"
      by (auto simp: frame_of_pyobject_def bind_eq_Some_iff)
    moreover obtain a s1 where "key (n code) s = (a, s1)"
      by fastforce
    moreover obtain b s2 where "key (co_filename code) s1 = (b, s2)"
      by fastforce
    ultimately show ?thesis
      using assms(1) False unfolding key_def
      by (intro exI [of _ "f_code py_frame"] exI [of _ code] exI [of _ a] exI [of _ s1] exI [of _ b] exI [of _ s2])
        (auto simp: frame_of_pyobject_def n_def new_frame_def)
  qed
  then obtain p code a s1 b s2 where p: "rd_code R p = Some code" and r: "key (n code) s = (a, s1)" "key (co_filename code) s1 = (b, s2)"
      "s' = s2" "fr_filename f = b" "fr_name f = a"
    by blast
  note 1 = r(1) [unfolded key_def] and 2 = r(2) [unfolded key_def]
  have c: "n code \<noteq> C_FRAME" "co_filename code \<noteq> C_FRAME"
    using assms(2) p unfolding names_not_C_def n_def by (fastforce split: if_splits)+
  note steps = string_key_unsafe_step(1) [OF 1 c(1)] string_key_unsafe_step(1) [OF 2 c(2)]
  show "string_step s s'"
    using string_step_trans [OF steps] r by simp
  show "names_interned f s'"
    using string_key_unsafe_step(2) [OF 1 c(1)] string_key_unsafe_step(2) [OF 2 c(2)]
      string_step_interned [OF steps(2)] r by (simp add: names_interned_def)
qed

section \<open>Using the cache\<close>

lemma cache_entries_Some [simp]:
  "frame_cache s = Some c \<Longrightarrow> cache_entries s = lru_abs c"
  "frame_cache s = Some c \<Longrightarrow> cache_cap s = capacity c"
  by (simp_all add: cache_entries_def cache_cap_def)

lemma frame_cache_same: "frame_cache s = c \<Longrightarrow> s\<lparr>frame_cache := c\<rparr> = s"
  by (rule frames_state.equality) simp_all

lemma frames_ok_cache: "frames_ok s \<Longrightarrow> frame_cache s = Some c \<Longrightarrow> lru_ok c"
  by (simp add: frames_ok_def cache_owns_def)

text \<open>Replacing the cache by one with the same entries in another order.\<close>

lemma frames_ok_reorder:
  assumes "frames_ok s" "frame_cache s = Some c" "lru_ok c'" "capacity c' = capacity c"
    and "set (lru_abs c') = set (lru_abs c)" "distinct (map snd (lru_abs c'))"
  shows "frames_ok (s\<lparr>frame_cache := Some c'\<rparr>)" "frame_step s (s\<lparr>frame_cache := Some c'\<rparr>)"
  using assms by (simp_all add: frames_ok_def cache_owns_def announced_def frame_step_def extends_def
      names_interned_def)

lemma cache_lookup_law:
  assumes ok: "frames_ok s" and look: "cache_lookup k s = Some (r, s')"
  shows "frames_ok s'" "frame_step s s'"
    and "r = Inl e \<Longrightarrow> s' = s \<and> map_of (cache_entries s) k = None"
    and "r = Inr ref \<Longrightarrow> pinned refs n s \<Longrightarrow> pinned (refs @ [ref]) (Suc n) s'"
proof -
  obtain c where c: "frame_cache s = Some c"
    using look by (auto simp: cache_lookup_def bind_eq_Some_iff)
  note inv = frames_ok_cache [OF ok c]
  have "frames_ok s' \<and> frame_step s s' \<and> (r = Inl e \<longrightarrow> s' = s \<and> map_of (cache_entries s) k = None)
      \<and> (r = Inr ref \<longrightarrow> pinned refs n s \<longrightarrow> pinned (refs @ [ref]) (Suc n) s')"
  proof (rule lru.look_cases [OF inv, of k])
    assume "map_of (lru_abs c) k = None" "lru_lookup c k = Some (Inl LookupError, c)"
    moreover from this have "r = Inl LookupError" "s' = s"
      using look c frame_cache_same [OF c] by (simp_all add: cache_lookup_def)
    ultimately show ?thesis
      using ok c by simp
  next
    fix v c'
    assume hit: "map_of (lru_abs c) k = Some v" "lru_lookup c k = Some (Inr v, c')" "lru_ok c'"
      "lru_abs c' = recency_touch k (lru_abs c)" "capacity c' = capacity c"
    have r: "r = Inr (FrameRef v)" "s' = s\<lparr>frame_cache := Some c'\<rparr>"
      using look c hit(2) by (simp_all add: cache_lookup_def)
    have dist: "distinct (map fst (lru_abs c))" "distinct (map snd (lru_abs c))"
      using inv ok c by (simp_all add: lru_ok_distinct_abs frames_ok_def cache_owns_def)
    note perm = recency_touch_perm [OF dist(1) hit(1)]
    have "pinned (refs @ [FrameRef v]) (Suc n) s'" if pin: "pinned refs n s"
    proof -
      obtain T where "recent T n (lru_abs c)" "\<forall>m. FrameRef m \<in> set refs \<longrightarrow> m \<in> snd ` T"
        using pin c by (auto simp: pinned_def)
      then have "recent (insert (k, v) T) (Suc n) (cache_entries s')"
        "\<forall>m. FrameRef m \<in> set (refs @ [FrameRef v]) \<longrightarrow> m \<in> snd ` insert (k, v) T"
        using recent_touch [OF _ hit(1) dist(1)] r(2) hit(4) by auto
      then show ?thesis
        unfolding pinned_def by blast
    qed
    then show ?thesis
      using frames_ok_reorder [OF ok c hit(3,5)] perm dist r hit(4) by auto
  qed
  then show "frames_ok s'" "frame_step s s'"
    and "r = Inl e \<Longrightarrow> s' = s \<and> map_of (cache_entries s) k = None"
    and "r = Inr ref \<Longrightarrow> pinned refs n s \<Longrightarrow> pinned (refs @ [ref]) (Suc n) s'"
    by blast+
qed

lemma recency_store_split:
  assumes "lru_ok c" "map_of (lru_abs c) k = None"
  obtains c' kept where "lru_store c k n = Some (c', None)" "lru_ok c'" "capacity c' = capacity c"
      "lru_abs c' = (k, n) # kept" "lru_abs c = kept" "lru_abs c' = recency_store (capacity c) k n (lru_abs c)"
  | c' kept k' m where "lru_store c k n = Some (c', Some m)" "lru_ok c'" "capacity c' = capacity c"
      "lru_abs c' = (k, n) # kept" "lru_abs c = kept @ [(k', m)]"
      "lru_abs c' = recency_store (capacity c) k n (lru_abs c)"
proof -
  obtain c' ev where c': "lru_store c k n = Some (c', ev)" "lru_ok c'" "capacity c' = capacity c"
    "lru_abs c' = recency_store (capacity c) k n (lru_abs c)"
    "ev = (if length (lru_abs c) < capacity c then None else Some (snd (last (lru_abs c))))"
    using lru_store_fresh [OF assms] by blast
  have cap: "0 < capacity c" "length (lru_abs c) \<le> capacity c"
    using assms(1) lru_ok_length_abs by (auto simp: lru_ok_def)
  show ?thesis
  proof (cases "length (lru_abs c) < capacity c")
    case True
    then have "lru_abs c' = (k, n) # lru_abs c"
      using c'(4) by (simp add: recency_store_def)
    with True c' show ?thesis
      by (intro that(1) [of c' "lru_abs c"]) simp_all
  next
    case False
    with cap have full: "length (lru_abs c) = capacity c" "lru_abs c \<noteq> []"
      by auto
    then have "lru_abs c' = (k, n) # butlast (lru_abs c)"
      using c'(4) cap(1) by (cases "capacity c") (simp_all add: recency_store_def butlast_conv_take)
    moreover have "lru_abs c = butlast (lru_abs c) @ [(fst (last (lru_abs c)), snd (last (lru_abs c)))]"
      using full(2) by simp
    ultimately show ?thesis
      using False c' by (intro that(2) [of c' "snd (last (lru_abs c))" "butlast (lru_abs c)" "fst (last (lru_abs c))"]) simp_all
  qed
qed

lemma names_interned_call:
  assumes "announced s" "names_interned f s"
  shows "call_ok (presets \<union> string_keys (calls s)) F (frame_call (f\<lparr>cache_key := k\<rparr>))"
  using string_keys_announced [OF assms(1)] assms(2)
  by (simp add: frame_call_def names_interned_def)

text \<open>
  A frame \<open>f\<close> with the key \<open>k\<close> is put in front of the entries \<open>kept\<close> of the cache, at the next
  address; the heap is left with the frames of these entries.
\<close>

definition frame_put ::
  "addr \<Rightarrow> frame \<Rightarrow> (addr \<times> nat) list \<Rightarrow> 'a frames_state_scheme \<Rightarrow> 'a frames_state_scheme \<Rightarrow> bool" where
  "frame_put k f kept s s' \<longleftrightarrow>
     (\<exists>h c'. s' = s\<lparr>calls := calls s @ [frame_call f], next_frame := Suc (next_frame s), frame_heap := h, frame_cache := Some c'\<rparr>
        \<and> lru_ok c' \<and> capacity c' = cache_cap s \<and> lru_abs c' = (k, next_frame s) # kept
        \<and> set kept \<subseteq> set (cache_entries s) \<and> distinct (map snd kept)
        \<and> dom h = insert (next_frame s) (snd ` set kept) \<and> h (next_frame s) = Some f
        \<and> (\<forall>i \<in> snd ` set kept. h i = frame_heap s i))"

lemma frame_put_owns:
  assumes "frame_put k f kept s s'" "cache_owns s" "cache_key f = k"
  shows "cache_owns s'"
proof -
  define m where "m = next_frame s"
  obtain h c' where s': "s' = s\<lparr>calls := calls s @ [frame_call f], next_frame := Suc m, frame_heap := h, frame_cache := Some c'\<rparr>"
    and c': "lru_ok c'" "lru_abs c' = (k, m) # kept"
    and kept: "set kept \<subseteq> set (cache_entries s)" "distinct (map snd kept)"
    and h: "dom h = insert m (snd ` set kept)" "h m = Some f" "\<And>i. i \<in> snd ` set kept \<Longrightarrow> h i = frame_heap s i"
    using assms(1) unfolding frame_put_def m_def by blast
  have own: "dom (frame_heap s) = snd ` set (cache_entries s)"
    "\<And>k n f. (k, n) \<in> set (cache_entries s) \<Longrightarrow> frame_heap s n = Some f \<Longrightarrow> cache_key f = k"
    "\<And>n. n \<in> dom (frame_heap s) \<Longrightarrow> n < m"
    using assms(2) by (simp_all add: cache_owns_def m_def)
  have ent: "cache_entries s' = (k, m) # kept"
    by (simp add: s' c'(2) cache_entries_def)
  have new: "m \<notin> snd ` set kept"
    using own(1,3) kept(1) by blast
  have "cache_key g = j" if "(j, i) \<in> set ((k, m) # kept)" "h i = Some g" for i j g
  proof (cases "i = m")
    case True
    then have "(j, i) = (k, m)"
      using that(1) new by force
    then show ?thesis
      using that(2) h(2) assms(3) by simp
  next
    case False
    then have mem: "(j, i) \<in> set kept"
      using that(1) by simp
    then have "h i = frame_heap s i"
      by (intro h(3)) force
    with mem that(2) kept(1) own(2) show ?thesis
      by fastforce
  qed
  moreover have "n < Suc m" if "n \<in> dom h" for n
  proof -
    have "n = m \<or> n \<in> snd ` set (cache_entries s)"
      using that kept(1) unfolding h(1) by blast
    then show ?thesis
      using own(3) unfolding own(1) by (auto intro: less_SucI)
  qed
  ultimately show ?thesis
    using c'(1) h(1) kept(2) new unfolding cache_owns_def ent by (simp add: s')
qed

lemma frame_put_ok:
  assumes "frame_put k f kept s s'" "frames_ok s" "names_interned f s" "cache_key f = k" "frame_cache s \<noteq> None"
  shows "frames_ok s'" "frame_step s s'"
proof -
  obtain h c' where s': "s' = s\<lparr>calls := calls s @ [frame_call f], next_frame := Suc (next_frame s),
        frame_heap := h, frame_cache := Some c'\<rparr>"
    and c': "capacity c' = cache_cap s" "lru_abs c' = (k, next_frame s) # kept"
    and kept: "set kept \<subseteq> set (cache_entries s)"
    and h: "dom h = insert (next_frame s) (snd ` set kept)" "h (next_frame s) = Some f"
      "\<And>i. i \<in> snd ` set kept \<Longrightarrow> h i = frame_heap s i"
    using assms(1) unfolding frame_put_def by blast
  have owns: "cache_owns s'"
    using frame_put_owns [OF assms(1) _ assms(4)] assms(2) by (simp add: frames_ok_def)
  have calls_ok: "announced s" "refs_ok presets {} (calls s @ [frame_call f])"
    "fst ` set (cache_entries s) \<subseteq> frame_keys (calls s)" "k \<in> defines_frame (frame_call f)"
    using assms(2,4) names_interned_call [OF _ assms(3)]
    by (auto simp: frames_ok_def refs_ok_snoc frame_call_def)
  have ent: "cache_entries s' = (k, next_frame s) # kept"
    by (simp add: s' c'(2) cache_entries_def)
  have "announced s'"
    using calls_ok(1) by (auto simp: s' announced_def)
  moreover have "j \<in> frame_keys (calls s')" if "j \<in> fst ` set ((k, next_frame s) # kept)" for j
    using that kept calls_ok(3,4) by (auto simp: s')
  moreover have "names_interned g s'" if "h i = Some g" for i g
  proof (cases "i = next_frame s")
    case True
    then show ?thesis
      using that h(2) assms(3) by (simp add: names_interned_def s')
  next
    case False
    then have "i \<in> snd ` set kept"
      using that h(1) by blast
    then have "names_interned g s"
      using that h(3) assms(2) by (simp add: frames_ok_def)
    then show ?thesis
      by (simp add: s' names_interned_def)
  qed
  moreover have "string_table s C_FRAME = None" "presets \<subseteq> dom (string_table s)"
    using assms(2) by (simp_all add: frames_ok_def)
  ultimately show "frames_ok s'"
    using calls_ok(2) owns unfolding frames_ok_def ent by (simp add: s')
  show "frame_step s s'"
    using assms(5) c'(1) by (auto simp: s' frame_step_def extends_def cache_cap_def frame_call_def)
qed

text \<open>This is what \<open>cache_frame\<close> does, whether the store evicts an entry or not.\<close>

lemma cache_frame_put:
  assumes ok: "frames_ok s" and c: "frame_cache s = Some c"
    and fresh: "map_of (lru_abs c) k = None" and put: "cache_frame k f s = Some (ref, s')"
  shows "\<exists>kept. frame_put k (f\<lparr>cache_key := k\<rparr>) kept s s'" "ref = FrameRef (next_frame s)"
    "cache_entries s' = recency_store (capacity c) k (next_frame s) (lru_abs c)"
proof -
  define f' where "f' = f\<lparr>cache_key := k\<rparr>"
  define m where "m = next_frame s"
  have cap: "cache_cap s = capacity c"
    using c by (simp add: cache_cap_def)
  have own: "distinct (map snd (lru_abs c))" "dom (frame_heap s) = snd ` set (lru_abs c)"
    "\<And>n. n \<in> dom (frame_heap s) \<Longrightarrow> n < m"
    using ok c by (simp_all add: frames_ok_def cache_owns_def m_def)
  then have new: "m \<notin> snd ` set (lru_abs c)"
    by blast
  have "(\<exists>kept. frame_put k f' kept s s') \<and> ref = FrameRef m
      \<and> cache_entries s' = recency_store (capacity c) k m (lru_abs c)"
  proof (rule recency_store_split [OF frames_ok_cache [OF ok c] fresh, of m])
    fix c' kept
    assume st: "lru_store c k m = Some (c', None)" "lru_ok c'" "capacity c' = capacity c"
      "lru_abs c' = (k, m) # kept" "lru_abs c = kept"
      and ent: "lru_abs c' = recency_store (capacity c) k m (lru_abs c)"
    have s': "s' = s\<lparr>calls := calls s @ [frame_call f'], next_frame := Suc m,
        frame_heap := (frame_heap s)(m \<mapsto> f'), frame_cache := Some c'\<rparr>" "ref = FrameRef m"
      using put c st(1) by (auto simp: cache_frame_def Let_def emit_def f'_def m_def)
    have "frame_put k f' kept s s'"
      unfolding frame_put_def m_def [symmetric] cap
      by (rule exI [of _ "(frame_heap s)(m \<mapsto> f')"], rule exI [of _ c']) (use s' st own(1,2) new c in auto)
    with ent s' show ?thesis
      by (auto simp: cache_entries_def)
  next
    fix c' kept k' d
    assume st: "lru_store c k m = Some (c', Some d)" "lru_ok c'" "capacity c' = capacity c"
      "lru_abs c' = (k, m) # kept" "lru_abs c = kept @ [(k', d)]"
      and ent: "lru_abs c' = recency_store (capacity c) k m (lru_abs c)"
    have s': "s' = s\<lparr>calls := calls s @ [frame_call f'], next_frame := Suc m,
        frame_heap := (frame_heap s)(m \<mapsto> f', d := None), frame_cache := Some c'\<rparr>" "ref = FrameRef m"
      using put c st(1) by (auto simp: cache_frame_def Let_def emit_def f'_def m_def)
    have d: "d \<noteq> m" "d \<notin> snd ` set kept"
      using own(1) new st(5) by auto
    have dom: "dom ((frame_heap s)(m \<mapsto> f', d := None)) = insert m (snd ` set kept)"
      using d own(2) st(5) by auto
    have "frame_put k f' kept s s'"
      unfolding frame_put_def m_def [symmetric] cap
      by (rule exI [of _ "(frame_heap s)(m \<mapsto> f', d := None)"], rule exI [of _ c'])
        (intro conjI s' st(2-4) dom, use st(5) own(1) new d c in auto)
    with ent s' show ?thesis
      by (auto simp: cache_entries_def)
  qed
  then show "\<exists>kept. frame_put k (f\<lparr>cache_key := k\<rparr>) kept s s'" "ref = FrameRef (next_frame s)"
    "cache_entries s' = recency_store (capacity c) k (next_frame s) (lru_abs c)"
    unfolding f'_def m_def by blast+
qed

lemma cache_frame_law:
  assumes ok: "frames_ok s" and names: "names_interned f s"
    and fresh: "map_of (cache_entries s) k = None" and put: "cache_frame k f s = Some (ref, s')"
  shows "frames_ok s'" "frame_step s s'"
    and "pinned refs n s \<Longrightarrow> n < cache_cap s \<Longrightarrow> pinned (refs @ [ref]) (Suc n) s'"
proof -
  obtain c where c: "frame_cache s = Some c"
    using put by (auto simp: cache_frame_def Let_def bind_eq_Some_iff emit_def)
  from fresh c have "map_of (lru_abs c) k = None"
    by simp
  note put = cache_frame_put [OF ok c this put]
  obtain kept where kept: "frame_put k (f\<lparr>cache_key := k\<rparr>) kept s s'"
    using put(1) by blast
  have "names_interned (f\<lparr>cache_key := k\<rparr>) s"
    using names by (simp add: names_interned_def)
  from frame_put_ok [OF kept ok this] c show "frames_ok s'" "frame_step s s'"
    by simp_all
  assume pin: "pinned refs n s" "n < cache_cap s"
  then obtain T where T: "recent T n (lru_abs c)" "\<forall>i. FrameRef i \<in> set refs \<longrightarrow> i \<in> snd ` T"
    using c by (auto simp: pinned_def)
  then have "recent (insert (k, next_frame s) T) (Suc n) (cache_entries s')"
    using recent_store [OF T(1), of "capacity c" k "next_frame s"] pin(2) c put(3) by simp
  moreover have "\<forall>i. FrameRef i \<in> set (refs @ [ref]) \<longrightarrow> i \<in> snd ` insert (k, next_frame s) T"
    using T(2) put(2) by auto
  ultimately show "pinned (refs @ [ref]) (Suc n) s'"
    unfolding pinned_def by blast
qed

section \<open>The interface of a source of frames\<close>

text \<open>
  What the unwinding loops need of \<open>Frame::get\<close> and \<open>Frame::read\<close>: the invariant is kept,
  the rest of the state is left alone, and a frame that is returned has just been used.
  The client lemmas are about the stack the loops build.
\<close>

definition stack_ok :: "frame_ref list \<Rightarrow> 'a frames_state_scheme \<Rightarrow> bool" where
  "stack_ok refs s \<longleftrightarrow> frames_ok s \<and> pinned refs (length refs) s"

lemma stack_ok_live: "stack_ok refs s \<Longrightarrow> ref \<in> set refs \<Longrightarrow> deref ref s \<noteq> None"
  unfolding stack_ok_def using pinned_live by blast

lemma stack_ok_Nil [simp]: "stack_ok [] s = frames_ok s"
  by (simp add: stack_ok_def)

locale frame_source =
  fixes op :: "'x \<Rightarrow> 'a frames_state_scheme \<Rightarrow> (frame_ref result \<times> 'a frames_state_scheme) option"
    and ready :: "'x \<Rightarrow> 'a frames_state_scheme \<Rightarrow> bool"
  assumes keeps: "op x s = Some (r, s') \<Longrightarrow> ready x s \<Longrightarrow> frames_ok s \<Longrightarrow> frames_ok s'"
    and steps: "op x s = Some (r, s') \<Longrightarrow> ready x s \<Longrightarrow> frames_ok s \<Longrightarrow> frame_step s s'"
    and pins: "op x s = Some (Inr ref, s') \<Longrightarrow> ready x s \<Longrightarrow> frames_ok s \<Longrightarrow> pinned refs n s
        \<Longrightarrow> n < cache_cap s \<Longrightarrow> pinned (refs @ [ref]) (Suc n) s'"
    and fails: "op x s = Some (Inl e, s') \<Longrightarrow> ready x s \<Longrightarrow> frames_ok s \<Longrightarrow> pinned refs n s
        \<Longrightarrow> pinned refs n s'"
begin

lemma push_ok:
  assumes "op x s = Some (Inr ref, s')" "ready x s" "stack_ok refs s" "length refs < cache_cap s"
  shows "stack_ok (refs @ [ref]) s'" "frame_step s s'"
  using assms keeps steps pins unfolding stack_ok_def by auto

lemma stop_ok:
  assumes "op x s = Some (Inl e, s')" "ready x s" "stack_ok refs s"
  shows "stack_ok refs s'" "frame_step s s'"
  using assms keeps steps fails unfolding stack_ok_def by auto

lemma got_live:
  assumes "op x s = Some (Inr ref, s')" "ready x s" "frames_ok s" "0 < cache_cap s"
  shows "deref ref s' \<noteq> None"
proof (rule stack_ok_live)
  show "stack_ok ([] @ [ref]) s'"
    using assms by (intro push_ok(1)) simp_all
qed simp

end

text \<open>A miss, after strings have been interned.\<close>

lemma cache_frame_after:
  assumes ok: "frames_ok s" and t: "string_step s t" and names: "names_interned f t"
    and fresh: "map_of (cache_entries s) k = None" and put: "cache_frame k f t = Some (ref, s')"
  shows "frames_ok s' \<and> frame_step s s'
    \<and> (pinned refs n s \<longrightarrow> n < cache_cap s \<longrightarrow> pinned (refs @ [ref]) (Suc n) s')"
proof -
  note st = string_step_frames [OF t]
  have ok': "frames_ok t" and fresh': "map_of (cache_entries t) k = None"
    using st(2) [OF ok] fresh st(5) by simp_all
  note law = cache_frame_law [OF ok' names fresh' put]
  have "cache_cap t = cache_cap s"
    using st(1) by (simp add: frame_step_def)
  then show ?thesis
    using law st(1,3) frame_step_trans by auto
qed

lemma map_sum_Inr_iff: "map_sum f g x = Inr y \<longleftrightarrow> (\<exists>z. x = Inr z \<and> y = g z)"
  by (cases x) auto

lemma frame_get_law:
  assumes ok: "frames_ok s" and run: "frame_get V R stk x s = Some (r, s')"
  shows "frames_ok s' \<and> frame_step s s' \<and> (\<exists>ref. r = Inr ref \<and> ref \<noteq> UNKNOWN_FRAME \<and> ref \<noteq> C_FRAME_REF
    \<and> (pinned refs n s \<longrightarrow> n < cache_cap s \<longrightarrow> pinned (refs @ [ref]) (Suc n) s'))"
proof -
  obtain code lasti where x: "x = (code, lasti)"
    by (cases x)
  define k where "k = frame_key code lasti"
  obtain r1 s1 where look: "cache_lookup k s = Some (r1, s1)"
    using run by (auto simp: frame_get_def x k_def Let_def bind_eq_Some_iff)
  note look_law = cache_lookup_law [OF ok look]
  have static: "pinned refs n s \<Longrightarrow> pinned (refs @ [INVALID_FRAME]) (Suc n) s"
    by (rule pinned_static) simp_all
  show ?thesis
  proof (cases r1)
    case (Inr ref)
    then have "r = Inr ref" "s' = s1"
      using run look by (simp_all add: frame_get_def x k_def Let_def)
    moreover obtain m where "ref = FrameRef m"
      using look Inr by (auto simp: cache_lookup_def bind_eq_Some_iff map_sum_Inr_iff)
    ultimately show ?thesis
      using look_law Inr by auto
  next
    case (Inl e)
    then have miss: "s1 = s" "map_of (cache_entries s) k = None"
      using look_law(3) by auto
    show ?thesis
    proof (cases "copy_type (rd_code R) code")
      case None
      then show ?thesis
        using run look Inl miss ok static by (auto simp: frame_get_def x k_def Let_def)
    next
      case (Some c)
      then obtain r2 s2 where create: "frame_create V R stk c lasti s = Some (r2, s2)"
        using run look Inl miss by (auto simp: frame_get_def x k_def Let_def bind_eq_Some_iff)
      note st = frame_create_step [OF create]
      show ?thesis
      proof (cases r2)
        case (Inl e')
        then show ?thesis
          using run look \<open>r1 = Inl e\<close> miss Some create string_step_frames [OF st(1)] ok static
          by (auto simp: frame_get_def x k_def Let_def)
      next
        case (Inr f)
        then obtain ref where put: "cache_frame k f s2 = Some (ref, s')" "r = Inr ref"
          using run look Inl miss Some create
          by (auto simp: frame_get_def x k_def Let_def bind_eq_Some_iff)
        then have "\<exists>m. ref = FrameRef m"
          by (auto simp: cache_frame_def Let_def bind_eq_Some_iff)
        then show ?thesis
          using cache_frame_after [OF ok st(1) st(2) [OF Inr] miss(2) put(1)] put(2) by auto
      qed
    qed
  qed
qed

interpretation get_code: frame_source "frame_get V R stk" "\<lambda>_ _. True"
  by unfold_locales (use frame_get_law in \<open>blast\<close>)+


text \<open>Changing \<open>is_entry\<close> of a frame changes nothing the invariant speaks about.\<close>

lemma set_is_entry_law:
  assumes ok: "frames_ok s" and set: "set_is_entry ref b s = Some s'"
  shows "frames_ok s' \<and> frame_step s s' \<and> cache_entries s' = cache_entries s"
proof (cases ref)
  case (FrameRef n)
  with set obtain f where f: "frame_heap s n = Some f"
    and s': "s' = s\<lparr>frame_heap := (frame_heap s)(n \<mapsto> f\<lparr>is_entry := b\<rparr>)\<rparr>"
    by (auto split: option.splits)
  have ent: "cache_entries s' = cache_entries s" and step: "frame_step s s'"
    by (simp_all add: s' cache_entries_def frame_step_def extends_def cache_cap_def)
  have own: "cache_owns s"
    using ok by (simp add: frames_ok_def)
  have dom: "dom (frame_heap s') = dom (frame_heap s)"
    using f by (auto simp: s')
  have "cache_key g = k" if "(k, i) \<in> set (cache_entries s)" "frame_heap s' i = Some g" for k i g
    using that own f by (cases "i = n") (auto simp: s' cache_owns_def)
  moreover have "(case frame_cache s' of None \<Rightarrow> True | Some c \<Rightarrow> lru_ok c)"
    using own by (simp add: s' cache_owns_def)
  ultimately have "cache_owns s'"
    using own unfolding cache_owns_def ent dom by (simp add: s')
  moreover have "names_interned g s'" if "frame_heap s' i = Some g" for i g
    using that ok f by (cases "i = n") (auto simp: s' frames_ok_def names_interned_def)
  moreover have "announced s'"
    using ok by (simp add: s' frames_ok_def announced_def)
  ultimately have "frames_ok s'"
    using ok unfolding frames_ok_def ent by (simp add: s')
  with ent step show ?thesis
    by simp
qed (use assms in auto)

lemma read_iframe_get:
  assumes ok: "frames_ok s" and get: "frame_get V R stk x s = Some (Inr ref, t)"
    and set: "set_is_entry ref b t = Some s'"
  shows "frames_ok s' \<and> frame_step s s'
    \<and> (pinned refs n s \<longrightarrow> n < cache_cap s \<longrightarrow> pinned (refs @ [ref]) (Suc n) s')"
proof -
  have t: "frames_ok t" "frame_step s t"
    "pinned refs n s \<Longrightarrow> n < cache_cap s \<Longrightarrow> pinned (refs @ [ref]) (Suc n) t"
    using frame_get_law [OF ok get, of refs n] by auto
  have s': "frames_ok s'" "frame_step t s'" "cache_entries s' = cache_entries t"
    using set_is_entry_law [OF t(1) set] by auto
  have "frame_step s s'"
    using t(2) s'(2) by (rule frame_step_trans)
  moreover have "pinned (refs @ [ref]) (Suc n) s' = pinned (refs @ [ref]) (Suc n) t"
    by (simp add: pinned_def s'(3))
  ultimately show ?thesis
    using t s' by blast
qed

text \<open>A read gives the C frame without touching anything, a frame of \<open>get\<close>, or an error.\<close>

lemma frame_read_cases_frame:
  assumes "frame_read V R stk (a, prev) s = Some (r, p, s')" "\<not> V311 \<le> V"
  obtains (err) e where "r = Inl e" "s' = s" "p = prev"
  | (got) x ref b t where "frame_get V R stk x s = Some (Inr ref, t)" "r = Inr ref"
      "s' = t \<or> set_is_entry ref b t = Some s'" "ref = INVALID_FRAME \<Longrightarrow> p = NULL"
      "V312 \<le> V \<Longrightarrow> set_is_entry ref False t = Some s'"
  | (geterr) x e where "frame_get V R stk x s = Some (Inl e, s')" "r = Inl FrameError" "p = prev"
proof (cases "copy_type (rd_frame R) a")
  case None
  then show ?thesis
    using assms by (intro err [of FrameError]) (simp_all add: frame_read_def)
next
  case (Some fr)
  with assms obtain r1 t where get: "frame_get V R stk (f_code fr, f_lasti fr) s = Some (r1, t)"
    by (auto simp: frame_read_def bind_eq_Some_iff)
  show ?thesis
  proof (cases r1)
    case (Inl e)
    then show ?thesis
      using assms Some get Inl by (intro geterr [of _ e]) (auto simp: frame_read_def)
  next
    case (Inr ref)
    then have "r = Inr ref" "s' = t" "ref = INVALID_FRAME \<Longrightarrow> p = NULL"
      using assms Some get by (auto simp: frame_read_def)
    with get Inr assms(2) show ?thesis
      by (intro got [of _ ref t False]) (auto simp: py_version_order)
  qed
qed

lemma frame_read_cases_iframe:
  assumes "frame_read V R stk (a, prev) s = Some (r, p, s')" "V311 \<le> V"
    and "read_iframe R (stack_chunk s) a = Some (Inr iframe)"
    and "\<not> (V312 \<le> V \<and> if_owner iframe = FRAME_OWNED_BY_CSTACK)"
    and "\<not> (V312 \<le> V \<and> if_owner iframe \<noteq> FRAME_OWNED_BY_THREAD \<and> if_owner iframe \<noteq> FRAME_OWNED_BY_GENERATOR)"
  obtains (got) x ref b t where "frame_get V R stk x s = Some (Inr ref, t)" "r = Inr ref"
      "s' = t \<or> set_is_entry ref b t = Some s'" "ref = INVALID_FRAME \<Longrightarrow> p = NULL"
      "V312 \<le> V \<Longrightarrow> set_is_entry ref False t = Some s'"
  | (geterr) x e where "frame_get V R stk x s = Some (Inl e, s')" "r = Inl FrameError" "p = prev"
proof -
  define b where "b = (if V312 \<le> V then if_owner iframe = FRAME_OWNED_BY_CSTACK else if_is_entry iframe)"
  from assms obtain x where
    x: "frame_get V R stk (if_code iframe, lasti_of V R iframe) s = Some x"
    by (simp only: frame_read_def Let_def prod.case if_True if_False sum.case
        bind.bind_lunit bind_eq_Some_iff) blast
  obtain r1 t where r1: "x = (r1, t)"
    by (cases x)
  note get = x [unfolded r1]
  from assms get have
    rest: "(case r1 of Inl _ \<Rightarrow> Some (Inl FrameError, prev, t)
      | Inr ref \<Rightarrow> do { s \<leftarrow> set_is_entry ref b t;
           Some (Inr ref, if ref = INVALID_FRAME then NULL else if_previous iframe, s) })
      = Some (r, p, s')"
    unfolding b_def by (simp only: frame_read_def Let_def prod.case if_True if_False sum.case
        bind.bind_lunit)
  show ?thesis
  proof (cases r1)
    case (Inl e)
    with rest have "r = Inl FrameError" "p = prev" "t = s'"
      by simp_all
    with get Inl show ?thesis
      by (intro geterr [of _ e]) simp_all
  next
    case (Inr ref)
    with rest obtain u where "set_is_entry ref b t = Some u" "r = Inr ref" "u = s'"
      "p = (if ref = INVALID_FRAME then NULL else if_previous iframe)"
      by (auto simp: bind_eq_Some_iff)
    moreover have "V312 \<le> V \<Longrightarrow> \<not> b"
      using assms(4) by (simp add: b_def)
    ultimately show ?thesis
      using get Inr by (intro got [of _ ref t b]) (simp_all split: if_splits)
  qed
qed

lemma frame_read_cases:
  assumes "frame_read V R stk (a, prev) s = Some (r, p, s')"
  obtains (c) "V312 \<le> V" "r = Inr C_FRAME_REF" "s' = s"
  | (err) e where "r = Inl e" "s' = s" "p = prev"
  | (got) x ref b t where "frame_get V R stk x s = Some (Inr ref, t)" "r = Inr ref"
      "s' = t \<or> set_is_entry ref b t = Some s'" "ref = INVALID_FRAME \<Longrightarrow> p = NULL"
      "V312 \<le> V \<Longrightarrow> set_is_entry ref False t = Some s'"
  | (geterr) x e where "frame_get V R stk x s = Some (Inl e, s')" "r = Inl FrameError" "p = prev"
proof (cases "V311 \<le> V")
  case False
  with assms show ?thesis
    by (rule frame_read_cases_frame) (fact err got geterr)+
next
  case True
  with assms obtain ri where ri: "read_iframe R (stack_chunk s) a = Some ri"
    by (auto simp: frame_read_def bind_eq_Some_iff)
  show ?thesis
  proof (cases ri)
    case (Inl e)
    then show ?thesis
      using assms True ri Inl by (intro err [of FrameError]) (simp_all add: frame_read_def)
  next
    case (Inr iframe)
    consider (c) "V312 \<le> V \<and> if_owner iframe = FRAME_OWNED_BY_CSTACK"
      | (bad) "\<not> (V312 \<le> V \<and> if_owner iframe = FRAME_OWNED_BY_CSTACK)"
          "V312 \<le> V \<and> if_owner iframe \<noteq> FRAME_OWNED_BY_THREAD \<and> if_owner iframe \<noteq> FRAME_OWNED_BY_GENERATOR"
      | (good) "\<not> (V312 \<le> V \<and> if_owner iframe = FRAME_OWNED_BY_CSTACK)"
          "\<not> (V312 \<le> V \<and> if_owner iframe \<noteq> FRAME_OWNED_BY_THREAD \<and> if_owner iframe \<noteq> FRAME_OWNED_BY_GENERATOR)"
      by blast
    then show ?thesis
    proof cases
      case c
      then show ?thesis
        using assms True ri Inr by (intro that(1)) (simp_all add: frame_read_def)
    next
      case bad
      then show ?thesis
        using assms True ri Inr by (intro err [of FrameError]) (auto simp: frame_read_def)
    next
      case good
      from ri Inr have "read_iframe R (stack_chunk s) a = Some (Inr iframe)"
        by simp
      with assms True show ?thesis
        using good by (rule frame_read_cases_iframe) (fact got geterr)+
    qed
  qed
qed

definition frame_read_op ::
  "py_version \<Rightarrow> remote \<Rightarrow> i32 list \<Rightarrow> addr \<times> addr \<Rightarrow> 'a frames_state_scheme
     \<Rightarrow> (frame_ref result \<times> 'a frames_state_scheme) option" where
  "frame_read_op V R stk x s = map_option (\<lambda>(r, p, s). (r, s)) (frame_read V R stk x s)"

lemma frame_read_law:
  assumes ok: "frames_ok s" and run: "frame_read V R stk (a, prev) s = Some (r, p, s')"
  shows "frames_ok s' \<and> frame_step s s' \<and>
    (case r of
       Inl e \<Rightarrow> pinned refs n s \<longrightarrow> pinned refs n s'
     | Inr ref \<Rightarrow> pinned refs n s \<longrightarrow> n < cache_cap s \<longrightarrow> pinned (refs @ [ref]) (Suc n) s')"
  using run
proof (cases rule: frame_read_cases)
  case c
  then show ?thesis
    using ok pinned_static [of refs n s C_FRAME_REF] by simp
next
  case (got x ref b t)
  from got(3) show ?thesis
  proof
    assume "s' = t"
    then show ?thesis
      using frame_get_law [OF ok got(1), of refs n] got(2) by auto
  next
    assume "set_is_entry ref b t = Some s'"
    from read_iframe_get [OF ok got(1) this, of refs n] got(2) show ?thesis
      by simp
  qed
next
  case (geterr x e)
  then show ?thesis
    using frame_get_law [OF ok geterr(1), of refs n] by auto
qed (use ok in simp)

interpretation reading: frame_source "frame_read_op V R stk" "\<lambda>_ _. True"
proof unfold_locales
  fix x :: "addr \<times> addr" and r e ref refs n and s s' :: "'a frames_state_scheme"
  assume ok: "frames_ok s"
  obtain a prev where x: "x = (a, prev)"
    by (cases x)
  { fix r assume "frame_read_op V R stk x s = Some (r, s')"
    then obtain p where "frame_read V R stk (a, prev) s = Some (r, p, s')"
      by (auto simp: frame_read_op_def x)
    note frame_read_law [OF ok this, of refs n] }
  note law = this
  show "frame_read_op V R stk x s = Some (r, s') \<Longrightarrow> frames_ok s'"
    and "frame_read_op V R stk x s = Some (r, s') \<Longrightarrow> frame_step s s'"
    using law by blast+
  show "frame_read_op V R stk x s = Some (Inr ref, s') \<Longrightarrow> pinned refs n s \<Longrightarrow> n < cache_cap s
      \<Longrightarrow> pinned (refs @ [ref]) (Suc n) s'"
    and "frame_read_op V R stk x s = Some (Inl e, s') \<Longrightarrow> pinned refs n s \<Longrightarrow> pinned refs n s'"
    using law [of "Inr ref"] law [of "Inl e"] by simp_all
qed


text \<open>The unsafe and the native \<open>get\<close>.\<close>

lemma cache_lookup_FrameRef:
  assumes "frames_ok s" "cache_lookup k s = Some (Inr ref, s')"
  shows "\<exists>m. ref = FrameRef m \<and> map_of (cache_entries s') k = Some m" "calls s' = calls s"
proof -
  obtain c where c: "frame_cache s = Some c"
    using assms(2) by (auto simp: cache_lookup_def bind_eq_Some_iff)
  have "(\<exists>m. ref = FrameRef m \<and> map_of (cache_entries s') k = Some m) \<and> calls s' = calls s"
  proof (rule lru.look_cases [OF frames_ok_cache [OF assms(1) c], of k])
    fix v c' assume "map_of (lru_abs c) k = Some v" "lru_lookup c k = Some (Inr v, c')"
      "lru_abs c' = recency_touch k (lru_abs c)"
    then show ?thesis
      using assms(2) c by (auto simp: cache_lookup_def cache_entries_def recency_touch_def)
  qed (use assms(2) c in \<open>auto simp: cache_lookup_def\<close>)
  then show "\<exists>m. ref = FrameRef m \<and> map_of (cache_entries s') k = Some m" "calls s' = calls s"
    by blast+
qed

lemma frame_get_unsafe_law:
  assumes ok: "frames_ok s" and R: "names_not_C R" and run: "frame_get_unsafe V R api a s = Some (r, s')"
  shows "frames_ok s' \<and> frame_step s s' \<and> (\<exists>ref. r = Inr ref
    \<and> (pinned refs n s \<longrightarrow> n < cache_cap s \<longrightarrow> pinned (refs @ [ref]) (Suc n) s'))"
proof -
  obtain k r1 s1 where k: "frame_key_of_pyobject V R api a = Some k" and look: "cache_lookup k s = Some (r1, s1)"
    using run by (auto simp: frame_get_unsafe_def bind_eq_Some_iff)
  note look_law = cache_lookup_law [OF ok look]
  show ?thesis
  proof (cases r1)
    case (Inr ref)
    then have "r = Inr ref" "s' = s1"
      using run k look by (simp_all add: frame_get_unsafe_def)
    then show ?thesis
      using look_law Inr by auto
  next
    case (Inl e)
    then have miss: "s1 = s" "map_of (cache_entries s) k = None"
      using look_law(3) by auto
    from run k look Inl miss obtain f t ref where
      f: "frame_of_pyobject V R api a s = Some (f, t)" and put: "cache_frame k f t = Some (ref, s')" "r = Inr ref"
      by (auto simp: frame_get_unsafe_def bind_eq_Some_iff)
    note st = frame_of_pyobject_step [OF f R]
    show ?thesis
      using cache_frame_after [OF ok st miss(2) put(1)] put(2) by auto
  qed
qed

text \<open>Program counters and procedures do not start at the address 3.\<close>

definition cursor_ok :: "unw_cursor \<Rightarrow> bool" where
  "cursor_ok cursor \<longleftrightarrow> cur_ip cursor \<noteq> C_FRAME \<and> cur_start_ip cursor \<noteq> Some C_FRAME"

lemma frame_get_native_law:
  assumes ok: "frames_ok s" and cur: "cursor_ok cursor"
    and run: "frame_get_native demangle cursor s = Some (r, s')"
  shows "frames_ok s' \<and> frame_step s s' \<and>
    (case r of
       Inl e \<Rightarrow> s' = s
     | Inr ref \<Rightarrow> pinned refs n s \<longrightarrow> n < cache_cap s \<longrightarrow> pinned (refs @ [ref]) (Suc n) s')"
proof (cases "cur_ip cursor = 0")
  case True
  then show ?thesis
    using run ok by (auto simp: frame_get_native_def Let_def)
next
  case False
  define k where "k = cur_ip cursor"
  obtain r1 s1 where look: "cache_lookup k s = Some (r1, s1)"
    using run False by (auto simp: frame_get_native_def k_def Let_def bind_eq_Some_iff)
  note look_law = cache_lookup_law [OF ok look]
  show ?thesis
  proof (cases r1)
    case (Inr ref)
    then have "r = Inr ref" "s' = s1"
      using run False look by (simp_all add: frame_get_native_def k_def Let_def)
    then show ?thesis
      using look_law Inr by auto
  next
    case (Inl e)
    then have miss: "s1 = s" "map_of (cache_entries s) k = None"
      using look_law(3) by auto
    obtain r2 t where create: "frame_create_native demangle cursor k s = (r2, t)"
      by fastforce
    have st: "string_step s t" "\<And>f. r2 = Inr f \<Longrightarrow> names_interned f t"
      using frame_create_native_step [OF create] cur by (auto simp: cursor_ok_def k_def)
    show ?thesis
    proof (cases r2)
      case (Inl e')
      then have "r = Inr UNKNOWN_FRAME" "s' = t"
        using run False look \<open>r1 = Inl e\<close> miss create by (simp_all add: frame_get_native_def k_def Let_def)
      then show ?thesis
        using string_step_frames [OF st(1)] ok pinned_static [of refs n s UNKNOWN_FRAME]
          string_step_frames(3) [OF st(1), of "refs @ [UNKNOWN_FRAME]" "Suc n"] by simp
    next
      case (Inr f)
      then obtain ref where put: "cache_frame k f t = Some (ref, s')" "r = Inr ref"
        using run False look Inl miss create
        by (auto simp: frame_get_native_def k_def Let_def bind_eq_Some_iff)
      then show ?thesis
        using cache_frame_after [OF ok st(1) st(2) [OF Inr] miss(2) put(1)] by simp
    qed
  qed
qed

lemma frame_get_name_law:
  assumes ok: "frames_ok s" and name: "string_table s name \<noteq> None"
    and run: "frame_get_name name s = Some (r, s')"
  shows "frames_ok s' \<and> frame_step s s' \<and> (\<exists>ref. r = Inr ref
    \<and> (pinned refs n s \<longrightarrow> n < cache_cap s \<longrightarrow> pinned (refs @ [ref]) (Suc n) s'))"
proof -
  obtain r1 s1 where look: "cache_lookup name s = Some (r1, s1)"
    using run by (auto simp: frame_get_name_def bind_eq_Some_iff)
  note look_law = cache_lookup_law [OF ok look]
  show ?thesis
  proof (cases r1)
    case (Inr ref)
    then have "r = Inr ref" "s' = s1"
      using run look by (simp_all add: frame_get_name_def)
    then show ?thesis
      using look_law Inr by auto
  next
    case (Inl e)
    then have miss: "s1 = s" "map_of (cache_entries s) name = None"
      using look_law(3) by auto
    from run look Inl miss obtain ref where put: "cache_frame name (new_frame 0 name) s = Some (ref, s')" "r = Inr ref"
      by (auto simp: frame_get_name_def bind_eq_Some_iff)
    have "(0 :: addr) \<in> presets"
      by (simp add: presets_def)
    then have "string_table s 0 \<noteq> None"
      using ok unfolding frames_ok_def by blast
    with name have "names_interned (new_frame 0 name) s"
      by (simp add: names_interned_def new_frame_def)
    then show ?thesis
      using cache_frame_law [OF ok _ miss(2) put(1)] put(2) by simp
  qed
qed


interpretation get_unsafe: frame_source "frame_get_unsafe V R api" "\<lambda>_ _. names_not_C R"
proof unfold_locales
  fix x r e ref refs n and s s' :: "'a frames_state_scheme"
  assume ok: "names_not_C R" "frames_ok s"
  note law = frame_get_unsafe_law [OF ok(2,1), of V api x _ s' refs n]
  show "frame_get_unsafe V R api x s = Some (r, s') \<Longrightarrow> frames_ok s'"
    and "frame_get_unsafe V R api x s = Some (r, s') \<Longrightarrow> frame_step s s'"
    using law by blast+
  show "frame_get_unsafe V R api x s = Some (Inr ref, s') \<Longrightarrow> pinned refs n s \<Longrightarrow> n < cache_cap s
      \<Longrightarrow> pinned (refs @ [ref]) (Suc n) s'"
    and "frame_get_unsafe V R api x s = Some (Inl e, s') \<Longrightarrow> pinned refs n s \<Longrightarrow> pinned refs n s'"
    using law [of "Inr ref"] law [of "Inl e"] by auto
qed

interpretation get_native: frame_source "frame_get_native demangle" "\<lambda>x _. cursor_ok x"
proof unfold_locales
  fix x r e ref refs n and s s' :: "'a frames_state_scheme"
  assume ok: "cursor_ok x" "frames_ok s"
  note law = frame_get_native_law [OF ok(2,1), of demangle _ s' refs n]
  show "frame_get_native demangle x s = Some (r, s') \<Longrightarrow> frames_ok s'"
    and "frame_get_native demangle x s = Some (r, s') \<Longrightarrow> frame_step s s'"
    using law by blast+
  show "frame_get_native demangle x s = Some (Inr ref, s') \<Longrightarrow> pinned refs n s \<Longrightarrow> n < cache_cap s
      \<Longrightarrow> pinned (refs @ [ref]) (Suc n) s'"
    and "frame_get_native demangle x s = Some (Inl e, s') \<Longrightarrow> pinned refs n s \<Longrightarrow> pinned refs n s'"
    using law [of "Inr ref"] law [of "Inl e"] by auto
qed

interpretation get_name: frame_source frame_get_name "\<lambda>name s. string_table s name \<noteq> None"
proof unfold_locales
  fix x r e ref refs n and s s' :: "'a frames_state_scheme"
  assume ok: "string_table s x \<noteq> None" "frames_ok s"
  note law = frame_get_name_law [OF ok(2,1), of _ s' refs n]
  show "frame_get_name x s = Some (r, s') \<Longrightarrow> frames_ok s'"
    and "frame_get_name x s = Some (r, s') \<Longrightarrow> frame_step s s'"
    using law by blast+
  show "frame_get_name x s = Some (Inr ref, s') \<Longrightarrow> pinned refs n s \<Longrightarrow> n < cache_cap s
      \<Longrightarrow> pinned (refs @ [ref]) (Suc n) s'"
    and "frame_get_name x s = Some (Inl e, s') \<Longrightarrow> pinned refs n s \<Longrightarrow> pinned refs n s'"
    using law [of "Inr ref"] law [of "Inl e"] by auto
qed

section \<open>When reading returns\<close>

text \<open>The tables of the code objects can be walked: \<open>infer_location_in_bounds\<close> says when.\<close>

definition tables_ok :: "py_version \<Rightarrow> remote \<Rightarrow> bool" where
  "tables_ok V R \<longleftrightarrow> (\<forall>code lasti f. infer_location V R code lasti f \<noteq> None)"

lemma cache_lookup_defined:
  assumes "frames_ok s" "frame_cache s \<noteq> None"
  shows "\<exists>y. cache_lookup k s = Some y"
proof -
  obtain c where c: "frame_cache s = Some c"
    using assms(2) by blast
  show ?thesis
    by (rule lru.look_cases [OF frames_ok_cache [OF assms(1) c], of k])
      (simp_all add: cache_lookup_def c)
qed

lemma cache_frame_defined:
  assumes "frames_ok s" "frame_cache s \<noteq> None" "map_of (cache_entries s) k = None"
  shows "\<exists>y. cache_frame k f s = Some y"
proof -
  obtain c where c: "frame_cache s = Some c"
    using assms(2) by blast
  have fresh: "map_of (lru_abs c) k = None"
    using assms(3) c by simp
  obtain c' ev where "lru_store c k (next_frame s) = Some (c', ev)"
    using lru.put_fresh [OF frames_ok_cache [OF assms(1) c] fresh, of "next_frame s"] by blast
  then show ?thesis
    by (simp add: cache_frame_def Let_def emit_def c)
qed

lemma frame_get_defined:
  assumes ok: "frames_ok s" and cache: "frame_cache s \<noteq> None" and tables: "tables_ok V R"
  shows "\<exists>y. frame_get V R stk x s = Some y"
proof -
  obtain code lasti where x: "x = (code, lasti)"
    by (cases x)
  define k where "k = frame_key code lasti"
  obtain r1 s1 where look: "cache_lookup k s = Some (r1, s1)"
    using cache_lookup_defined [OF ok cache, of k] by auto
  note body = frame_get_def x k_def Let_def
  show ?thesis
  proof (cases r1)
    case (Inr ref)
    then show ?thesis
      using look by (simp add: body)
  next
    case (Inl e)
    then have miss: "s1 = s" "map_of (cache_entries s) k = None"
      using cache_lookup_law(3) [OF ok look] by auto
    show ?thesis
    proof (cases "copy_type (rd_code R) code")
      case None
      then show ?thesis
        using look Inl by (simp add: body)
    next
      case (Some c)
      have "frame_create V R stk c lasti s \<noteq> None"
      proof -
        have "infer_location V R c lasti f = Some (the (infer_location V R c lasti f))" for f
          using tables by (simp add: tables_ok_def)
        then obtain g where "\<And>f. infer_location V R c lasti f = Some (g f)"
          by (rule that [of "\<lambda>f. the (infer_location V R c lasti f)"])
        then show ?thesis
          by (simp add: frame_create_def split: sum.split prod.split)
      qed
      then obtain r2 t where create: "frame_create V R stk c lasti s = Some (r2, t)"
        by auto
      note st = string_step_frames [OF frame_create_step(1) [OF create]]
      obtain ref u where "r2 = Inr f \<Longrightarrow> cache_frame k f t = Some (ref, u)" for f
        using cache_frame_defined [of t k "projr r2"] st ok cache miss(2) by fastforce
      then show ?thesis
        using look Inl miss Some create by (cases r2) (simp_all add: body)
    qed
  qed
qed

lemma frame_step_cache_Some: "frame_step s s' \<Longrightarrow> frames_ok s' \<Longrightarrow> 0 < cache_cap s \<Longrightarrow> frame_cache s' \<noteq> None"
  by (auto simp: frame_step_def cache_cap_def split: option.splits)

lemma frame_read_defined:
  assumes ok: "frames_ok s" and cap: "0 < cache_cap s" and tables: "tables_ok V R"
    and read: "V311 \<le> V \<Longrightarrow> read_iframe R (stack_chunk s) a \<noteq> None"
  shows "\<exists>y. frame_read V R stk (a, prev) s = Some y"
proof -
  have get: "\<exists>r t. frame_get V R stk x s = Some (r, t)" for x
    using frame_get_defined [OF ok frame_step_cache_Some [OF frame_step_refl ok cap] tables] by auto
  have entry: "\<exists>u. set_is_entry ref b t = Some u" if "frame_get V R stk x s = Some (Inr ref, t)" for x ref b t
  proof -
    have "deref ref t \<noteq> None"
      by (rule get_code.got_live [OF that _ ok cap]) simp
    moreover have "ref \<noteq> UNKNOWN_FRAME" "ref \<noteq> C_FRAME_REF"
      using frame_get_law [OF ok that] by auto
    ultimately show ?thesis
      by (cases ref) auto
  qed
  show ?thesis
  proof (cases "V311 \<le> V")
    case False
    show ?thesis
    proof (cases "copy_type (rd_frame R) a")
      case (Some fr)
      obtain r t where "frame_get V R stk (f_code fr, f_lasti fr) s = Some (r, t)"
        using get by blast
      with False Some show ?thesis
        by (cases r) (simp_all add: frame_read_def)
    qed (use False in \<open>simp add: frame_read_def\<close>)
  next
    case True
    obtain ri where ri: "read_iframe R (stack_chunk s) a = Some ri"
      using read [OF True] by blast
    show ?thesis
    proof (cases ri)
      case (Inl e)
      with True ri show ?thesis
        by (simp add: frame_read_def)
    next
      case (Inr iframe)
      obtain r t where g: "frame_get V R stk (if_code iframe, lasti_of V R iframe) s = Some (r, t)"
        using get by blast
      show ?thesis
      proof (cases r)
        case (Inr ref)
        obtain u where "set_is_entry ref (if V312 \<le> V then if_owner iframe = FRAME_OWNED_BY_CSTACK
            else if_is_entry iframe) t = Some u"
          using entry g Inr by blast
        with True ri \<open>ri = Inr iframe\<close> g Inr show ?thesis
          by (simp add: frame_read_def)
      qed (use True ri Inr g in \<open>simp add: frame_read_def\<close>)
    qed
  qed
qed


section \<open>Properties\<close>

text \<open>The state the module starts in, and a memory to try things on (3.9): frames at 65536
  and 69632, the first with the second behind it, of two instructions of one code object
  whose names are the one-byte string \<open>f\<close>.\<close>

definition start_state :: "nat \<Rightarrow> frames_state" where
  "start_state cap = init_frame_cache cap
     \<lparr>string_table = StringTable_new, calls = [], frame_heap = Map.empty, next_frame = 0,
      frame_cache = None, stack_chunk = None\<rparr>"

lemma start_state_ok: "0 < cap \<Longrightarrow> frames_ok (start_state cap)"
  by (auto simp: frames_ok_def start_state_def init_frame_cache_def cache_owns_def cache_entries_def
      announced_def lru_new_ok StringTable_new_def presets_def C_FRAME_def INVALID_def UNKNOWN_def)

lemma start_state_cap [simp]: "cache_cap (start_state cap) = cap"
  by (simp add: start_state_def init_frame_cache_def cache_cap_def)

definition two_frames :: remote where
  "two_frames = one_name\<lparr>
     rd_frame := (\<lambda>a. if a = 65536 then Some \<lparr>f_code = 131072, f_lasti = 4, f_back = 69632, f_executing = True,
                         f_stackdepth = 0, f_valuestack = 0, f_stacktop = 0\<rparr>
                      else if a = 69632 then Some \<lparr>f_code = 131072, f_lasti = 8, f_back = 0, f_executing = True,
                         f_stackdepth = 0, f_valuestack = 0, f_stacktop = 0\<rparr>
                      else None),
     rd_code := (\<lambda>a. if a = 131072
                     then Some \<lparr>co_filename = 196608, co_name = 196608, co_qualname = 196608, co_linetable = 262144,
                       co_lnotab = 262144, co_firstlineno = 10, co_code = 0\<rparr> else None),
     rd_iframe := (\<lambda>a. if a = 65536 then Some \<lparr>if_owner = FRAME_OWNED_BY_THREAD, if_previous = 69632,
                          if_code = 131072, if_instr = 131274, if_is_entry = True, if_stacktop = 0\<rparr>
                       else None),
     rd_bytes_size := (\<lambda>_. Some 0)\<rparr>"

lemma two_frames_tables: "tables_ok V39 two_frames"
proof -
  have "pybytes_to_bytes_and_size two_frames a = Some bs \<Longrightarrow> even (length bs)" for a bs
    by (auto simp: pybytes_to_bytes_and_size_def two_frames_def copy_type_def copy_generic_def
        MAX_STRING_SIZE_def split: if_splits)
  then show ?thesis
    unfolding tables_ok_def infer_location_def
    using location_loop_39_defined [of _ 0] by (auto simp: py_version_order Let_def split: option.split)
qed

text \<open>C16: keys of frames. Code addresses below \<open>2 ^ 48\<close> with instruction indices from 0 to
  \<open>2 ^ 16 - 1\<close> have different keys; but \<open>lasti\<close> is sign extended into the key, so that a
  frame that has not started (its index is -1) has the same key whatever its code is.\<close>

theorem frame_key_separates:
  assumes "unat c < 2 ^ 48" "unat d < 2 ^ 48"
    and "0 \<le> sint l" "sint l < 2 ^ 16" "0 \<le> sint m" "sint m < 2 ^ 16"
  shows "(frame_key c l = frame_key d m \<longleftrightarrow> c = d \<and> l = m) \<and> frame_key c (-1) = frame_key d (-1)"
proof
  have key: "unat (frame_key x y) = unat x * 2 ^ 16 + nat (sint y)"
    if "unat x < 2 ^ 48" "0 \<le> sint y" "sint y < 2 ^ 16" for x :: addr and y :: i32
  proof -
    have "uint (scast y :: addr) = sint y"
      unfolding scast_eq uint_word_of_int using that by simp
    then have low: "unat (scast y :: addr) = nat (sint y)"
      by (simp add: unat_eq_nat_uint)
    have "take_bit 64 (unat x * 2 ^ 16) = unat x * 2 ^ 16"
      using that(1) by (intro take_bit_nat_eq_self) simp
    then have high: "unat (push_bit 16 x) = push_bit 16 (unat x)"
      unfolding unsigned_push_bit_eq unfolding push_bit_eq_mult by simp
    have "nat (sint y) < 2 ^ 16"
      using that(2,3) by simp
    then have "take_bit 16 (nat (sint y)) = nat (sint y)"
      by (rule take_bit_nat_eq_self)
    then have "bit (nat (sint y)) n \<Longrightarrow> n < 16" for n
      by (metis bit_take_bit_iff)
    then have "push_bit 16 (unat x) OR nat (sint y) = push_bit 16 (unat x) + nat (sint y)"
      by (intro disjunctive_add_eq_or [symmetric] bit_eqI) (auto simp: bit_simps dest: leD)
    then show ?thesis
      unfolding frame_key_def unsigned_or_eq high low by (simp add: push_bit_eq_mult)
  qed
  show "frame_key c l = frame_key d m \<longleftrightarrow> c = d \<and> l = m"
  proof
    assume "frame_key c l = frame_key d m"
    then have eq: "unat c * 2 ^ 16 + nat (sint l) = unat d * 2 ^ 16 + nat (sint m)"
      using key [OF assms(1,3,4)] key [OF assms(2,5,6)] by simp
    have lt: "nat (sint l) < 2 ^ 16" "nat (sint m) < 2 ^ 16"
      using assms(3-6) by auto
    have "nat (sint l) = nat (sint m)" "unat c = unat d"
      using arg_cong [OF eq, of "\<lambda>z. z mod 2 ^ 16"] arg_cong [OF eq, of "\<lambda>z. z div 2 ^ 16"] lt by simp_all
    then show "c = d \<and> l = m"
    proof (intro conjI)
      have "sint l = sint m"
        using assms(3,5) \<open>nat (sint l) = nat (sint m)\<close> by simp
      then show "l = m"
        by (rule signed_word_eqI)
    qed (simp add: word_unat_eq_iff)
  qed simp
  show "frame_key c (-1) = frame_key d (-1)"
    by (simp add: frame_key_def)
qed

theorem frame_key_separates_witness:
  "frame_key 0x7f0000001000 12 \<noteq> frame_key 0x7f0000002000 12
   \<and> frame_key 0x7f0000001000 (-1) = frame_key 0x7f0000002000 (-1)"
  using frame_key_separates [of "0x7f0000001000" "0x7f0000002000" 12 12] by simp


definition two_code :: py_code where
  "two_code = \<lparr>co_filename = 196608, co_name = 196608, co_qualname = 196608, co_linetable = 262144,
     co_lnotab = 262144, co_firstlineno = 10, co_code = 0\<rparr>"

lemma two_code: "copy_type (rd_code two_frames) 131072 = Some two_code"
  by (simp add: two_frames_def two_code_def copy_type_def)

lemma two_frames_name: "name_text V two_frames [] 196608 = Inr ''f''"
  by (simp add: name_text_def pyunicode_to_utf8_def copy_type_def two_frames_def pylong_to_llong_def
      copy_generic_def one_name_def no_memory_def)

lemma two_frames_create:
  assumes "string_key V two_frames [] 196608 s = (Inr 196608, t)"
    and "string_key V two_frames [] 196608 t = (Inr 196608, t)"
  shows "frame_create V two_frames [] two_code l s
    = Some (Inr (set_location 10 10 0 0 (new_frame 196608 196608)), t)"
proof -
  have "pybytes_to_bytes_and_size two_frames 262144 = Some []"
    by (simp add: pybytes_to_bytes_and_size_def two_frames_def copy_type_def copy_generic_def MAX_STRING_SIZE_def)
  moreover have "location_loop_39 [] l 0 0 n = Some n" "location_loop_310 [] l 0 0 n = Some n"
    "location_loop_311 [] l 0 0 n f = Some (Inr (n, f))" for l n f
    by (subst location_loop_39.simps location_loop_310.simps location_loop_311.simps; simp)+
  ultimately show ?thesis
    by (simp add: frame_create_def assms two_code_def infer_location_def Let_def)
qed

lemma two_frames_get:
  "\<exists>s'. frame_get V two_frames [] (131072, l) (start_state (Suc c)) = Some (Inr (FrameRef 0), s')"
proof -
  define s where "s = start_state (Suc c)"
  have look: "cache_lookup (frame_key 131072 l) s = Some (Inl LookupError, s)"
    by (simp add: s_def start_state_def init_frame_cache_def cache_lookup_def lru_new_def lru_lookup_def)
  define t where "t = intern_new 196608 ''f'' s"
  have "string_key V two_frames [] 196608 s = (Inr 196608, t)"
    "string_key V two_frames [] 196608 t = (Inr 196608, t)"
    by (simp_all add: string_key_def two_frames_name t_def s_def start_state_def init_frame_cache_def
        StringTable_new_def INVALID_def UNKNOWN_def)
  note create = two_frames_create [OF this]
  obtain u where "cache_frame (frame_key 131072 l) (set_location 10 10 0 0 (new_frame 196608 196608)) t
      = Some (FrameRef 0, u)"
    by (auto simp: cache_frame_def t_def s_def start_state_def init_frame_cache_def emit_def intern_new_def
        lru_store_def lru_evict_def lru_new_def Let_def)
  then have "frame_get V two_frames [] (131072, l) s = Some (Inr (FrameRef 0), u)"
    using look create two_code by (simp add: frame_get_def)
  then show ?thesis
    by (simp add: s_def)
qed

lemma two_frames_read:
  "\<exists>s'. frame_read V39 two_frames [] (65536, 65536) (start_state 8) = Some (Inr (FrameRef 0), 69632, s')"
proof -
  obtain s' where "frame_get V39 two_frames [] (131072, 4) (start_state 8) = Some (Inr (FrameRef 0), s')"
    using two_frames_get [of V39 4 7] by auto
  moreover have "copy_type (rd_frame two_frames) 65536 = Some \<lparr>f_code = 131072, f_lasti = 4, f_back = 69632,
      f_executing = True, f_stackdepth = 0, f_valuestack = 0, f_stacktop = 0\<rparr>"
    by (simp add: copy_type_def two_frames_def)
  ultimately show ?thesis
    by (simp add: frame_read_def py_version_order)
qed


text \<open>The frame that \<open>Frame::get\<close> gives for an instruction is the one cached under its key.\<close>

lemma frame_get_entry:
  assumes "frames_ok s" "frame_get V R stk (code, lasti) s = Some (Inr ref, s')" "ref \<noteq> INVALID_FRAME"
  shows "\<exists>m. ref = FrameRef m \<and> map_of (cache_entries s') (frame_key code lasti) = Some m"
proof -
  define k where "k = frame_key code lasti"
  obtain r1 s1 where look: "cache_lookup k s = Some (r1, s1)"
    using assms(2) by (auto simp: frame_get_def k_def Let_def bind_eq_Some_iff)
  have "\<exists>m. ref = FrameRef m \<and> map_of (cache_entries s') k = Some m"
  proof (cases r1)
    case (Inr ref')
    then have "ref' = ref" "s1 = s'"
      using assms(2) look by (simp_all add: frame_get_def k_def Let_def)
    then show ?thesis
      using cache_lookup_FrameRef(1) [OF assms(1), of k ref s'] look Inr by simp
  next
    case (Inl e)
    then have miss: "s1 = s" "map_of (cache_entries s) k = None"
      using cache_lookup_law(3) [OF assms(1) look] by auto
    obtain c where c: "copy_type (rd_code R) code = Some c"
      using assms(2,3) look Inl by (auto simp: frame_get_def k_def Let_def split: option.splits)
    then obtain r2 t where create: "frame_create V R stk c lasti s = Some (r2, t)"
      using assms(2) look Inl miss by (auto simp: frame_get_def k_def Let_def bind_eq_Some_iff)
    obtain f where r2: "r2 = Inr f" "cache_frame k f t = Some (ref, s')"
      using assms(2,3) look Inl miss c create
      by (cases r2) (auto simp: frame_get_def k_def Let_def bind_eq_Some_iff)
    note st = string_step_frames [OF frame_create_step(1) [OF create]]
    obtain d where d: "frame_cache t = Some d"
      using r2(2) by (auto simp: cache_frame_def Let_def bind_eq_Some_iff emit_def)
    have "map_of (lru_abs d) k = None"
      using miss(2) st(5) d by simp
    then obtain d' ev where "lru_store d k (next_frame t) = Some (d', ev)" "0 < capacity d"
        "lru_abs d' = recency_store (capacity d) k (next_frame t) (lru_abs d)"
      using lru_store_fresh [OF frames_ok_cache [OF st(2) [OF assms(1)] d], of k "next_frame t"]
        frames_ok_cache [OF st(2) [OF assms(1)] d] by (auto simp: lru_ok_def)
    then show ?thesis
      using r2(2) d by (cases "capacity d")
        (auto simp: cache_frame_def Let_def emit_def recency_store_def cache_entries_def)
  qed
  then show ?thesis
    by (simp add: k_def)
qed

text \<open>A frame is defined once while it is cached. After \<open>Frame::get\<close> has given a frame
  for an instruction, other than the invalid one, asking again for the same instruction
  gives the same object, without a call to the renderer and without reading the code
  object again, whatever memory holds by then.\<close>

theorem frame_get_cached:
  assumes "frames_ok s" "0 < cache_cap s" "frame_get V R stk x s = Some (Inr ref, s')"
    and "ref \<noteq> INVALID_FRAME"
  shows "\<exists>s'' f. frame_get V' R' stk' x s' = Some (Inr ref, s'') \<and> calls s'' = calls s'
    \<and> frames_ok s'' \<and> deref ref s'' = Some f \<and> cache_key f = frame_key (fst x) (snd x)"
proof -
  obtain code lasti where x: "x = (code, lasti)"
    by (cases x)
  define k where "k = frame_key code lasti"
  have ok': "frames_ok s'" "frame_step s s'"
    using get_code.keeps [OF assms(3) _ assms(1)] get_code.steps [OF assms(3) _ assms(1)] by auto
  obtain m where m: "ref = FrameRef m" "map_of (cache_entries s') k = Some m"
    using frame_get_entry [OF assms(1) assms(3) [unfolded x] assms(4)] by (auto simp: k_def)
  have "frame_cache s' \<noteq> None"
    using frame_step_cache_Some [OF ok'(2,1) assms(2)] .
  then obtain r2 s'' where look': "cache_lookup k s' = Some (r2, s'')"
    using cache_lookup_defined [OF ok'(1)] by fastforce
  have "r2 = Inr ref"
  proof -
    obtain c where c: "frame_cache s' = Some c"
      using \<open>frame_cache s' \<noteq> None\<close> by blast
    show ?thesis
      by (rule lru.look_cases [OF frames_ok_cache [OF ok'(1) c], of k])
        (use look' c m in \<open>auto simp: cache_lookup_def\<close>)
  qed
  then have run: "frame_get V' R' stk' x s' = Some (Inr ref, s'')"
    using look' by (simp add: frame_get_def x k_def Let_def)
  have ok'': "frames_ok s''" "frame_step s' s''"
    using get_code.keeps [OF run _ ok'(1)] get_code.steps [OF run _ ok'(1)] by auto
  have "calls s'' = calls s'" "map_of (cache_entries s'') k = Some m"
    using cache_lookup_FrameRef [OF ok'(1), of k ref s''] look' \<open>r2 = Inr ref\<close> m by auto
  moreover from this(2) obtain f where "frame_heap s'' m = Some f" "cache_key f = k"
    using frames_ok_entry [OF ok''(1) map_of_SomeD] by blast
  ultimately show ?thesis
    using run ok''(1) m(1) by (simp add: x k_def)
qed

theorem frame_get_cached_witness:
  "\<exists>s' s''. frame_get V39 two_frames [] (131072, 4) (start_state 8) = Some (Inr (FrameRef 0), s')
     \<and> frame_get V39 no_memory [] (131072, 4) s' = Some (Inr (FrameRef 0), s'') \<and> calls s'' = calls s'"
proof -
  obtain s' where get: "frame_get V39 two_frames [] (131072, 4) (start_state 8) = Some (Inr (FrameRef 0), s')"
    using two_frames_get [of V39 4 7] by auto
  from frame_get_cached [OF start_state_ok _ get, of V39 no_memory "[]"] get show ?thesis
    by auto
qed

end
