(* ===== verification/Stacks.thy ===== *)
theory Stacks
  imports Frames Render "HOL-Library.Sublist"
begin

text \<open>
  \<open>echion/stacks.h\<close>: stacks of frame references, the loops that unwind the native and the
  Python stack, their interleaving, and the table of stacks of the memory mode. A stack is
  a list; its head is the innermost frame, the first one pushed.
\<close>

section \<open>FrameStack\<close>

type_synonym frame_stack = "frame_ref list"

definition rotl :: "addr \<Rightarrow> addr" where
  "rotl key = push_bit 1 key OR drop_bit 63 key"

fun stack_key_from :: "addr \<Rightarrow> frame_stack \<Rightarrow> 'a frames_state_scheme \<Rightarrow> addr option" where
  "stack_key_from h [] s = Some h"
| "stack_key_from h (ref # refs) s =
     (case deref ref s of
        None \<Rightarrow> None
      | Some f \<Rightarrow> stack_key_from (rotl h XOR cache_key f) refs s)"

definition stack_key :: "frame_stack \<Rightarrow> 'a frames_state_scheme \<Rightarrow> addr option" where
  "stack_key = stack_key_from 0"

text \<open>Rendering goes from the outermost frame in; \<open>visit\<close> is the call made for a frame.\<close>

fun render_refs ::
  "py_version \<Rightarrow> (frame \<Rightarrow> 'w \<Rightarrow> 'w) \<Rightarrow> frame_stack \<Rightarrow> 'a frames_state_scheme \<Rightarrow> 'w \<Rightarrow> 'w option" where
  "render_refs V visit [] s w = Some w"
| "render_refs V visit (ref # refs) s w =
     (case deref ref s of
        None \<Rightarrow> None
      | Some f \<Rightarrow>
          if V312 \<le> V \<and> is_entry f then render_refs V visit refs s w
          else render_refs V visit refs s (visit f w))"

text \<open>The sampler's renderer is its call log, which is part of the state.\<close>

definition stack_render ::
  "py_version \<Rightarrow> frame_stack \<Rightarrow> 'a frames_state_scheme \<Rightarrow> 'a frames_state_scheme option" where
  "stack_render V stack s =
     map_option (\<lambda>cs. s\<lparr>calls := cs\<rparr>)
       (render_refs V (\<lambda>f cs. cs @ [R_render_frame f]) (rev stack) s (calls s))"

definition stack_render_where ::
  "py_version \<Rightarrow> frame_stack \<Rightarrow> 'a frames_state_scheme \<Rightarrow> where_renderer \<Rightarrow> where_renderer option" where
  "stack_render_where V stack s w = render_refs V (where_render_frame s) (rev stack) s w"

section \<open>Unwinding\<close>

text \<open>The native stack: the cursors are those the successful calls of \<open>unw_step\<close> give.\<close>

fun unwind_native_loop ::
  "(string \<Rightarrow> string option) \<Rightarrow> nat \<Rightarrow> unw_cursor list \<Rightarrow> frame_stack \<Rightarrow> 'a frames_state_scheme
     \<Rightarrow> (frame_stack \<times> 'a frames_state_scheme) option" where
  "unwind_native_loop demangle max_frames [] stack s = Some (stack, s)"
| "unwind_native_loop demangle max_frames (cursor # cursors) stack s =
     (if length stack < max_frames
      then (case frame_get_native demangle cursor s of
              None \<Rightarrow> None
            | Some (Inl e, s) \<Rightarrow> Some (stack, s)
            | Some (Inr ref, s) \<Rightarrow> unwind_native_loop demangle max_frames cursors (stack @ [ref]) s)
      else Some (stack, s))"

definition unwind_native_stack ::
  "(string \<Rightarrow> string option) \<Rightarrow> nat \<Rightarrow> unw_cursor list \<Rightarrow> 'a frames_state_scheme
     \<Rightarrow> (frame_stack \<times> 'a frames_state_scheme) option" where
  "unwind_native_stack demangle max_frames cursors s = unwind_native_loop demangle max_frames cursors [] s"

text \<open>
  \<open>unwind_frame\<close> pushes onto the stack it is given; \<open>seen\<close> is the set of addresses read.
  The first component of the value is \<open>count\<close>.
\<close>

function unwind_frame_loop ::
  "py_version \<Rightarrow> remote \<Rightarrow> i32 list \<Rightarrow> nat \<Rightarrow> addr set \<Rightarrow> addr \<Rightarrow> nat \<Rightarrow> frame_stack
     \<Rightarrow> 'a frames_state_scheme \<Rightarrow> (nat \<times> frame_stack \<times> 'a frames_state_scheme) option" where
  "unwind_frame_loop V R stk max_frames seen current count stack s =
     (if current \<noteq> NULL \<and> length stack < max_frames then
        if current \<in> seen then Some (count, stack, s)
        else
          (case frame_read V R stk (current, current) s of
             None \<Rightarrow> None
           | Some (Inl e, p, s) \<Rightarrow> Some (count, stack, s)
           | Some (Inr ref, p, s) \<Rightarrow>
               (case deref ref s of
                  None \<Rightarrow> None
                | Some f \<Rightarrow>
                    if fr_name f = C_FRAME
                    then unwind_frame_loop V R stk max_frames (insert current seen) p count stack s
                    else unwind_frame_loop V R stk max_frames (insert current seen) p (Suc count) (stack @ [ref]) s))
      else Some (count, stack, s))"
  by pat_completeness auto

termination
  by (relation "measure (\<lambda>(_, _, _, _, seen, _). card (- seen))") (auto intro: card_unseen_less)

declare unwind_frame_loop.simps [simp del]

definition unwind_frame ::
  "py_version \<Rightarrow> remote \<Rightarrow> i32 list \<Rightarrow> nat \<Rightarrow> addr \<Rightarrow> frame_stack \<Rightarrow> 'a frames_state_scheme
     \<Rightarrow> (nat \<times> frame_stack \<times> 'a frames_state_scheme) option" where
  "unwind_frame V R stk max_frames frame_addr stack s =
     unwind_frame_loop V R stk max_frames {} frame_addr 0 stack s"

text \<open>
  The unsafe variant walks the interpreter's own frames. From 3.13 on it first skips the
  frames whose executable is not a code object, in a loop nothing bounds.
\<close>

partial_function (option) skip_non_code :: "remote \<Rightarrow> cpython_api \<Rightarrow> addr \<Rightarrow> addr option" where
  "skip_non_code R api current =
     (if current = NULL then Some NULL
      else (case rd_iframe R current of
              None \<Rightarrow> None
            | Some iframe \<Rightarrow>
                if api_is_code api (if_code iframe) then Some current
                else skip_non_code R api (if_previous iframe)))"

function unwind_frame_unsafe_loop ::
  "py_version \<Rightarrow> remote \<Rightarrow> cpython_api \<Rightarrow> nat \<Rightarrow> addr set \<Rightarrow> addr \<Rightarrow> nat \<Rightarrow> frame_stack
     \<Rightarrow> 'a frames_state_scheme \<Rightarrow> (nat \<times> frame_stack \<times> 'a frames_state_scheme) option" where
  "unwind_frame_unsafe_loop V R api max_frames seen current count stack s =
     (if current \<noteq> NULL \<and> length stack < max_frames then
        if current \<in> seen then Some (count, stack, s)
        else
          (case (if V313 \<le> V then skip_non_code R api current else Some current) of
             None \<Rightarrow> None
           | Some current \<Rightarrow>
               if current = NULL then Some (count, stack, s)
               else
                 (case frame_get_unsafe V R api current s of
                    None \<Rightarrow> None
                  | Some (Inl e, s) \<Rightarrow> None
                  | Some (Inr ref, s) \<Rightarrow>
                      (case (if V311 \<le> V then map_option if_previous (rd_iframe R current)
                             else map_option f_back (rd_frame R current)) of
                         None \<Rightarrow> None
                       | Some back \<Rightarrow>
                           unwind_frame_unsafe_loop V R api max_frames (insert current seen) back
                             (Suc count) (stack @ [ref]) s)))
      else Some (count, stack, s))"
  by pat_completeness auto

termination
  by (relation "measure (\<lambda>(_, _, _, max_frames, _, _, _, stack, _). max_frames - length stack)") auto

declare unwind_frame_unsafe_loop.simps [simp del]

definition unwind_frame_unsafe ::
  "py_version \<Rightarrow> remote \<Rightarrow> cpython_api \<Rightarrow> nat \<Rightarrow> addr \<Rightarrow> frame_stack \<Rightarrow> 'a frames_state_scheme
     \<Rightarrow> (nat \<times> frame_stack \<times> 'a frames_state_scheme) option" where
  "unwind_frame_unsafe V R api max_frames frame stack s =
     unwind_frame_unsafe_loop V R api max_frames {} frame 0 stack s"

text \<open>Refreshing the copies of the data stack, from 3.11 on.\<close>

definition update_stack_chunk ::
  "py_version \<Rightarrow> remote \<Rightarrow> py_tstate \<Rightarrow> 'a frames_state_scheme \<Rightarrow> 'a frames_state_scheme option" where
  "update_stack_chunk V R tstate s =
     (if V311 \<le> V
      then map_option (\<lambda>sc. s\<lparr>stack_chunk := sc\<rparr>)
             (refresh_stack_chunk R (ts_datastack_chunk tstate) (stack_chunk s))
      else Some s)"

definition unwind_python_stack ::
  "py_version \<Rightarrow> remote \<Rightarrow> i32 list \<Rightarrow> nat \<Rightarrow> py_tstate \<Rightarrow> 'a frames_state_scheme
     \<Rightarrow> (frame_stack \<times> 'a frames_state_scheme) option" where
  "unwind_python_stack V R stk max_frames tstate s =
     do { s \<leftarrow> update_stack_chunk V R tstate s;
          let frame_addr = (if V313 \<le> V then Some (ts_current_frame tstate)
                            else if V311 \<le> V then copy_type (rd_cframe R) (ts_cframe tstate)
                            else Some (ts_frame tstate));
          case frame_addr of
            None \<Rightarrow> Some ([], s)
          | Some a \<Rightarrow> map_option snd (unwind_frame V R stk max_frames a [] s) }"

definition unwind_python_stack_unsafe ::
  "py_version \<Rightarrow> remote \<Rightarrow> cpython_api \<Rightarrow> nat \<Rightarrow> py_tstate \<Rightarrow> 'a frames_state_scheme
     \<Rightarrow> (frame_stack \<times> 'a frames_state_scheme) option" where
  "unwind_python_stack_unsafe V R api max_frames tstate s =
     do { s \<leftarrow> update_stack_chunk V R tstate s;
          frame_addr \<leftarrow> (if V313 \<le> V then Some (ts_current_frame tstate)
                          else if V311 \<le> V then rd_cframe R (ts_cframe tstate)
                          else Some (ts_frame tstate));
          map_option snd (unwind_frame_unsafe V R api max_frames frame_addr [] s) }"

section \<open>Interleaving\<close>

text \<open>
  Both stacks are walked from the outermost frame, so the lists here are reversed; the
  result is built with \<open>push_front\<close>. Complaints go to the standard error.
\<close>

fun has_infix :: "string \<Rightarrow> string \<Rightarrow> bool" where
  "has_infix pat [] = (pat = [])"
| "has_infix pat (c # cs) = (take (length pat) (c # cs) = pat \<or> has_infix pat cs)"

text \<open>\<open>while (p != python_stack.rend())\<close>: up to the second entry frame.\<close>

fun take_python ::
  "'a frames_state_scheme \<Rightarrow> nat \<Rightarrow> frame_stack \<Rightarrow> frame_stack \<Rightarrow> (frame_stack \<times> frame_stack) option" where
  "take_python s cframe_count [] out = Some ([], out)"
| "take_python s cframe_count (p # ps) out =
     (case deref p s of
        None \<Rightarrow> None
      | Some f \<Rightarrow>
          (let cframe_count = cframe_count + of_bool (is_entry f) in
           if 2 \<le> cframe_count then Some (p # ps, out)
           else take_python s cframe_count ps (p # out)))"

fun interleave_loop ::
  "py_version \<Rightarrow> 'a frames_state_scheme \<Rightarrow> frame_stack \<Rightarrow> frame_stack \<Rightarrow> frame_stack \<Rightarrow> string list
     \<Rightarrow> (unit result \<times> frame_stack \<times> frame_stack \<times> string list) option" where
  "interleave_loop V s [] ps out err = Some (Inr (), ps, out, err)"
| "interleave_loop V s (n # ns) ps out err =
     (case deref n s of
        None \<Rightarrow> None
      | Some native_frame \<Rightarrow>
          (case string_lookup (fr_name native_frame) s of
             Inl e \<Rightarrow> Some (Inl LookupError, ps, out, err)
           | Inr name \<Rightarrow>
               if has_infix ''PyEval_EvalFrameDefault'' name then
                 (case ps of
                    [] \<Rightarrow> interleave_loop V s ns ps (n # out)
                            (err @ [''Expected Python frame(s), found none!''])
                  | p # ps' \<Rightarrow>
                      if V311 \<le> V then
                        (case take_python s 0 ps out of
                           None \<Rightarrow> None
                         | Some (ps, out) \<Rightarrow> interleave_loop V s ns ps out err)
                      else interleave_loop V s ns ps' (p # out) err)
               else interleave_loop V s ns ps (n # out) err))"

text \<open>\<open>native_stack.rend() - 2\<close> needs two frames at least.\<close>

definition interleave_stacks ::
  "py_version \<Rightarrow> frame_stack \<Rightarrow> frame_stack \<Rightarrow> 'a frames_state_scheme
     \<Rightarrow> (unit result \<times> frame_stack \<times> string list) option" where
  "interleave_stacks V native_stack python_stack s =
     (if length native_stack < 2 then None
      else
        (case interleave_loop V s (rev (drop 2 native_stack)) (rev python_stack) [] [] of
           None \<Rightarrow> None
         | Some (Inl e, ps, out, err) \<Rightarrow> Some (Inl e, out, err)
         | Some (Inr u, ps, out, err) \<Rightarrow>
             if ps = [] then Some (Inr (), out, err)
             else Some (Inr (), rev ps @ out, err @ [''Python stack not empty after interleaving!''])))"

section \<open>StackTable\<close>

text \<open>The table owns its stacks; they hold references into the cache.\<close>

type_synonym stack_table = "addr \<rightharpoonup> frame_stack"

definition stack_table_store ::
  "frame_stack \<Rightarrow> 'a frames_state_scheme \<Rightarrow> stack_table \<Rightarrow> (addr \<times> stack_table) option" where
  "stack_table_store stack s table =
     (case stack_key stack s of
        None \<Rightarrow> None
      | Some k \<Rightarrow> Some (k, if table k = None then table(k \<mapsto> stack) else table))"

text \<open>\<open>retrieve\<close> follows the iterator \<open>find\<close> gives, whether or not it is the end.\<close>

definition stack_table_retrieve :: "addr \<Rightarrow> stack_table \<Rightarrow> frame_stack option" where
  "stack_table_retrieve k table = table k"

definition stack_table_clear :: "stack_table \<Rightarrow> stack_table" where
  "stack_table_clear table = Map.empty"


section \<open>The unwound frames are alive\<close>

text \<open>A frame that passes for the C frame is the static one, and reading it uses no cache.\<close>

lemma C_frame_read:
  assumes ok: "frames_ok s" and run: "frame_read V R stk (a, prev) s = Some (Inr ref, p, s')"
    and f: "deref ref s' = Some f" "fr_name f = C_FRAME"
  shows "s' = s"
proof -
  have ok': "frames_ok s'"
    using frame_read_law [OF ok run] by blast
  have ref: "ref = C_FRAME_REF"
  proof (cases ref)
    case (FrameRef n)
    then have "names_interned f s'"
      using ok' f(1) by (simp add: frames_ok_def)
    moreover have "string_table s' C_FRAME = None"
      using ok' by (simp add: frames_ok_def)
    ultimately show ?thesis
      using f(2) by (simp add: names_interned_def)
  qed (use f in \<open>auto simp: new_frame_def C_FRAME_def INVALID_def UNKNOWN_def\<close>)
  from run show ?thesis
  proof (cases rule: frame_read_cases)
    case (got x r b t)
    then show ?thesis
      using frame_get_law [OF ok got(1)] ref by auto
  qed (use ref in auto)
qed

lemma unwind_frame_loop_stop:
  "\<not> (current \<noteq> NULL \<and> length stack < max_frames \<and> current \<notin> seen)
    \<Longrightarrow> unwind_frame_loop V R stk max_frames seen current count stack s = Some (count, stack, s)"
  by (subst unwind_frame_loop.simps) auto

lemma unwind_frame_loop_go:
  "current \<noteq> NULL \<and> length stack < max_frames \<and> current \<notin> seen
    \<Longrightarrow> unwind_frame_loop V R stk max_frames seen current count stack s =
      (case frame_read V R stk (current, current) s of
         None \<Rightarrow> None
       | Some (Inl e, p, s) \<Rightarrow> Some (count, stack, s)
       | Some (Inr ref, p, s) \<Rightarrow>
           (case deref ref s of
              None \<Rightarrow> None
            | Some f \<Rightarrow>
                if fr_name f = C_FRAME
                then unwind_frame_loop V R stk max_frames (insert current seen) p count stack s
                else unwind_frame_loop V R stk max_frames (insert current seen) p (Suc count) (stack @ [ref]) s))"
  by (subst unwind_frame_loop.simps) auto

text \<open>
  \<open>held refs n s\<close>: the invariant holds and the references were used within the last \<open>n\<close> uses
  of the cache. A stack that is not popped holds as many uses as it has frames.
\<close>

definition held :: "frame_ref list \<Rightarrow> nat \<Rightarrow> 'a frames_state_scheme \<Rightarrow> bool" where
  "held refs n s \<longleftrightarrow> frames_ok s \<and> pinned refs n s"

lemma held_stack_ok: "held refs (length refs) s = stack_ok refs s"
  by (simp add: held_def stack_ok_def)

lemma held_live: "held refs n s \<Longrightarrow> ref \<in> set refs \<Longrightarrow> deref ref s \<noteq> None"
  unfolding held_def using pinned_live by blast

lemma held_subset: "held refs n s \<Longrightarrow> set refs' \<subseteq> set refs \<Longrightarrow> n \<le> m \<Longrightarrow> held refs' m s"
  unfolding held_def using pinned_subset by blast

lemma unwind_frame_loop_held:
  assumes "unwind_frame_loop V R stk max_frames seen current count stack s = Some (count', stack', s')"
    and "held refs n s" "n + (max_frames - length stack) \<le> cache_cap s"
  shows "\<exists>new. stack' = stack @ new \<and> count' = count + length new \<and> length new \<le> max_frames - length stack
    \<and> held (refs @ new) (n + length new) s' \<and> frame_step s s'"
  using assms
proof (induction V R stk max_frames seen current count stack s arbitrary: refs n
    rule: unwind_frame_loop.induct)
  case (1 V R stk max_frames seen current count stack s)
  show ?case
  proof (cases "current \<noteq> NULL \<and> length stack < max_frames \<and> current \<notin> seen")
    case False
    then show ?thesis
      using 1(3,4) by (simp add: unwind_frame_loop_stop)
  next
    case go: True
    then have seen: "current \<noteq> NULL \<and> length stack < max_frames" "current \<notin> seen"
      by blast+
    obtain r p t where read: "frame_read V R stk (current, current) s = Some (r, p, t)"
      using 1(3) go by (auto simp: unwind_frame_loop_go split: option.splits)
    then have op: "frame_read_op V R stk (current, current) s = Some (r, t)"
      by (simp add: frame_read_op_def)
    have ok: "frames_ok s" "pinned refs n s" "n < cache_cap s"
      using 1(4,5) go by (auto simp: held_def)
    then have t: "frames_ok t" "frame_step s t"
      using reading.keeps [OF op] reading.steps [OF op] by auto
    show ?thesis
    proof (cases r)
      case (Inl e)
      then have "count' = count" "stack' = stack" "s' = t"
        using 1(3) go read by (simp_all add: unwind_frame_loop_go)
      then show ?thesis
        using reading.fails [OF op [unfolded Inl] _ ok(1,2)] t by (simp add: held_def)
    next
      case (Inr ref)
      have "deref ref t \<noteq> None"
        using reading.got_live [OF op [unfolded Inr] _ ok(1)] ok(3) by simp
      then obtain f where f: "deref ref t = Some f"
        by blast
      show ?thesis
      proof (cases "fr_name f = C_FRAME")
        case True
        have "t = s"
          using C_frame_read [OF ok(1) read [unfolded Inr] f True] .
        then show ?thesis
          using 1(1) [OF seen read refl Inr refl f True] 1(3,4,5) go read Inr f True
          by (simp add: unwind_frame_loop_go)
      next
        case False
        have push: "held (refs @ [ref]) (Suc n) t"
          using reading.pins [OF op [unfolded Inr] _ ok] t by (simp add: held_def)
        have room: "Suc n + (max_frames - length (stack @ [ref])) \<le> cache_cap t"
          using 1(5) go t(2) unfolding frame_step_def by (simp only: length_append) auto
        have rest: "unwind_frame_loop V R stk max_frames (insert current seen) p (Suc count) (stack @ [ref]) t
            = Some (count', stack', s')"
          using 1(3) go read Inr f False by (simp add: unwind_frame_loop_go)
        from 1(2) [OF seen read refl Inr refl f False rest push room] obtain new where
          "stack' = (stack @ [ref]) @ new" "count' = Suc count + length new"
          "length new \<le> max_frames - length (stack @ [ref])"
          "held ((refs @ [ref]) @ new) (Suc n + length new) s'" "frame_step t s'"
          by auto
        then show ?thesis
          using go t(2) by (intro exI [of _ "ref # new"]) (auto intro: frame_step_trans)
      qed
    qed
  qed
qed

lemma unwind_frame_loop_ok:
  assumes "unwind_frame_loop V R stk max_frames seen current count stack s = Some (count', stack', s')"
    and "stack_ok (base @ stack) s" "length base + max_frames \<le> cache_cap s"
    and "length stack \<le> max_frames"
  shows "stack_ok (base @ stack') s' \<and> frame_step s s' \<and> length stack' + count = length stack + count'
    \<and> length stack' \<le> max_frames \<and> take (length stack) stack' = stack"
  using unwind_frame_loop_held [OF assms(1), of "base @ stack" "length (base @ stack)"] assms(2-4)
  by (auto simp: held_stack_ok [symmetric] add.assoc)

lemma unwind_frame_loop_defined:
  assumes "frames_ok s" "0 < cache_cap s" "tables_ok V R"
    and "\<And>a. V311 \<le> V \<Longrightarrow> read_iframe R (stack_chunk s) a \<noteq> None"
  shows "\<exists>y. unwind_frame_loop V R stk max_frames seen current count stack s = Some y"
  using assms
proof (induction V R stk max_frames seen current count stack s rule: unwind_frame_loop.induct)
  case (1 V R stk max_frames seen current count stack s)
  show ?case
  proof (cases "current \<noteq> NULL \<and> length stack < max_frames \<and> current \<notin> seen")
    case False
    then show ?thesis
      by (simp add: unwind_frame_loop_stop)
  next
    case go: True
    then have seen: "current \<noteq> NULL \<and> length stack < max_frames" "current \<notin> seen"
      by blast+
    obtain r p t where read: "frame_read V R stk (current, current) s = Some (r, p, t)"
      using frame_read_defined [OF 1(3,4,5), of current stk current] 1(6) by auto
    then have op: "frame_read_op V R stk (current, current) s = Some (r, t)"
      by (simp add: frame_read_op_def)
    show ?thesis
    proof (cases r)
      case (Inl e)
      then show ?thesis
        using go read by (simp add: unwind_frame_loop_go)
    next
      case (Inr ref)
      obtain f where f: "deref ref t = Some f"
        using reading.got_live [OF op [unfolded Inr] _ 1(3,4)] by auto
      have ok: "frames_ok t" "frame_step s t"
        using reading.keeps [OF op _ 1(3)] reading.steps [OF op _ 1(3)] by simp_all
      have cap: "0 < cache_cap t" and ri: "\<And>a. V311 \<le> V \<Longrightarrow> read_iframe R (stack_chunk t) a \<noteq> None"
        using ok(2) 1(4,6) by (simp_all add: frame_step_def)
      note IH = 1(1) [OF seen read refl Inr refl f _ ok(1) cap 1(5) ri]
        1(2) [OF seen read refl Inr refl f _ ok(1) cap 1(5) ri]
      show ?thesis
        using IH go read Inr f by (cases "fr_name f = C_FRAME") (simp_all add: unwind_frame_loop_go)
    qed
  qed
qed

text \<open>Whatever the limit is, the invariant is kept.\<close>

lemma unwind_frame_loop_keeps:
  assumes "unwind_frame_loop V R stk max_frames seen current count stack s = Some (count', stack', s')"
    and "frames_ok s"
  shows "frames_ok s' \<and> frame_step s s'"
  using assms
proof (induction V R stk max_frames seen current count stack s rule: unwind_frame_loop.induct)
  case (1 V R stk max_frames seen current count stack s)
  show ?case
  proof (cases "current \<noteq> NULL \<and> length stack < max_frames \<and> current \<notin> seen")
    case False
    then show ?thesis
      using 1(3,4) by (simp add: unwind_frame_loop_stop)
  next
    case go: True
    then have seen: "current \<noteq> NULL \<and> length stack < max_frames" "current \<notin> seen"
      by blast+
    obtain r p t where read: "frame_read V R stk (current, current) s = Some (r, p, t)"
      using 1(3) go by (auto simp: unwind_frame_loop_go split: option.splits)
    then have op: "frame_read_op V R stk (current, current) s = Some (r, t)"
      by (simp add: frame_read_op_def)
    have t: "frames_ok t" "frame_step s t"
      using reading.keeps [OF op _ 1(4)] reading.steps [OF op _ 1(4)] by simp_all
    show ?thesis
    proof (cases r)
      case (Inl e)
      then show ?thesis
        using 1(3) go read t by (simp add: unwind_frame_loop_go)
    next
      case (Inr ref)
      then obtain f where f: "deref ref t = Some f"
        using 1(3) go read by (auto simp: unwind_frame_loop_go split: option.splits)
      have "frames_ok s' \<and> frame_step t s'"
        using 1(1) [OF seen read refl Inr refl f _ _ t(1)] 1(2) [OF seen read refl Inr refl f _ _ t(1)]
          1(3) go read Inr f by (simp add: unwind_frame_loop_go split: if_splits)
      then show ?thesis
        using t(2) frame_step_trans by blast
    qed
  qed
qed

text \<open>The native loop and the unsafe loop.\<close>

lemma unwind_native_loop_ok:
  assumes "unwind_native_loop demangle max_frames cursors stack s = Some (stack', s')"
    and "stack_ok (base @ stack) s" "length base + max_frames \<le> cache_cap s" "list_all cursor_ok cursors"
  shows "stack_ok (base @ stack') s' \<and> frame_step s s' \<and> length stack' \<le> max (length stack) max_frames"
  using assms
proof (induction cursors arbitrary: stack s)
  case (Cons c cs)
  show ?case
  proof (cases "length stack < max_frames")
    case True
    with Cons.prems(1) obtain r t where get: "frame_get_native demangle c s = Some (r, t)"
      by (auto split: option.splits)
    show ?thesis
    proof (cases r)
      case (Inl e)
      then show ?thesis
        using get_native.stop_ok [OF get [unfolded Inl] _ Cons.prems(2)] Cons.prems True get by simp
    next
      case (Inr ref)
      have push: "stack_ok (base @ stack @ [ref]) t" "frame_step s t"
        using get_native.push_ok [OF get [unfolded Inr] _ Cons.prems(2)] Cons.prems(3,4) True by auto
      then have "length base + max_frames \<le> cache_cap t"
        using Cons.prems(3) by (simp add: frame_step_def)
      then show ?thesis
        using Cons.IH [of "stack @ [ref]" t] Cons.prems True get Inr push frame_step_trans by fastforce
    qed
  qed (use Cons.prems in simp)
qed simp

lemma unwind_frame_unsafe_loop_ok:
  assumes "unwind_frame_unsafe_loop V R api max_frames seen current count stack s = Some (count', stack', s')"
    and "stack_ok stack s" "max_frames \<le> cache_cap s" "names_not_C R"
  shows "stack_ok stack' s' \<and> frame_step s s' \<and> length stack' \<le> max (length stack) max_frames"
  using assms
proof (induction V R api max_frames seen current count stack s rule: unwind_frame_unsafe_loop.induct)
  case (1 V R api max_frames seen current count stack s)
  show ?case
  proof (cases "current \<noteq> NULL \<and> length stack < max_frames \<and> current \<notin> seen")
    case False
    then have "unwind_frame_unsafe_loop V R api max_frames seen current count stack s = Some (count, stack, s)"
      by (subst unwind_frame_unsafe_loop.simps) auto
    then show ?thesis
      using 1(2,3) by simp
  next
    case go: True
    then have seen: "current \<noteq> NULL \<and> length stack < max_frames" "current \<notin> seen"
      by blast+
    obtain c where c: "(if V313 \<le> V then skip_non_code R api current else Some current) = Some c"
      using 1(2) go by (subst (asm) unwind_frame_unsafe_loop.simps) (auto split: option.splits)
    show ?thesis
    proof (cases "c = NULL")
      case True
      have "unwind_frame_unsafe_loop V R api max_frames seen current count stack s = Some (count, stack, s)"
        using go c True by (subst unwind_frame_unsafe_loop.simps) auto
      then show ?thesis
        using 1(2,3) by simp
    next
      case False
      have body: "(case frame_get_unsafe V R api c s of
              None \<Rightarrow> None
            | Some (Inl e, s) \<Rightarrow> None
            | Some (Inr ref, s) \<Rightarrow>
                (case (if V311 \<le> V then map_option if_previous (rd_iframe R c)
                       else map_option f_back (rd_frame R c)) of
                   None \<Rightarrow> None
                 | Some back \<Rightarrow>
                     unwind_frame_unsafe_loop V R api max_frames (insert c seen) back
                       (Suc count) (stack @ [ref]) s)) = Some (count', stack', s')"
        using 1(2) go c False by (subst (asm) unwind_frame_unsafe_loop.simps) simp
      then obtain r t where get: "frame_get_unsafe V R api c s = Some (r, t)"
        by (auto split: option.splits)
      with body obtain ref where ref: "r = Inr ref"
        by (cases r) simp_all
      with body get obtain prv where
        prv: "(if V311 \<le> V then map_option if_previous (rd_iframe R c)
                else map_option f_back (rd_frame R c)) = Some prv"
        and rest: "unwind_frame_unsafe_loop V R api max_frames (insert c seen) prv
            (Suc count) (stack @ [ref]) t = Some (count', stack', s')"
        by (auto split: option.splits)
      have push: "stack_ok (stack @ [ref]) t" "frame_step s t"
        using get_unsafe.push_ok [OF get [unfolded ref] 1(5,3)] go 1(4) by auto
      then have "max_frames \<le> cache_cap t"
        using 1(4) by (simp add: frame_step_def)
      then show ?thesis
        using 1(1) [OF seen c False get refl ref prv rest push(1) _ 1(5)] push(2) go frame_step_trans
        by fastforce
    qed
  qed
qed

section \<open>Rendering\<close>

lemma frames_ok_emit_frame:
  assumes "frames_ok s" "cache_key f = 0 \<or> cache_key f \<in> frame_keys (calls s)"
  shows "frames_ok (s\<lparr>calls := calls s @ [R_render_frame f]\<rparr>)"
  using assms
  by (auto simp: frames_ok_def refs_ok_snoc announced_def cache_owns_def cache_entries_def names_interned_def)

lemma render_refs_ok:
  assumes "frames_ok s" "\<And>ref. ref \<in> set refs \<Longrightarrow> deref ref s \<noteq> None"
  shows "\<exists>cs. render_refs V (\<lambda>f cs. cs @ [R_render_frame f]) refs s (calls s @ ds) = Some (calls s @ ds @ cs)
    \<and> (\<forall>c \<in> set cs. \<exists>f ref. c = R_render_frame f \<and> ref \<in> set refs \<and> deref ref s = Some f)"
  using assms(2)
proof (induction refs arbitrary: ds)
  case (Cons ref refs)
  obtain f where f: "deref ref s = Some f"
    using Cons.prems [of ref] by auto
  note IH = Cons.IH [OF Cons.prems]
  show ?case
  proof (cases "V312 \<le> V \<and> is_entry f")
    case True
    obtain cs where "render_refs V (\<lambda>f cs. cs @ [R_render_frame f]) refs s (calls s @ ds) = Some (calls s @ ds @ cs)"
      "\<forall>c \<in> set cs. \<exists>f ref. c = R_render_frame f \<and> ref \<in> set refs \<and> deref ref s = Some f"
      using IH [of ds] by auto
    with f True show ?thesis
      by (intro exI [of _ cs]) auto
  next
    case False
    obtain cs where "render_refs V (\<lambda>f cs. cs @ [R_render_frame f]) refs s (calls s @ ds @ [R_render_frame f])
        = Some (calls s @ (ds @ [R_render_frame f]) @ cs)"
      "\<forall>c \<in> set cs. \<exists>f ref. c = R_render_frame f \<and> ref \<in> set refs \<and> deref ref s = Some f"
      using IH [of "ds @ [R_render_frame f]"] by auto
    with f False show ?thesis
      by (intro exI [of _ "R_render_frame f # cs"]) auto
  qed
qed simp

lemma refs_ok_render:
  assumes "\<forall>c \<in> set cs. \<exists>f. c = R_render_frame f \<and> (cache_key f = 0 \<or> cache_key f \<in> F)"
  shows "refs_ok S F cs"
  using assms
proof (induction cs arbitrary: S F)
  case (Cons c cs)
  then obtain f where "c = R_render_frame f" "cache_key f = 0 \<or> cache_key f \<in> F"
    by auto
  with Cons show ?case
    by auto
qed simp

text \<open>A stack whose frames are alive is rendered, and the stream stays well ordered.\<close>

lemma stack_render_ok:
  assumes ok: "frames_ok s" and live: "\<And>ref. ref \<in> set stack \<Longrightarrow> deref ref s \<noteq> None"
  shows "\<exists>s'. stack_render V stack s = Some s' \<and> frames_ok s' \<and> frame_step s s'
    \<and> cache_entries s' = cache_entries s \<and> frame_heap s' = frame_heap s"
proof -
  obtain cs where cs: "render_refs V (\<lambda>f cs. cs @ [R_render_frame f]) (rev stack) s (calls s) = Some (calls s @ cs)"
    "\<forall>c \<in> set cs. \<exists>f ref. c = R_render_frame f \<and> ref \<in> set stack \<and> deref ref s = Some f"
    using render_refs_ok [OF ok, of "rev stack" V "[]"] live by auto
  define s' where "s' = s\<lparr>calls := calls s @ cs\<rparr>"
  have "refs_ok presets {} (calls s @ cs)"
  proof -
    have "refs_ok (presets \<union> string_keys (calls s)) ({} \<union> frame_keys (calls s)) cs"
      using cs(2) live_frame_key [OF ok] by (intro refs_ok_render) fastforce
    then show ?thesis
      using ok by (simp add: refs_ok_append frames_ok_def)
  qed
  then have "frames_ok s'"
    using ok by (auto simp: s'_def frames_ok_def announced_def cache_owns_def cache_entries_def names_interned_def)
  moreover have "list_all sampling_call cs"
    using cs(2) by (fastforce simp: list_all_iff)
  then have "frame_step s s'" "cache_entries s' = cache_entries s" "frame_heap s' = frame_heap s"
    by (simp_all add: s'_def frame_step_def extends_def cache_cap_def cache_entries_def)
  moreover have "stack_render V stack s = Some s'"
    using cs(1) by (simp add: stack_render_def s'_def)
  ultimately show ?thesis
    by blast
qed


section \<open>Keys of stacks\<close>

lemma bit_rotl: "bit (rotl w) n \<longleftrightarrow> n < 64 \<and> bit w (if n = 0 then 63 else n - 1)"
proof -
  have "bit (rotl w) n \<longleftrightarrow> (1 \<le> n \<and> n < 64 \<and> bit w (n - 1)) \<or> bit w (63 + n)"
    by (simp add: rotl_def bit_or_iff bit_push_bit_iff bit_drop_bit_eq del: push_bit_of_1 push_bit_Suc)
  moreover have "bit w (63 + n) \<longleftrightarrow> n = 0 \<and> bit w 63"
    using bit_imp_le_length [of w "63 + n"] by auto
  ultimately show ?thesis
    by auto
qed

lemma rotl_inj: "rotl v = rotl w \<longleftrightarrow> v = w"
proof
  assume eq: "rotl v = rotl w"
  show "v = w"
  proof (rule bit_word_eqI)
    fix n assume "n < LENGTH(64)"
    then have "bit v n = bit (rotl v) (if n = 63 then 0 else Suc n)"
      "bit w n = bit (rotl w) (if n = 63 then 0 else Suc n)"
      by (auto simp: bit_rotl)
    with eq show "bit v n = bit w n"
      by simp
  qed
qed simp

lemma xor_cancel: "(a :: addr) XOR b = a XOR c \<longleftrightarrow> b = c"
proof
  assume "a XOR b = a XOR c"
  then have "a XOR (a XOR b) = a XOR (a XOR c)"
    by simp
  then show "b = c"
    by (simp add: xor.assoc [symmetric])
qed simp

lemma stack_key_from_append:
  "stack_key_from h (xs @ ys) s = do { h \<leftarrow> stack_key_from h xs s; stack_key_from h ys s }"
  by (induction xs arbitrary: h) (auto split: option.split)

lemma stack_key_from_inj:
  assumes "stack_key_from h refs s = Some k" "stack_key_from h' refs s = Some k"
  shows "h = h'"
  using assms
proof (induction refs arbitrary: h h')
  case (Cons ref refs)
  then obtain f where f: "deref ref s = Some f"
    by (auto split: option.splits)
  with Cons have "rotl h XOR cache_key f = rotl h' XOR cache_key f"
    by fastforce
  then have "cache_key f XOR rotl h = cache_key f XOR rotl h'"
    by (simp add: xor.commute)
  then show ?case
    by (simp only: xor_cancel rotl_inj)
qed simp

section \<open>Interleaving\<close>

abbreviation is_eval :: "'a frames_state_scheme \<Rightarrow> frame_ref \<Rightarrow> bool" where
  "is_eval s ref \<equiv> (case deref ref s of
     None \<Rightarrow> False
   | Some f \<Rightarrow> (case string_lookup (fr_name f) s of
       Inl e \<Rightarrow> False | Inr name \<Rightarrow> has_infix ''PyEval_EvalFrameDefault'' name))"

lemma take_python_defined:
  assumes "\<And>p. p \<in> set ps \<Longrightarrow> deref p s \<noteq> None"
  shows "\<exists>taken ps'. take_python s n ps out = Some (ps', rev taken @ out) \<and> ps = taken @ ps'"
  using assms
proof (induction ps arbitrary: n out)
  case (Cons p ps)
  obtain f where f: "deref p s = Some f"
    using Cons.prems [of p] by auto
  show ?case
  proof (cases "2 \<le> n + of_bool (is_entry f)")
    case True
    with f show ?thesis
      by (intro exI [of _ "[]"] exI [of _ "p # ps"]) simp
  next
    case False
    obtain taken ps' where "take_python s (n + of_bool (is_entry f)) ps (p # out) = Some (ps', rev taken @ p # out)"
      "ps = taken @ ps'"
      using Cons.IH [of "n + of_bool (is_entry f)" "p # out"] Cons.prems by auto
    with f False show ?thesis
      by (intro exI [of _ "p # taken"] exI [of _ ps']) simp
  qed
qed auto

lemma shuffles_push: "out \<in> shuffles k t \<Longrightarrow> rev xs @ out \<in> shuffles k (rev xs @ t)"
proof (induction xs arbitrary: out t)
  case (Cons x xs)
  then show ?case
    using Cons.IH [of "x # out" "x # t"] by (simp add: Cons_in_shuffles_rightI)
qed simp

lemma interleave_loop_take:
  assumes "deref n s = Some f" "string_lookup (fr_name f) s = Inr str" "has_infix ''PyEval_EvalFrameDefault'' str"
    and "ps \<noteq> []" "\<And>p. p \<in> set ps \<Longrightarrow> deref p s \<noteq> None"
  shows "\<exists>taken ps1. ps = taken @ ps1
    \<and> interleave_loop V s (n # ns) ps out err = interleave_loop V s ns ps1 (rev taken @ out) err"
proof -
  obtain p ps0 where ps: "ps = p # ps0"
    using assms(4) by (cases ps) auto
  show ?thesis
  proof (cases "V311 \<le> V")
    case True
    obtain taken ps1 where tk: "take_python s 0 ps out = Some (ps1, rev taken @ out)" "ps = taken @ ps1"
      using take_python_defined [OF assms(5), of ps 0 out] by blast
    have "interleave_loop V s (n # ns) ps out err = interleave_loop V s ns ps1 (rev taken @ out) err"
      using assms(1-3) True tk(1) unfolding ps by simp
    with tk(2) show ?thesis
      by blast
  next
    case False
    then show ?thesis
      using assms(1-3) ps by (intro exI [of _ "[p]"] exI [of _ ps0]) simp
  qed
qed

lemma interleave_loop_spec:
  assumes "out \<in> shuffles k t"
    and "\<And>n. n \<in> set ns \<Longrightarrow> \<exists>f str. deref n s = Some f \<and> string_lookup (fr_name f) s = Inr str"
    and "\<And>p. p \<in> set ps \<Longrightarrow> deref p s \<noteq> None"
  shows "\<exists>ps' out' err' kept t'. interleave_loop V s ns ps out err = Some (Inr (), ps', out', err')
    \<and> out' \<in> shuffles (kept @ k) t' \<and> rev ps' @ t' = rev ps @ t
    \<and> subseq kept (rev ns) \<and> filter (\<lambda>n. \<not> is_eval s n) kept = filter (\<lambda>n. \<not> is_eval s n) (rev ns)"
  using assms
proof (induction ns arbitrary: ps out err k t)
  case Nil
  then show ?case
    by (intro exI [of _ ps] exI [of _ out] exI [of _ err] exI [of _ "[]"] exI [of _ t]) simp
next
  case (Cons n ns)
  obtain f str where n: "deref n s = Some f" "string_lookup (fr_name f) s = Inr str"
    using Cons.prems(2) [of n] by auto
  have ns: "\<And>n. n \<in> set ns \<Longrightarrow> \<exists>f str. deref n s = Some f \<and> string_lookup (fr_name f) s = Inr str"
    using Cons.prems(2) by simp
  have push_native: ?case
    if run: "interleave_loop V s (n # ns) ps out err = interleave_loop V s ns ps (n # out) err2" for err2
  proof -
    have "n # out \<in> shuffles (n # k) t"
      using Cons.prems(1) by (rule Cons_in_shuffles_leftI)
    from Cons.IH [OF this ns Cons.prems(3)] obtain ps' out' err' kept t' where
      *: "interleave_loop V s ns ps (n # out) err2 = Some (Inr (), ps', out', err')"
      "out' \<in> shuffles (kept @ n # k) t'" "rev ps' @ t' = rev ps @ t" "subseq kept (rev ns)"
      "filter (\<lambda>n. \<not> is_eval s n) kept = filter (\<lambda>n. \<not> is_eval s n) (rev ns)"
      by blast
    then have "subseq (kept @ [n]) (rev (n # ns))"
      by simp
    with * run show ?thesis
      by (intro exI [of _ ps'] exI [of _ out'] exI [of _ err'] exI [of _ "kept @ [n]"] exI [of _ t']) simp
  qed
  show ?case
  proof (cases "has_infix ''PyEval_EvalFrameDefault'' str")
    case False
    then show ?thesis
      using n by (intro push_native [of err]) simp
  next
    case eval: True
    show ?thesis
    proof (cases ps)
      case Nil
      then show ?thesis
        using n eval by (intro push_native [of "err @ [''Expected Python frame(s), found none!'']"]) simp
    next
      case (Cons p ps0)
      then have "ps \<noteq> []"
        by simp
      from interleave_loop_take [OF n eval this Cons.prems(3)] obtain taken ps1 where taken: "ps = taken @ ps1"
        "interleave_loop V s (n # ns) ps out err = interleave_loop V s ns ps1 (rev taken @ out) err"
        by blast
      have live: "\<And>p. p \<in> set ps1 \<Longrightarrow> deref p s \<noteq> None"
        using Cons.prems(3) taken(1) by simp
      from Cons.IH [OF shuffles_push [OF Cons.prems(1), of taken] ns live] obtain ps' out' err' kept t' where
        *: "interleave_loop V s ns ps1 (rev taken @ out) err = Some (Inr (), ps', out', err')"
        "out' \<in> shuffles (kept @ k) t'" "rev ps' @ t' = rev ps1 @ rev taken @ t" "subseq kept (rev ns)"
        "filter (\<lambda>n. \<not> is_eval s n) kept = filter (\<lambda>n. \<not> is_eval s n) (rev ns)"
        by blast
      have "is_eval s n"
        using n eval by simp
      moreover have "subseq kept (rev (n # ns))"
        using *(4) list_emb_append_mono [of "(=)" kept "rev ns" "[]" "[n]"] by simp
      ultimately show ?thesis
        using * taken
        by (intro exI [of _ ps'] exI [of _ out'] exI [of _ err'] exI [of _ kept] exI [of _ t']) simp
    qed
  qed
qed


section \<open>Properties\<close>

lemma update_stack_chunk_law:
  assumes "update_stack_chunk V R tstate s = Some s'"
  shows "frames_ok s' = frames_ok s" "cache_cap s' = cache_cap s" "extends s s'"
    "frames_state.more s' = frames_state.more s" "pinned refs n s' = pinned refs n s"
    "string_table s' = string_table s" "calls s' = calls s"
proof -
  have same: "s = s\<lparr>stack_chunk := stack_chunk s\<rparr>"
    by (rule frames_state.equality) simp_all
  have "\<exists>sc. s' = s\<lparr>stack_chunk := sc\<rparr>"
  proof (cases "V311 \<le> V")
    case False
    then have "s' = s"
      using assms by (simp add: update_stack_chunk_def)
    with same show ?thesis
      by metis
  qed (use assms in \<open>auto simp: update_stack_chunk_def\<close>)
  then obtain sc where "s' = s\<lparr>stack_chunk := sc\<rparr>" ..
  then show "frames_ok s' = frames_ok s" "cache_cap s' = cache_cap s" "extends s s'"
    "frames_state.more s' = frames_state.more s" "pinned refs n s' = pinned refs n s"
    "string_table s' = string_table s" "calls s' = calls s"
    by (simp_all add: frames_ok_def cache_owns_def cache_entries_def cache_cap_def
        announced_def names_interned_def pinned_def extends_def)
qed

lemma unwind_python_stack_ok:
  assumes run: "unwind_python_stack V R stk max_frames tstate s = Some (stack, s')"
    and ok: "stack_ok base s" and max: "length base + max_frames \<le> cache_cap s"
  shows "stack_ok (base @ stack) s' \<and> length stack \<le> max_frames \<and> cache_cap s' = cache_cap s
    \<and> extends s s' \<and> frames_state.more s' = frames_state.more s"
proof -
  obtain t where t: "update_stack_chunk V R tstate s = Some t"
    using run by (auto simp: unwind_python_stack_def bind_eq_Some_iff)
  note law = update_stack_chunk_law [OF t]
  have ok': "stack_ok (base @ []) t" "length base + max_frames \<le> cache_cap t"
    using ok max law by (simp_all add: stack_ok_def)
  consider (none) "stack = []" "s' = t"
    | (frame) a n where "unwind_frame V R stk max_frames a [] t = Some (n, stack, s')"
    using run t by (auto simp: unwind_python_stack_def Let_def split: option.splits if_splits)
  then show ?thesis
  proof cases
    case none
    then show ?thesis
      using ok' law by simp
  next
    case frame
    then have loop: "unwind_frame_loop V R stk max_frames {} a 0 [] t = Some (n, stack, s')"
      by (simp add: unwind_frame_def)
    from unwind_frame_loop_ok [OF loop ok'] show ?thesis
      using law by (auto simp: frame_step_def intro: extends_trans)
  qed
qed

text \<open>C3: unwinding a thread's Python stack gives frames that are alive. If the limit on the
  number of frames is at most the capacity of the cache, then, whatever memory holds, the
  stack has at most that many frames, every reference in it is alive although making the
  frames may have evicted others, and rendering it succeeds, names only frames that the
  stream has defined, and leaves the sampler's invariant intact.\<close>

theorem unwind_python_stack_alive:
  assumes "frames_ok s" "max_frames \<le> cache_cap s"
    and "unwind_python_stack V R stk max_frames tstate s = Some (stack, s')"
  shows "frames_ok s' \<and> length stack \<le> max_frames
    \<and> (\<forall>ref \<in> set stack. deref ref s' \<noteq> None)
    \<and> (\<exists>s''. stack_render V stack s' = Some s'' \<and> frames_ok s'' \<and> extends s s'')"
proof -
  have stack: "stack_ok stack s'" "length stack \<le> max_frames" "extends s s'"
    using unwind_python_stack_ok [OF assms(3), of "[]"] assms(1,2) by auto
  then have ok: "frames_ok s'"
    by (simp add: stack_ok_def)
  have live: "\<And>ref. ref \<in> set stack \<Longrightarrow> deref ref s' \<noteq> None"
    using stack_ok_live [OF stack(1)] .
  obtain s'' where "stack_render V stack s' = Some s''" "frames_ok s''" "frame_step s' s''"
    using stack_render_ok [OF ok live] by blast
  then show ?thesis
    using ok live stack by (auto simp: frame_step_def intro: extends_trans)
qed

definition thread_at :: "addr \<Rightarrow> py_tstate" where
  "thread_at a = \<lparr>ts_next = 0, ts_prev = 0, ts_thread_id = 1, ts_native_thread_id = 1, ts_datastack_chunk = 0,
     ts_current_frame = a, ts_cframe = 0, ts_frame = a, ts_interp_id = 0\<rparr>"

lemma two_frames_unwind:
  "\<exists>stack s'. unwind_python_stack V39 two_frames [] m (thread_at 65536) (start_state (Suc c)) = Some (stack, s')"
proof -
  have "\<exists>y. unwind_frame_loop V39 two_frames [] m {} 65536 0 [] (start_state (Suc c)) = Some y"
    by (rule unwind_frame_loop_defined [OF start_state_ok _ two_frames_tables]) (simp_all add: py_version_order)
  then show ?thesis
    by (auto simp: unwind_python_stack_def update_stack_chunk_def unwind_frame_def thread_at_def py_version_order)
qed

theorem unwind_python_stack_alive_witness:
  "\<exists>stack s'. unwind_python_stack V39 two_frames [] 8 (thread_at 65536) (start_state 8) = Some (stack, s')
     \<and> frames_ok s' \<and> stack_render V39 stack s' \<noteq> None"
proof -
  obtain stack s' where run: "unwind_python_stack V39 two_frames [] 8 (thread_at 65536) (start_state 8)
      = Some (stack, s')"
    using two_frames_unwind [of 8 7] by auto
  from unwind_python_stack_alive [OF start_state_ok _ run] run show ?thesis
    by auto
qed

lemma update_stack_chunk_defined:
  assumes "V311 \<le> V \<Longrightarrow> chain_ends R n (ts_datastack_chunk tstate)"
  shows "\<exists>t. update_stack_chunk V R tstate s = Some t"
proof (cases "V311 \<le> V")
  case True
  obtain r sc where "chunk_update R (ts_datastack_chunk tstate)
      (case stack_chunk s of None \<Rightarrow> new_chunk | Some sc \<Rightarrow> sc) = Some (r, sc)"
    using chunk_update_returns [OF assms [OF True]] by fastforce
  with True show ?thesis
    by (cases r) (simp_all add: update_stack_chunk_def refresh_stack_chunk_def)
qed (simp add: update_stack_chunk_def)




lemma deep_stack_dangling:
  assumes "frames_ok s" "distinct ns" "cache_cap s < length ns"
  shows "\<exists>n \<in> set ns. frame_heap s n = None"
proof (rule ccontr)
  assume "\<not> ?thesis"
  then have "set ns \<subseteq> dom (frame_heap s)"
    by auto
  also have "\<dots> = snd ` set (cache_entries s)"
    by (rule frames_ok_dom [OF assms(1)])
  finally have "length ns \<le> card (snd ` set (cache_entries s))"
    using assms(2) by (metis List.finite_set card_mono distinct_card finite_imageI)
  also have "\<dots> \<le> length (cache_entries s)"
    by (metis card_length list.set_map length_map)
  also have "\<dots> \<le> cache_cap s"
    using assms(1) lru_ok_length_abs
    by (auto simp: frames_ok_def cache_owns_def cache_entries_def cache_cap_def split: option.splits)
  finally show False
    using assms(3) by simp
qed

text \<open>A run with room for one frame.\<close>

lemma two_frames_small:
  "\<exists>s'. unwind_python_stack V39 two_frames [] 2 (thread_at 65536) (start_state 1)
      = Some ([FrameRef 0, FrameRef 1], s')"
proof -
  define s0 where "s0 = start_state 1"
  define k1 where "k1 = frame_key 131072 4"
  define k2 where "k2 = frame_key 131072 8"
  have k: "k1 \<noteq> k2"
    by (simp add: k1_def k2_def frame_key_def)
  define f where "f = set_location 10 10 0 0 (new_frame 196608 196608)"
  define t where "t = intern_new 196608 ''f'' s0"
  have "string_key V39 two_frames [] 196608 s0 = (Inr 196608, t)"
    "string_key V39 two_frames [] 196608 t = (Inr 196608, t)"
    by (simp_all add: string_key_def two_frames_name t_def s0_def start_state_def init_frame_cache_def
        StringTable_new_def INVALID_def UNKNOWN_def)
  note create1 = two_frames_create [OF this, folded f_def]
  define s1 where "s1 = t\<lparr>calls := calls t @ [frame_call (f\<lparr>cache_key := k1\<rparr>)], next_frame := 1,
    frame_heap := [0 \<mapsto> f\<lparr>cache_key := k1\<rparr>],
    frame_cache := Some \<lparr>capacity = 1, items = [(0, k1, 0)], index = [k1 \<mapsto> 0], next_node = 1\<rparr>\<rparr>"
  have look1: "cache_lookup k1 s0 = Some (Inl LookupError, s0)"
    by (simp add: s0_def start_state_def init_frame_cache_def cache_lookup_def lru_new_def lru_lookup_def)
  have put1: "cache_frame k1 f t = Some (FrameRef 0, s1)"
    by (simp add: cache_frame_def s1_def t_def s0_def start_state_def init_frame_cache_def emit_def intern_new_def
        lru_store_def lru_evict_def lru_push_def lru_new_def Let_def)
  have get1: "frame_get V39 two_frames [] (131072, 4) s0 = Some (Inr (FrameRef 0), s1)"
    using look1 create1 put1 two_code by (simp add: frame_get_def k1_def)
  have "string_key V39 two_frames [] 196608 s1 = (Inr 196608, s1)"
    by (simp add: string_key_def s1_def t_def)
  note create2 = two_frames_create [OF this this, folded f_def]
  have look2: "cache_lookup k2 s1 = Some (Inl LookupError, s1)"
    using k by (simp add: s1_def cache_lookup_def lru_lookup_def)
  obtain s2 where put2: "cache_frame k2 f s1 = Some (FrameRef 1, s2)"
      and heap2: "frame_heap s2 1 = Some (f\<lparr>cache_key := k2\<rparr>)"
    by (simp add: cache_frame_def s1_def emit_def lru_store_def lru_evict_def Let_def)
  have get2: "frame_get V39 two_frames [] (131072, 8) s1 = Some (Inr (FrameRef 1), s2)"
    using look2 create2 put2 two_code by (simp add: frame_get_def k2_def)
  have read1: "frame_read V39 two_frames [] (65536, p) s0 = Some (Inr (FrameRef 0), 69632, s1)"
    "frame_read V39 two_frames [] (69632, q) s1 = Some (Inr (FrameRef 1), 0, s2)" for p q
    using get1 get2 by (simp_all add: frame_read_def py_version_order copy_type_def two_frames_def)
  have names: "deref (FrameRef 0) s1 = Some (f\<lparr>cache_key := k1\<rparr>)"
    "deref (FrameRef 1) s2 = Some (f\<lparr>cache_key := k2\<rparr>)" "fr_name f \<noteq> C_FRAME"
    using heap2 by (simp_all add: s1_def f_def set_location_def new_frame_def C_FRAME_def)
  have "unwind_frame_loop V39 two_frames [] 2 {} 65536 0 [] s0 = Some (2, [FrameRef 0, FrameRef 1], s2)"
    using read1 names by (simp add: unwind_frame_loop_go unwind_frame_loop_stop)
  then show ?thesis
    by (simp add: unwind_python_stack_def update_stack_chunk_def unwind_frame_def thread_at_def
        py_version_order s0_def)
qed


lemma native_no_C_frame:
  assumes "unwind_native_loop demangle max_frames cursors stack s = Some (stack', s')"
    and "C_FRAME_REF \<notin> set stack"
  shows "C_FRAME_REF \<notin> set stack'"
  using assms
proof (induction cursors arbitrary: stack s)
  case (Cons c cs)
  have ne: "ref \<noteq> C_FRAME_REF" if "frame_get_native demangle c u = Some (Inr ref, t)" for ref and u t :: "'a frames_state_scheme"
  proof
    assume "ref = C_FRAME_REF"
    have got: "\<exists>n. ref = FrameRef n" if "cache_lookup k u = Some (Inr ref, t) \<or> cache_frame k f u = Some (ref, t)"
      for k f ref and u t :: "'a frames_state_scheme"
      using that by (auto simp: cache_lookup_def cache_frame_def Let_def bind_eq_Some_iff map_sum_Inr_iff)
    from that obtain r v where look: "cache_lookup (cur_ip c) u = Some (r, v)" and pc: "cur_ip c \<noteq> 0"
      by (auto simp: frame_get_native_def Let_def bind_eq_Some_iff split: if_splits)
    show False
    proof (cases r)
      case (Inr ref')
      then show False
        using that look pc got [of "cur_ip c" u ref' v] \<open>ref = C_FRAME_REF\<close>
        by (auto simp: frame_get_native_def)
    next
      case (Inl e)
      obtain r2 w where create: "frame_create_native demangle c (cur_ip c) v = (r2, w)"
        by fastforce
      show False
      proof (cases r2)
        case (Inl e')
        then show False
          using that look pc \<open>r = Inl e\<close> create \<open>ref = C_FRAME_REF\<close> by (simp add: frame_get_native_def)
      next
        case (Inr f)
        then have "cache_frame (cur_ip c) f w = Some (ref, t)"
          using that look pc Inl create by (auto simp: frame_get_native_def bind_eq_Some_iff)
        then show False
          using got [of "cur_ip c" w ref t f] \<open>ref = C_FRAME_REF\<close> by auto
      qed
    qed
  qed
  from Cons.prems(1) consider (stop) "stack' = stack"
    | (go) ref t where "frame_get_native demangle c s = Some (Inr ref, t)"
        "unwind_native_loop demangle max_frames cs (stack @ [ref]) t = Some (stack', s')"
    by (auto split: if_splits option.splits sum.splits)
  then show ?case
  proof cases
    case go
    then show ?thesis
      using Cons.IH [OF go(2)] Cons.prems(2) ne [OF go(1)] by simp
  qed (use Cons.prems(2) in simp)
qed simp

lemma lookup_name:
  assumes "frames_ok s" "deref ref s = Some f" "ref \<noteq> C_FRAME_REF"
  shows "\<exists>str. string_lookup (fr_name f) s = Inr str"
proof -
  have "string_table s (fr_name f) \<noteq> None"
  proof (cases ref)
    case (FrameRef n)
    then show ?thesis
      using assms(1,2) by (simp add: frames_ok_def names_interned_def)
  next
    case INVALID_FRAME
    have "INVALID \<in> presets"
      by (simp add: presets_def)
    then show ?thesis
      using assms(1,2) INVALID_FRAME unfolding frames_ok_def by (auto simp: new_frame_def)
  next
    case UNKNOWN_FRAME
    have "UNKNOWN \<in> presets"
      by (simp add: presets_def)
    then show ?thesis
      using assms(1,2) UNKNOWN_FRAME unfolding frames_ok_def by (auto simp: new_frame_def)
  qed (use assms(3) in simp)
  then show ?thesis
    by (auto simp: string_lookup_def)
qed



text \<open>Native unwinding returns, with a frame for every cursor up to the limit.\<close>

lemma frame_get_native_defined:
  assumes ok: "frames_ok s" and cap: "0 < cache_cap s" and cur: "cursor_ok cursor" "cur_ip cursor \<noteq> 0"
  shows "\<exists>ref t. frame_get_native demangle cursor s = Some (Inr ref, t)"
proof -
  have cache: "frame_cache s \<noteq> None"
    using frame_step_cache_Some [OF frame_step_refl ok cap] .
  obtain r1 s1 where look: "cache_lookup (cur_ip cursor) s = Some (r1, s1)"
    using cache_lookup_defined [OF ok cache] by fastforce
  show ?thesis
  proof (cases r1)
    case (Inr ref)
    then show ?thesis
      using cur look by (simp add: frame_get_native_def)
  next
    case (Inl e)
    then have miss: "s1 = s" "map_of (cache_entries s) (cur_ip cursor) = None"
      using cache_lookup_law(3) [OF ok look] by auto
    obtain r2 t where create: "frame_create_native demangle cursor (cur_ip cursor) s = (r2, t)"
      by fastforce
    have "string_step s t"
      using frame_create_native_step(1) [OF create] cur by (simp add: cursor_ok_def)
    note st = string_step_frames [OF this]
    obtain ref u where "r2 = Inr f \<Longrightarrow> cache_frame (cur_ip cursor) f t = Some (ref, u)" for f
      using cache_frame_defined [of t "cur_ip cursor" "projr r2"] st ok cache miss(2) by fastforce
    then show ?thesis
      using cur look Inl miss create by (cases r2) (simp_all add: frame_get_native_def)
  qed
qed

lemma unwind_native_loop_length:
  assumes "frames_ok s" "0 < cache_cap s" "list_all (\<lambda>c. cursor_ok c \<and> cur_ip c \<noteq> 0) cursors"
  shows "\<exists>stack' s'. unwind_native_loop demangle max_frames cursors stack s = Some (stack', s')
    \<and> length stack' = max (length stack) (min max_frames (length stack + length cursors))"
  using assms
proof (induction cursors arbitrary: stack s)
  case (Cons c cs)
  show ?case
  proof (cases "length stack < max_frames")
    case True
    obtain ref t where get: "frame_get_native demangle c s = Some (Inr ref, t)"
      using frame_get_native_defined Cons.prems by fastforce
    then have t: "frames_ok t" "0 < cache_cap t"
      using get_native.keeps [OF get] get_native.steps [OF get] Cons.prems by (auto simp: frame_step_def)
    obtain stack' s' where "unwind_native_loop demangle max_frames cs (stack @ [ref]) t = Some (stack', s')"
      "length stack' = max (length (stack @ [ref])) (min max_frames (length (stack @ [ref]) + length cs))"
      using Cons.IH [OF t] Cons.prems(3) by fastforce
    with True get show ?thesis
      by auto
  qed simp
qed simp

definition three_cursors :: "unw_cursor list" where
  "three_cursors = map (\<lambda>(ip, name). \<lparr>cur_start_ip = Some ip, cur_proc_name = Some name, cur_ip = ip\<rparr>)
     [(4096, ''trampoline''), (4112, ''handler''), (4128, ''_PyEval_EvalFrameDefault'')]"


text \<open>The key of a stack. Replacing one frame of a stack by a frame with another key
  changes the stack's key, wherever it is; the table gives back, for a key, the first
  stack that was stored under it, and keeps what it has.\<close>

theorem stack_key_discriminates:
  assumes "stack_key (xs @ ref # ys) s = Some k" "stack_key (xs @ ref' # ys) s = Some k'"
    and "deref ref s = Some f" "deref ref' s = Some f'"
  shows "(k = k' \<longleftrightarrow> cache_key f = cache_key f')
    \<and> (\<exists>table'. stack_table_store (xs @ ref # ys) s table = Some (k, table')
        \<and> stack_table_retrieve k table'
            = Some (case table k of None \<Rightarrow> xs @ ref # ys | Some first \<Rightarrow> first)
        \<and> table \<subseteq>\<^sub>m table')"
proof
  obtain h where h: "stack_key_from 0 xs s = Some h"
    using assms(1) by (auto simp: stack_key_def stack_key_from_append bind_eq_Some_iff)
  have k: "stack_key_from (rotl h XOR cache_key f) ys s = Some k"
    "stack_key_from (rotl h XOR cache_key f') ys s = Some k'"
    using assms h by (simp_all add: stack_key_def stack_key_from_append)
  show "k = k' \<longleftrightarrow> cache_key f = cache_key f'"
  proof
    assume "k = k'"
    with k have "rotl h XOR cache_key f = rotl h XOR cache_key f'"
      using stack_key_from_inj by blast
    then show "cache_key f = cache_key f'"
      by (simp only: xor_cancel)
  qed (use k in simp)
  show "\<exists>table'. stack_table_store (xs @ ref # ys) s table = Some (k, table')
        \<and> stack_table_retrieve k table'
            = Some (case table k of None \<Rightarrow> xs @ ref # ys | Some first \<Rightarrow> first)
        \<and> table \<subseteq>\<^sub>m table'"
    using assms(1)
    by (auto simp: stack_table_store_def stack_table_retrieve_def map_le_def split: option.split)
qed

theorem stack_key_discriminates_witness:
  "\<exists>k table'. stack_table_store [UNKNOWN_FRAME] (start_state 8) Map.empty = Some (k, table')
     \<and> stack_table_retrieve k table' = Some [UNKNOWN_FRAME]"
  using stack_key_discriminates [of "[]" UNKNOWN_FRAME "[]" "start_state 8" 0 INVALID_FRAME 0
      "new_frame 0 UNKNOWN" "new_frame 0 INVALID" Map.empty]
  by (auto simp: stack_key_def new_frame_def rotl_def)

text \<open>From 3.12 on no frame counts as an entry frame. A frame that \<open>Frame::read\<close> gives,
  other than the static ones, has \<open>is_entry\<close> clear; so the first native frame of
  \<open>PyEval_EvalFrameDefault\<close> takes the whole Python stack, and the next one finds none.\<close>

theorem no_entry_frames:
  assumes "V312 \<le> V" "frame_read V R stk (a, prev) s = Some (Inr (FrameRef n), p, s')"
    and "\<forall>q \<in> set ps. \<exists>f. deref q t = Some f \<and> \<not> is_entry f"
  shows "(\<exists>f. frame_heap s' n = Some f \<and> \<not> is_entry f)
    \<and> take_python t 0 ps out = Some ([], rev ps @ out)"
proof
  from assms(2) obtain u where "set_is_entry (FrameRef n) False u = Some s'"
    by (cases rule: frame_read_cases) (use assms(1) in auto)
  then show "\<exists>f. frame_heap s' n = Some f \<and> \<not> is_entry f"
    by (auto split: option.splits)
  have "take_python t m ps out = Some ([], rev ps @ out)" if "m \<le> 1" for m
    using assms(3) that
  proof (induction ps arbitrary: out)
    case (Cons q ps)
    then obtain f where "deref q t = Some f" "\<not> is_entry f"
      by auto
    with Cons show ?case
      by simp
  qed simp
  then show "take_python t 0 ps out = Some ([], rev ps @ out)"
    by simp
qed


theorem no_entry_frames_witness:
  "\<exists>p s' f. frame_read V312 two_frames [] (65536, 65536) (start_state 8) = Some (Inr (FrameRef 0), p, s')
     \<and> frame_heap s' 0 = Some f \<and> \<not> is_entry f"
proof -
  obtain t where t: "frame_get V312 two_frames [] (131072, 5) (start_state 8) = Some (Inr (FrameRef 0), t)"
    using two_frames_get [of V312 5 7] by auto
  have "deref (FrameRef 0) t \<noteq> None"
    using get_code.got_live [OF t] start_state_ok [of 8] by simp
  then obtain u where u: "set_is_entry (FrameRef 0) False t = Some u"
    by auto
  have "read_iframe two_frames (stack_chunk (start_state 8)) 65536
      = Some (Inr \<lparr>if_owner = FRAME_OWNED_BY_THREAD, if_previous = 69632,
                 if_code = 131072, if_instr = 131274, if_is_entry = True, if_stacktop = 0\<rparr>)"
    by (simp add: read_iframe_def copy_type_def two_frames_def start_state_def init_frame_cache_def)
  moreover have "lasti_of V312 two_frames \<lparr>if_owner = FRAME_OWNED_BY_THREAD, if_previous = 69632,
                 if_code = 131072, if_instr = 131274, if_is_entry = True, if_stacktop = 0\<rparr> = 5"
    by (simp add: lasti_of_def two_frames_def one_name_def no_memory_def py_version_order)
  ultimately have run: "frame_read V312 two_frames [] (65536, 65536) (start_state 8)
      = Some (Inr (FrameRef 0), 69632, u)"
    using t u by (simp add: frame_read_def py_version_order)
  have "\<exists>f. frame_heap u 0 = Some f \<and> \<not> is_entry f"
    using no_entry_frames [OF _ run, of "[]" "start_state 8" "[]"] by (simp add: py_version_order)
  with run show ?thesis
    by blast
qed

end
