(* ===== verification/Mirrors.thy ===== *)
theory Mirrors
  imports Strings
begin

text \<open>
  \<open>echion/mirrors.h\<close>: local copies of a dictionary and of a set of the interpreter. Sizes
  are computed in 64 bits the way the sources do, signed and unsigned, and wrap. A write
  past the end of a buffer, and a read past the end of one, are \<^term>\<open>None\<close>.
\<close>

definition MAX_MIRROR_SIZE :: i64 where
  "MAX_MIRROR_SIZE = 1048576"

section \<open>Dictionaries\<close>

text \<open>
  The buffer, the size of its part for the keys, and where the values begin in it when
  \<open>ma_values\<close> is not null.
\<close>

record mirror_dict =
  md_data :: "byte list"
  md_keys_size :: i64
  md_values :: "i64 option"

definition entry_size :: "py_version \<Rightarrow> remote \<Rightarrow> py_dictkeys \<Rightarrow> i64" where
  "entry_size V R keys =
     (if V311 \<le> V \<and> dk_unicode keys then sizeof_unicodeentry R else sizeof_keyentry R)"

definition keys_size :: "py_version \<Rightarrow> remote \<Rightarrow> py_dictkeys \<Rightarrow> i64" where
  "keys_size V R keys =
     (if V311 \<le> V
      then sizeof_dictkeys R + scast (push_bit (dk_log2_index_bytes keys) (1 :: i32))
             + dk_nentries keys * entry_size V R keys
      else sizeof_dictkeys R + dk_size keys * 8 + dk_nentries keys * entry_size V R keys)"

definition values_size :: "py_dict \<Rightarrow> py_dictkeys \<Rightarrow> i64" where
  "values_size dict keys = (if ma_values dict \<noteq> NULL then dk_nentries keys * 8 else 0)"

text \<open>
  The copy of the values has \<open>keys_size\<close> itself as its destination, a number where the
  address \<open>values_addr\<close> is meant. \<open>poke a n\<close> is whether the process can write \<open>n\<close> bytes at
  the address \<open>a\<close>; if it can, they land there and not in the buffer.
\<close>

definition copy_values :: "remote \<Rightarrow> (addr \<Rightarrow> nat \<Rightarrow> bool) \<Rightarrow> addr \<Rightarrow> i64 \<Rightarrow> i64 \<Rightarrow> bool" where
  "copy_values R poke values dst len =
     (case copy_generic (rd_raw R) values (sint len) of
        None \<Rightarrow> False
      | Some bytes \<Rightarrow> sint len \<le> 0 \<or> poke dst (length bytes))"

definition mirror_dict_create ::
  "py_version \<Rightarrow> remote \<Rightarrow> (addr \<Rightarrow> nat \<Rightarrow> bool) \<Rightarrow> addr \<Rightarrow> mirror_dict result option" where
  "mirror_dict_create V R poke dict_addr =
     (case copy_type (rd_dict R) dict_addr of
        None \<Rightarrow> Some (Inl MirrorError)
      | Some dict \<Rightarrow>
        (case copy_type (rd_dictkeys R) (ma_keys dict) of
           None \<Rightarrow> Some (Inl MirrorError)
         | Some keys \<Rightarrow>
             if V311 \<le> V \<and> 32 \<le> dk_log2_index_bytes keys then None
             else
               (let ksize = keys_size V R keys;
                    vsize = values_size dict keys;
                    data_size = ksize + dk_nentries keys * entry_size V R keys + vsize
                in if data_size <s 0 \<or> MAX_MIRROR_SIZE <s data_size then Some (Inl MirrorError)
                   else
                     (case copy_generic (rd_raw R) (ma_keys dict) (sint ksize) of
                        None \<Rightarrow> Some (Inl MirrorError)
                      | Some bytes \<Rightarrow>
                          if unat data_size < length bytes then None
                          else
                            (let m = \<lparr>md_data = bytes @ replicate (unat data_size - length bytes) 0,
                                      md_keys_size = ksize, md_values = None\<rparr>
                             in if ma_values dict \<noteq> NULL
                                then (if copy_values R poke (ma_values dict) ksize vsize
                                      then Some (Inr (m\<lparr>md_values := Some ksize\<rparr>))
                                      else Some (Inl MirrorError))
                                else Some (Inr m))))))"

section \<open>Sets\<close>

text \<open>The table is kept as the pointer-sized words it consists of.\<close>

record mirror_set =
  ms_size :: i64
  ms_data :: "addr list option"

definition mirror_set_create :: "remote \<Rightarrow> addr \<Rightarrow> mirror_set result" where
  "mirror_set_create R set_addr =
     (case copy_type (rd_set R) set_addr of
        None \<Rightarrow> Inl MirrorError
      | Some s \<Rightarrow>
          (let size = set_mask s + 1;
               table_size = size * sizeof_setentry R
           in if table_size <s 0 \<or> MAX_MIRROR_SIZE <s table_size then Inl MirrorError
              else (case copy_generic (rd_ptrs R) (set_table s) (sint table_size div 8) of
                      None \<Rightarrow> Inl MirrorError
                    | Some data \<Rightarrow> Inr \<lparr>ms_size = size, ms_data = Some data\<rparr>)))"

text \<open>\<open>set.table[i]\<close>, an entry of which the key is the first word.\<close>

definition set_entry :: "remote \<Rightarrow> addr list \<Rightarrow> nat \<Rightarrow> addr option" where
  "set_entry R data i =
     (let w = unat (sizeof_setentry R) div 8
      in if (i + 1) * w \<le> length data then Some (data ! (i * w)) else None)"

text \<open>The loop of \<open>as_unordered_set\<close>: \<open>k\<close> entries from entry \<open>i\<close> on.\<close>

fun set_loop :: "remote \<Rightarrow> addr list \<Rightarrow> nat \<Rightarrow> nat \<Rightarrow> addr list \<Rightarrow> addr list option" where
  "set_loop R data 0 i uset = Some uset"
| "set_loop R data (Suc k) i uset =
     (case set_entry R data i of
        None \<Rightarrow> None
      | Some key \<Rightarrow> set_loop R data k (Suc i) (if key \<noteq> NULL then List.insert key uset else uset))"

definition as_unordered_set :: "remote \<Rightarrow> mirror_set \<Rightarrow> addr list result option" where
  "as_unordered_set R m =
     (case ms_data m of
        None \<Rightarrow> Some (Inl MirrorError)
      | Some data \<Rightarrow> map_option Inr (set_loop R data (unat (ms_size m)) 0 []))"

section \<open>Sizes as numbers\<close>

lemma two64_word: "(18446744073709551616 :: i64) = 0"
  by (simp add: word_uint_eq_iff)

lemma sint_word_of_int_small: "\<bar>k\<bar> < 2 ^ 63 \<Longrightarrow> sint (word_of_int k :: i64) = k"
  by (simp add: signed_of_int signed_take_bit_int_eq_self)

lemma sint_small: "uint (w :: i64) < 2 ^ 63 \<Longrightarrow> sint w = uint w"
  using sint_word_of_int_small [of "uint w"] by simp

lemma unat_nonneg:
  assumes "0 \<le> sint (w :: i64)"
  shows "sint w = int (unat w)"
proof -
  have "sint w < 2 ^ 63"
    using sint_lt [of w] by simp
  then have "unat (word_of_int (sint w) :: i64) = nat (sint w)"
    using assms by (simp only: unat_eq_nat_uint uint_word_of_int take_bit_int_eq_self)
      (simp add: take_bit_int_eq_self)
  then show ?thesis
    using assms by simp
qed

section \<open>What a mirrored set holds\<close>

text \<open>Reads of a length give that many items.\<close>

definition reads_exact :: "remote \<Rightarrow> bool" where
  "reads_exact R \<longleftrightarrow> (\<forall>a n bs. rd_raw R a n = Some bs \<longrightarrow> length bs = n)
     \<and> (\<forall>a n ws. rd_ptrs R a n = Some ws \<longrightarrow> length ws = n)"

lemma copy_generic_length:
  assumes "\<forall>a n xs. read a n = Some xs \<longrightarrow> length xs = n" "copy_generic read a len = Some xs"
  shows "length xs = nat len"
  using assms by (auto simp: copy_generic_def split: if_splits)

lemma copy_raw_length: "reads_exact R \<Longrightarrow> copy_generic (rd_raw R) a len = Some bs \<Longrightarrow> length bs = nat len"
  by (rule copy_generic_length) (simp_all add: reads_exact_def)

lemma copy_ptrs_length: "reads_exact R \<Longrightarrow> copy_generic (rd_ptrs R) a len = Some bs \<Longrightarrow> length bs = nat len"
  by (rule copy_generic_length) (simp_all add: reads_exact_def)

definition entry_keys :: "addr list \<Rightarrow> nat \<Rightarrow> addr set" where
  "entry_keys data n = {data ! (2 * i) |i. i < n} - {NULL}"

lemma set_loop_in_bounds:
  assumes "sizeof_setentry R = 16" "2 * (i + k) \<le> length data" "distinct uset"
  shows "\<exists>ks. set_loop R data k i uset = Some ks \<and> distinct ks
    \<and> set ks = set uset \<union> ({data ! (2 * j) |j. i \<le> j \<and> j < i + k} - {NULL})"
  using assms
proof (induction k arbitrary: i uset)
  case (Suc k)
  define key where "key = data ! (2 * i)"
  define uset' where "uset' = (if key \<noteq> NULL then List.insert key uset else uset)"
  have step: "set_loop R data (Suc k) i uset = set_loop R data k (Suc i) uset'"
    using Suc.prems(1,2) by (simp add: set_entry_def key_def uset'_def mult.commute)
  have "distinct uset'"
    using Suc.prems(3) by (simp add: uset'_def)
  then obtain ks where ks: "set_loop R data k (Suc i) uset' = Some ks" "distinct ks"
    "set ks = set uset' \<union> ({data ! (2 * j) |j. Suc i \<le> j \<and> j < Suc i + k} - {NULL})"
    using Suc.IH [of "Suc i" uset'] Suc.prems by auto
  have "{data ! (2 * j) |j. i \<le> j \<and> j < i + Suc k}
      = insert key {data ! (2 * j) |j. Suc i \<le> j \<and> j < Suc i + k}"
    by (auto simp: key_def Suc_le_eq) (metis add_Suc le_neq_implies_less)
  with ks step show ?case
    by (auto simp: uset'_def)
qed auto

lemma set_loop_out_of_bounds:
  assumes "sizeof_setentry R = 16" "length data < 2 * (i + k)" "2 * i \<le> length data"
  shows "set_loop R data k i uset = None"
  using assms
proof (induction k arbitrary: i uset)
  case (Suc k)
  then show ?case
    by (cases "2 * Suc i \<le> length data") (auto simp: set_entry_def split: option.splits)
qed simp

section \<open>Properties\<close>

lemma mirror_set_size:
  assumes "uint (w :: i64) < 2 ^ 59 - 1"
  shows "sint ((w + 1) * 16) = 16 * (uint w + 1)"
proof -
  have size: "(w + 1) * 16 = (word_of_int (16 * (uint w + 1)) :: i64)"
    by simp
  show ?thesis
    unfolding size using assms by (intro sint_word_of_int_small) simp_all
qed

lemma mirror_set_create_small:
  assumes "sizeof_setentry R = 16" "copy_type (rd_set R) a = Some so" "uint (set_mask so) < 2 ^ 16"
  shows "mirror_set_create R a =
      (case copy_generic (rd_ptrs R) (set_table so) (2 * (uint (set_mask so) + 1)) of
         None \<Rightarrow> Inl MirrorError
       | Some data \<Rightarrow> Inr \<lparr>ms_size = set_mask so + 1, ms_data = Some data\<rparr>)"
  using assms mirror_set_size [of "set_mask so"]
  by (simp add: mirror_set_create_def word_sless_alt MAX_MIRROR_SIZE_def Let_def)
    (use uint_ge_0 [of "set_mask so"] in linarith)

lemma mirror_set_small:
  assumes "sizeof_setentry R = 16" "reads_exact R" "uint w < 2 ^ 16"
    and "copy_generic (rd_ptrs R) p (2 * (uint w + 1)) = Some table"
  shows "\<exists>ks. as_unordered_set R \<lparr>ms_size = w + 1, ms_data = Some table\<rparr> = Some (Inr ks)
    \<and> distinct ks \<and> set ks = entry_keys table (unat w + 1)"
proof -
  have "int (unat w) < int 65536"
    using assms(3) by simp
  then have "unat w < 65536"
    by (simp only: of_nat_less_iff)
  then have u: "unat (w + 1) = unat w + 1"
    by (simp add: unat_word_ariths)
  have "2 * (uint w + 1) = int (2 * (unat w + 1))"
    by simp
  then have "length table = 2 * (unat w + 1)"
    using copy_ptrs_length [OF assms(2,4)] by (simp only: nat_int)
  then show ?thesis
    using set_loop_in_bounds [of R 0 "unat w + 1" table "[]"] assms(1)
    by (auto simp: as_unordered_set_def u entry_keys_def)
qed

text \<open>C29: the members of a mirrored set. If the table announced by the mask fits the limit, the
  mirror holds exactly the non-null keys of the table, each once, and no entry outside the
  buffer is looked at; if memory cannot be read the result is \<open>MirrorError\<close>. The limit is
  checked on a product that wraps: with a mask of \<open>2 ^ 60 - 1\<close> the buffer is empty, the
  check passes and reading the members leaves the buffer.\<close>

theorem mirror_set_members:
  assumes "sizeof_setentry R = 16" "reads_exact R" "copy_type (rd_set R) a = Some so"
  shows "(uint (set_mask so) < 2 ^ 16 \<longrightarrow>
      (case copy_generic (rd_ptrs R) (set_table so) (2 * (uint (set_mask so) + 1)) of
         None \<Rightarrow> mirror_set_create R a = Inl MirrorError
       | Some table \<Rightarrow> (\<exists>m ks. mirror_set_create R a = Inr m \<and> as_unordered_set R m = Some (Inr ks)
           \<and> distinct ks \<and> set ks = entry_keys table (unat (set_mask so) + 1))))
    \<and> (2 ^ 16 \<le> uint (set_mask so) \<and> uint (set_mask so) < 2 ^ 59 - 1 \<longrightarrow>
        mirror_set_create R a = Inl MirrorError)
    \<and> (set_mask so = 2 ^ 60 - 1 \<longrightarrow>
        (\<exists>m. mirror_set_create R a = Inr m \<and> as_unordered_set R m = None))"
proof (intro conjI impI)
  assume n: "uint (set_mask so) < 2 ^ 16"
  from mirror_set_create_small [OF assms(1,3) n] mirror_set_small [OF assms(1,2) n] show
    "case copy_generic (rd_ptrs R) (set_table so) (2 * (uint (set_mask so) + 1)) of
         None \<Rightarrow> mirror_set_create R a = Inl MirrorError
       | Some table \<Rightarrow> (\<exists>m ks. mirror_set_create R a = Inr m \<and> as_unordered_set R m = Some (Inr ks)
           \<and> distinct ks \<and> set ks = entry_keys table (unat (set_mask so) + 1))"
    by (auto split: option.split)
next
  assume "2 ^ 16 \<le> uint (set_mask so) \<and> uint (set_mask so) < 2 ^ 59 - 1"
  then show "mirror_set_create R a = Inl MirrorError"
    using assms(1,3) mirror_set_size [of "set_mask so"]
    by (simp add: mirror_set_create_def word_sless_alt MAX_MIRROR_SIZE_def Let_def)
next
  assume "set_mask so = 2 ^ 60 - 1"
  then show "\<exists>m. mirror_set_create R a = Inr m \<and> as_unordered_set R m = None"
    using assms(1,3) set_loop_out_of_bounds [of R "[]" 0 "2 ^ 60" "[]"]
    by (simp add: mirror_set_create_def MAX_MIRROR_SIZE_def copy_generic_def as_unordered_set_def
        two64_word word_sless_alt)
qed

text \<open>A set of one member in a table of two entries.\<close>

definition one_set :: remote where
  "one_set = no_memory\<lparr>rd_set := (\<lambda>a. if a = 8192 then Some \<lparr>set_mask = 1, set_table = 12288\<rparr> else None),
     rd_ptrs := (\<lambda>a n. Some (take n [0, 7, 40960, 9] @ replicate (n - 4) 0))\<rparr>"

lemma one_set_reads: "reads_exact one_set"
  by (auto simp: reads_exact_def one_set_def no_memory_def)

theorem mirror_set_members_witness:
  "\<exists>m ks. mirror_set_create one_set 8192 = Inr m \<and> as_unordered_set one_set m = Some (Inr ks)
     \<and> distinct ks \<and> set ks = {40960}"
proof -
  have "entry_keys [0, 7, 40960, 9] (Suc (Suc 0)) = {40960}"
    by (auto simp: entry_keys_def less_2_cases_iff numeral_2_eq_2 [symmetric] intro: exI [of _ 1])
  moreover have "copy_type (rd_set one_set) 8192 = Some \<lparr>set_mask = 1, set_table = 12288\<rparr>"
    "copy_generic (rd_ptrs one_set) 12288 4 = Some [0, 7, 40960, 9]" "sizeof_setentry one_set = 16"
    by (simp_all add: one_set_def no_memory_def copy_type_def copy_generic_def)
  ultimately show ?thesis
    using mirror_set_members [of one_set 8192 "\<lparr>set_mask = 1, set_table = 12288\<rparr>"] one_set_reads
    by simp
qed


text \<open>
  With a negative number of entries, read from a dictionary that is being changed, the keys
  can be larger than the buffer made for them, and the copy overruns it.
\<close>

lemma mirror_dict_overrun:
  assumes "reads_exact R" "copy_type (rd_dict R) a = Some dict" "ma_values dict = NULL"
    and "copy_type (rd_dictkeys R) (ma_keys dict)
           = Some \<lparr>dk_unicode = False, dk_log2_index_bytes = 5, dk_size = sz, dk_nentries = -1\<rparr>"
    and "V311 \<le> V" "sizeof_dictkeys R = 32" "sizeof_keyentry R = 24"
    and "copy_generic (rd_raw R) (ma_keys dict) 40 = Some bytes"
  shows "mirror_dict_create V R poke a = None"
proof -
  have "length bytes = 40"
    using copy_raw_length [OF assms(1,8)] by simp
  then show ?thesis
    using assms
    by (simp add: mirror_dict_create_def keys_size_def entry_size_def values_size_def Let_def
        MAX_MIRROR_SIZE_def word_sless_alt)
qed

definition one_dict :: remote where
  "one_dict = no_memory\<lparr>rd_dict := (\<lambda>a. if a = 8192 then Some \<lparr>ma_keys = 12288, ma_values = 16384\<rparr> else None),
     rd_dictkeys := (\<lambda>a. if a = 12288 then Some \<lparr>dk_unicode = False, dk_log2_index_bytes = 3,
       dk_size = 0, dk_nentries = 1\<rparr> else None),
     rd_raw := (\<lambda>a n. Some (replicate n 7))\<rparr>"


end
