(* ===== verification/Tasks.thy ===== *)
theory Tasks
  imports Stacks Mirrors
begin

text \<open>
  \<open>echion/tasks.h\<close> and the reading of generators in \<open>echion/cpython/tasks.h\<close>: the coroutine
  chain of an asyncio task, the tasks of a loop, and the frames of a task. The recursion
  counters of \<open>GenInfo::create\<close> and \<open>TaskInfo::create\<close>, thread-local statics in the sources,
  are passed in and returned.
\<close>

section \<open>What a generator awaits\<close>

definition MAX_STACK_SIZE :: int where
  "MAX_STACK_SIZE = 1048576"

text \<open>
  \<open>PyGen_yf\<close> has a body for each group of versions. The object awaited is the top of the
  generator's value stack; null when there is none. An index outside a copied array is
  undefined, \<^term>\<open>None\<close>.
\<close>

definition array_at :: "'a list \<Rightarrow> int \<Rightarrow> 'a option" where
  "array_at xs i = (if 0 \<le> i \<and> i < int (length xs) then Some (xs ! nat i) else None)"

definition stack_top :: "remote \<Rightarrow> addr \<Rightarrow> int \<Rightarrow> addr option" where
  "stack_top R values n =
     (if n < 1 \<or> MAX_STACK_SIZE < n then Some NULL
      else (case copy_generic (rd_ptrs R) values n of
              None \<Rightarrow> Some NULL
            | Some localsplus \<Rightarrow> array_at localsplus (n - 1)))"

definition PyGen_yf_313 :: "remote \<Rightarrow> py_gen \<Rightarrow> addr \<Rightarrow> addr option" where
  "PyGen_yf_313 R gen frame_addr =
     (if gi_frame_state gen \<noteq> FRAME_SUSPENDED_YIELD_FROM then Some NULL
      else (case copy_type (rd_iframe R) frame_addr of
              None \<Rightarrow> Some NULL
            | Some frame \<Rightarrow> stack_top R (frame_addr + off_localsplus R) (if_stacktop frame)))"

text \<open>3.11 and 3.12: every state but \<open>FRAME_CLEARED\<close> is below it.\<close>

definition PyGen_yf_311 :: "remote \<Rightarrow> py_gen \<Rightarrow> addr \<Rightarrow> addr option" where
  "PyGen_yf_311 R gen frame_addr =
     (if gi_frame_state gen = FRAME_CLEARED \<or> gi_frame_state gen = FRAME_CREATED then Some NULL
      else (case copy_type (rd_iframe R) frame_addr of
              None \<Rightarrow> Some NULL
            | Some frame \<Rightarrow>
                (case copy_type (rd_codeunit R) (if_instr frame + 2) of
                   None \<Rightarrow> Some NULL
                 | Some (opcode, oparg) \<Rightarrow>
                     if \<not> (opcode = op_RESUME R \<or> opcode = op_RESUME_QUICK R) \<or> oparg < 2
                     then Some NULL
                     else stack_top R (frame_addr + off_localsplus R) (if_stacktop frame))))"

definition PyGen_yf_310 :: "remote \<Rightarrow> addr \<Rightarrow> addr option" where
  "PyGen_yf_310 R f =
     (if f = NULL then Some NULL
      else (case copy_type (rd_frame R) f of
              None \<Rightarrow> Some NULL
            | Some frame \<Rightarrow>
                if f_lasti frame <s 0 then Some NULL
                else (case copy_type (rd_code R) (f_code frame) of
                        None \<Rightarrow> Some NULL
                      | Some code \<Rightarrow>
                          (case pybytes_to_bytes_and_size R (co_code code) of
                             None \<Rightarrow> Some NULL
                           | Some c \<Rightarrow>
                               (case array_at c ((sint (f_lasti frame) + 1) * 2) of
                                  None \<Rightarrow> None
                                | Some opcode \<Rightarrow>
                                    if opcode \<noteq> op_YIELD_FROM R then Some NULL
                                    else stack_top R (f_valuestack frame) (f_stackdepth frame))))))"

text \<open>
  Up to 3.9 the index is taken from \<open>f\<close>, the interpreter's own frame, and not from the copy:
  a direct read, which faults when the frame is gone.
\<close>

definition PyGen_yf_39 :: "remote \<Rightarrow> addr \<Rightarrow> addr option" where
  "PyGen_yf_39 R f =
     (if f = NULL then Some NULL
      else (case copy_type (rd_frame R) f of
              None \<Rightarrow> Some NULL
            | Some frame \<Rightarrow>
                if f_stacktop frame = NULL then Some NULL
                else if f_lasti frame <s 0 then Some NULL
                else (case copy_type (rd_code R) (f_code frame) of
                        None \<Rightarrow> Some NULL
                      | Some code \<Rightarrow>
                          (case pybytes_to_bytes_and_size R (co_code code) of
                             None \<Rightarrow> Some NULL
                           | Some c \<Rightarrow>
                               (case Option.bind (rd_frame R f)
                                       (\<lambda>live. array_at c (sint (f_lasti live) + 2)) of
                                  None \<Rightarrow> None
                                | Some opcode \<Rightarrow>
                                    if opcode \<noteq> op_YIELD_FROM R then Some NULL
                                    else (case copy_generic (rd_ptrs R) (f_stacktop frame - 8) 1 of
                                            None \<Rightarrow> Some NULL
                                          | Some stacktop \<Rightarrow> array_at stacktop 0))))))"

definition PyGen_yf :: "py_version \<Rightarrow> remote \<Rightarrow> py_gen \<Rightarrow> addr \<Rightarrow> addr option" where
  "PyGen_yf V R gen frame_addr =
     (if V313 \<le> V then PyGen_yf_313 R gen frame_addr
      else if V311 \<le> V then PyGen_yf_311 R gen frame_addr
      else if V310 \<le> V then PyGen_yf_310 R frame_addr
      else PyGen_yf_39 R frame_addr)"

section \<open>Coroutine chains\<close>

definition MAX_RECURSION_DEPTH :: nat where
  "MAX_RECURSION_DEPTH = 250"

datatype gen_info =
  GenInfo (gen_origin: addr) (gen_frame: addr) (gen_await: "gen_info option") (gen_is_running: bool)

text \<open>\<open>gen_running\<close> is the running state of a coroutine that awaits nothing.\<close>

definition gen_running :: "py_version \<Rightarrow> py_gen \<Rightarrow> addr \<Rightarrow> py_frame \<Rightarrow> bool" where
  "gen_running V gen frame f =
     (if V311 \<le> V then gi_frame_state gen = FRAME_EXECUTING
      else if V310 \<le> V then (if frame \<noteq> NULL then f_executing f else False)
      else gi_running gen)"

definition gen_frame_addr :: "py_version \<Rightarrow> remote \<Rightarrow> addr \<Rightarrow> py_gen \<Rightarrow> addr" where
  "gen_frame_addr V R gen_addr gen =
     (if V311 \<le> V
      then (if gi_frame_state gen = FRAME_CLEARED then NULL else gen_addr + off_gi_iframe R)
      else gi_frame gen)"

function geninfo_create :: "py_version \<Rightarrow> remote \<Rightarrow> addr \<Rightarrow> nat \<Rightarrow> (gen_info result \<times> nat) option" where
  "geninfo_create V R gen_addr depth =
     (let recursion_depth = depth + 1
      in if MAX_RECURSION_DEPTH < recursion_depth then Some (Inl GenInfoError, recursion_depth - 1)
         else
           (case copy_type (rd_gen R) gen_addr of
              None \<Rightarrow> Some (Inl GenInfoError, recursion_depth - 1)
            | Some gen \<Rightarrow>
                if gi_type gen = AsyncGenASend_Type
                then (case geninfo_create V R (ags_gen gen) recursion_depth of
                        None \<Rightarrow> None
                      | Some (r, recursion_depth) \<Rightarrow> Some (r, recursion_depth - 1))
                else if gi_type gen \<noteq> Coro_Type \<and> gi_type gen \<noteq> AsyncGen_Type
                then Some (Inl GenInfoError, recursion_depth - 1)
                else
                  (let frame = gen_frame_addr V R gen_addr gen
                   in case copy_type (rd_frame R) frame of
                        None \<Rightarrow> Some (Inl GenInfoError, recursion_depth - 1)
                      | Some f \<Rightarrow>
                          (case (if frame \<noteq> NULL then PyGen_yf V R gen frame else Some NULL) of
                             None \<Rightarrow> None
                           | Some yf \<Rightarrow>
                               if yf \<noteq> NULL \<and> yf \<noteq> gen_addr
                               then (case geninfo_create V R yf recursion_depth of
                                       None \<Rightarrow> None
                                     | Some (Inr await, recursion_depth) \<Rightarrow>
                                         Some (Inr (GenInfo gen_addr frame (Some await)
                                                      (gen_is_running await)), recursion_depth - 1)
                                     | Some (Inl _, recursion_depth) \<Rightarrow>
                                         Some (Inr (GenInfo gen_addr frame None
                                                      (gen_running V gen frame f)), recursion_depth - 1))
                               else Some (Inr (GenInfo gen_addr frame None
                                                 (gen_running V gen frame f)), recursion_depth - 1)))))"
  by pat_completeness auto

termination geninfo_create
  by (relation "measure (\<lambda>(V, R, a, depth). MAX_RECURSION_DEPTH - depth)") auto

declare geninfo_create.simps [simp del]

text \<open>The coroutines of a chain, outermost first.\<close>

fun gen_chain :: "gen_info \<Rightarrow> gen_info list" where
  "gen_chain (GenInfo a frame None r) = [GenInfo a frame None r]"
| "gen_chain (GenInfo a frame (Some g) r) = GenInfo a frame (Some g) r # gen_chain g"

section \<open>Tasks\<close>

datatype task_info =
  TaskInfo (tk_origin: addr) (tk_loop: addr) (tk_on_cpu: bool) (tk_coro: gen_info) (tk_name: addr)
    (tk_waiter: "task_info option")

text \<open>\<open>td\<close> and \<open>gd\<close> are the counters of \<open>TaskInfo::create\<close> and \<open>GenInfo::create\<close>.\<close>

function taskinfo_create ::
  "py_version \<Rightarrow> remote \<Rightarrow> i32 list \<Rightarrow> addr \<Rightarrow> nat \<Rightarrow> nat \<Rightarrow> 'a strings_state_scheme
     \<Rightarrow> (task_info result \<times> nat \<times> nat \<times> 'a strings_state_scheme) option" where
  "taskinfo_create V R stk task_addr depth gd s =
     (let td = depth + 1
      in if MAX_RECURSION_DEPTH < td then Some (Inl TaskInfoError, td - 1, gd, s)
         else
           (case copy_type (rd_task R) task_addr of
              None \<Rightarrow> Some (Inl TaskInfoError, td - 1, gd, s)
            | Some task \<Rightarrow>
                (case geninfo_create V R (task_coro task) gd of
                   None \<Rightarrow> None
                 | Some (Inl _, gd) \<Rightarrow> Some (Inl TaskInfoGeneratorError, td - 1, gd, s)
                 | Some (Inr coro, gd) \<Rightarrow>
                     (case string_key V R stk (task_name task) s of
                        (Inl _, s) \<Rightarrow> Some (Inl TaskInfoError, td - 1, gd, s)
                      | (Inr name, s) \<Rightarrow>
                          if task_fut_waiter task \<noteq> NULL
                          then (case taskinfo_create V R stk (task_fut_waiter task) td gd s of
                                  None \<Rightarrow> None
                                | Some (r, td, gd, s) \<Rightarrow>
                                    Some (Inr (TaskInfo task_addr (task_loop task) (gen_is_running coro)
                                                 coro name (case r of Inl _ \<Rightarrow> None | Inr w \<Rightarrow> Some w)),
                                          td - 1, gd, s))
                          else Some (Inr (TaskInfo task_addr (task_loop task) (gen_is_running coro)
                                            coro name None), td - 1, gd, s)))))"
  by pat_completeness auto

termination taskinfo_create
  by (relation "measure (\<lambda>(V, R, stk, a, depth, gd, s). MAX_RECURSION_DEPTH - depth)") auto

declare taskinfo_create.simps [simp del]

text \<open>The tasks a task waits for, itself first.\<close>

fun waiter_chain :: "task_info \<Rightarrow> task_info list" where
  "waiter_chain (TaskInfo a l c g n None) = [TaskInfo a l c g n None]"
| "waiter_chain (TaskInfo a l c g n (Some w)) = TaskInfo a l c g n (Some w) # waiter_chain w"


section \<open>What a chain is\<close>

text \<open>\<open>asend\<close> objects stand for the generator they send to.\<close>

inductive sends_to :: "remote \<Rightarrow> addr \<Rightarrow> addr \<Rightarrow> bool" for R where
  here: "sends_to R a a"
| through: "copy_type (rd_gen R) a = Some gen \<Longrightarrow> gi_type gen = AsyncGenASend_Type
    \<Longrightarrow> sends_to R (ags_gen gen) b \<Longrightarrow> sends_to R a b"

text \<open>A node of a chain describes the object at its origin and the one that object awaits.\<close>

definition coroutine_read :: "py_version \<Rightarrow> remote \<Rightarrow> gen_info \<Rightarrow> bool" where
  "coroutine_read V R g \<longleftrightarrow>
     (\<exists>gen f. copy_type (rd_gen R) (gen_origin g) = Some gen \<and> gi_type gen \<in> {Coro_Type, AsyncGen_Type}
        \<and> gen_frame g = gen_frame_addr V R (gen_origin g) gen
        \<and> copy_type (rd_frame R) (gen_frame g) = Some f
        \<and> (case gen_await g of
             None \<Rightarrow> gen_is_running g = gen_running V gen (gen_frame g) f
           | Some h \<Rightarrow> gen_is_running g = gen_is_running h
               \<and> (\<exists>yf. PyGen_yf V R gen (gen_frame g) = Some yf \<and> yf \<noteq> NULL \<and> yf \<noteq> gen_origin g
                    \<and> sends_to R yf (gen_origin h))))"

lemma gen_chain_nonempty [simp]: "gen_chain g \<noteq> []"
  by (cases g rule: gen_chain.cases) simp_all

lemma gen_chain_step: "gen_chain g = g # (case gen_await g of None \<Rightarrow> [] | Some h \<Rightarrow> gen_chain h)"
  by (cases g rule: gen_chain.cases) simp_all

text \<open>One call, with its guards.\<close>

lemma geninfo_create_deep:
  "MAX_RECURSION_DEPTH \<le> depth \<Longrightarrow> geninfo_create V R a depth = Some (Inl GenInfoError, depth)"
  by (subst geninfo_create.simps) (simp add: Let_def)

lemma geninfo_create_asend:
  assumes "depth < MAX_RECURSION_DEPTH" "copy_type (rd_gen R) a = Some gen" "gi_type gen = AsyncGenASend_Type"
  shows "geninfo_create V R a depth
    = map_option (\<lambda>(r, d). (r, d - 1)) (geninfo_create V R (ags_gen gen) (Suc depth))"
  using assms
  by (subst geninfo_create.simps) (auto simp: Let_def split: option.splits prod.splits)

text \<open>The outcomes of a call.\<close>

lemma geninfo_create_coro:
  assumes "geninfo_create V R a depth = Some (r, d)" "depth < MAX_RECURSION_DEPTH" "copy_type (rd_gen R) a = Some gen"
    and "gi_type gen \<in> {Coro_Type, AsyncGen_Type}" "copy_type (rd_frame R) (gen_frame_addr V R a gen) = Some f"
  obtains (leaf) d' where "r = Inr (GenInfo a (gen_frame_addr V R a gen) None (gen_running V gen (gen_frame_addr V R a gen) f))"
      "d = depth \<or> (\<exists>yf e. geninfo_create V R yf (Suc depth) = Some (Inl e, d') \<and> d = d' - 1)"
  | (chain) yf await d' where "PyGen_yf V R gen (gen_frame_addr V R a gen) = Some yf" "yf \<noteq> NULL" "yf \<noteq> a"
      "geninfo_create V R yf (Suc depth) = Some (Inr await, d')" "d = d' - 1"
      "r = Inr (GenInfo a (gen_frame_addr V R a gen) (Some await) (gen_is_running await))"
proof -
  define frame where "frame = gen_frame_addr V R a gen"
  have nz: "frame \<noteq> NULL"
    using assms(5) by (auto simp: frame_def dest: copy_type_SomeD)
  obtain yf where yf: "PyGen_yf V R gen frame = Some yf"
    using assms nz
    by (subst (asm) geninfo_create.simps) (auto simp: Let_def frame_def split: option.splits)
  have run: "(if yf \<noteq> NULL \<and> yf \<noteq> a
         then (case geninfo_create V R yf (Suc depth) of
                 None \<Rightarrow> None
               | Some (Inr await, d) \<Rightarrow>
                   Some (Inr (GenInfo a frame (Some await) (gen_is_running await)), d - 1)
               | Some (Inl _, d) \<Rightarrow> Some (Inr (GenInfo a frame None (gen_running V gen frame f)), d - 1))
         else Some (Inr (GenInfo a frame None (gen_running V gen frame f)), depth)) = Some (r, d)"
    using assms nz yf unfolding frame_def
    by (subst (asm) geninfo_create.simps) (auto simp: Let_def)
  show ?thesis
  proof (cases "yf \<noteq> NULL \<and> yf \<noteq> a")
    case False
    then show ?thesis
      using run leaf by (auto simp: frame_def)
  next
    case True
    then obtain r' d' where rec: "geninfo_create V R yf (Suc depth) = Some (r', d')"
      using run by (auto split: option.splits)
    show ?thesis
    proof (cases r')
      case (Inl e)
      then show ?thesis
        using run True rec leaf by (auto simp: frame_def)
    next
      case (Inr await)
      then show ?thesis
        using run True rec yf chain by (auto simp: frame_def)
    qed
  qed
qed

lemma geninfo_create_cases:
  assumes "geninfo_create V R a depth = Some (r, d)"
  obtains (fail) "r = Inl GenInfoError" "d = depth"
  | (asend) gen d' where "depth < MAX_RECURSION_DEPTH" "copy_type (rd_gen R) a = Some gen"
      "gi_type gen = AsyncGenASend_Type" "geninfo_create V R (ags_gen gen) (Suc depth) = Some (r, d')"
      "d = d' - 1"
  | (leaf) gen f d' where "copy_type (rd_gen R) a = Some gen" "gi_type gen \<in> {Coro_Type, AsyncGen_Type}"
      "copy_type (rd_frame R) (gen_frame_addr V R a gen) = Some f" "depth < MAX_RECURSION_DEPTH"
      "r = Inr (GenInfo a (gen_frame_addr V R a gen) None (gen_running V gen (gen_frame_addr V R a gen) f))"
      "d = depth \<or> (\<exists>yf e. geninfo_create V R yf (Suc depth) = Some (Inl e, d') \<and> d = d' - 1)"
  | (chain) gen f yf await d' where "copy_type (rd_gen R) a = Some gen" "gi_type gen \<in> {Coro_Type, AsyncGen_Type}"
      "copy_type (rd_frame R) (gen_frame_addr V R a gen) = Some f" "depth < MAX_RECURSION_DEPTH"
      "PyGen_yf V R gen (gen_frame_addr V R a gen) = Some yf" "yf \<noteq> NULL" "yf \<noteq> a"
      "geninfo_create V R yf (Suc depth) = Some (Inr await, d')" "d = d' - 1"
      "r = Inr (GenInfo a (gen_frame_addr V R a gen) (Some await) (gen_is_running await))"
proof (cases "depth < MAX_RECURSION_DEPTH")
  case False
  then show ?thesis
    using assms fail by (simp add: geninfo_create_deep)
next
  case deep: True
  show ?thesis
  proof (cases "copy_type (rd_gen R) a")
    case None
    then show ?thesis
      using assms fail deep by (subst (asm) geninfo_create.simps) (simp add: Let_def)
  next
    case gen: (Some gen)
    show ?thesis
    proof (cases "gi_type gen = AsyncGenASend_Type")
      case True
      then show ?thesis
        using assms asend [OF deep gen True] geninfo_create_asend [OF deep gen True] by auto
    next
      case other: False
      show ?thesis
      proof (cases "gi_type gen \<in> {Coro_Type, AsyncGen_Type}")
        case False
        then show ?thesis
          using assms fail deep gen other by (subst (asm) geninfo_create.simps) (simp add: Let_def)
      next
        case coro: True
        define frame where "frame = gen_frame_addr V R a gen"
        show ?thesis
        proof (cases "copy_type (rd_frame R) frame")
          case None
          then show ?thesis
            using assms fail deep gen other coro
            by (subst (asm) geninfo_create.simps) (auto simp: Let_def frame_def)
        next
          case f: (Some f)
          from assms deep gen coro f [unfolded frame_def] show ?thesis
            by (rule geninfo_create_coro) (rule leaf [OF gen coro f [unfolded frame_def] deep]; assumption |
              rule chain [OF gen coro f [unfolded frame_def] deep]; assumption)+
        qed
      qed
    qed
  qed
qed

lemma geninfo_create_sound:
  assumes "geninfo_create V R a depth = Some (r, d)" "depth \<le> MAX_RECURSION_DEPTH"
  shows "d = depth \<and> (case r of Inl e \<Rightarrow> e = GenInfoError
    | Inr g \<Rightarrow> sends_to R a (gen_origin g) \<and> length (gen_chain g) + depth \<le> MAX_RECURSION_DEPTH
        \<and> (\<forall>h \<in> set (gen_chain g). coroutine_read V R h \<and> gen_is_running h = gen_is_running g))"
  using assms
proof (induction "MAX_RECURSION_DEPTH - depth" arbitrary: a depth r d)
  case 0
  then show ?case
    by (auto simp: geninfo_create_deep)
next
  case (Suc n)
  have IH: "d' = Suc depth \<and> (case r' of Inl e \<Rightarrow> e = GenInfoError
    | Inr g \<Rightarrow> sends_to R a' (gen_origin g) \<and> length (gen_chain g) + Suc depth \<le> MAX_RECURSION_DEPTH
        \<and> (\<forall>h \<in> set (gen_chain g). coroutine_read V R h \<and> gen_is_running h = gen_is_running g))"
    if "geninfo_create V R a' (Suc depth) = Some (r', d')" for a' r' d'
    using Suc.hyps(1) [OF _ that] Suc.hyps(2) by linarith
  from Suc.prems(1) show ?case
  proof (cases rule: geninfo_create_cases)
    case (asend gen d')
    then show ?thesis
      using IH [OF asend(4)] by (auto split: sum.splits intro: sends_to.through)
  next
    case (leaf gen f d')
    then have "d = depth"
      using IH by fastforce
    then show ?thesis
      using leaf by (auto simp: coroutine_read_def intro: sends_to.here)
  next
    case (chain gen f yf await d')
    then show ?thesis
      using IH [OF chain(8)]
      by (auto simp: coroutine_read_def [of V R "GenInfo a b c e" for b c e] intro: sends_to.here)
  qed simp
qed

text \<open>From 3.11 on a call is never undefined.\<close>

lemma stack_top_defined: "reads_exact R \<Longrightarrow> stack_top R values n \<noteq> None"
  by (auto simp: stack_top_def array_at_def copy_ptrs_length split: option.splits)

lemma PyGen_yf_defined: "reads_exact R \<Longrightarrow> V311 \<le> V \<Longrightarrow> PyGen_yf V R gen frame \<noteq> None"
  by (auto simp: PyGen_yf_def PyGen_yf_313_def PyGen_yf_311_def stack_top_defined
      simp del: not_None_eq split: option.splits)

lemma geninfo_create_defined:
  assumes "reads_exact R" "V311 \<le> V"
  shows "geninfo_create V R a depth \<noteq> None"
proof (induction "MAX_RECURSION_DEPTH - depth" arbitrary: a depth)
  case 0
  then show ?case
    by (simp add: geninfo_create_deep)
next
  case (Suc n)
  have rec: "geninfo_create V R a' (Suc depth) \<noteq> None" for a'
    using Suc by simp
  then have rec': "\<exists>r d. geninfo_create V R a' (Suc depth) = Some (r, d)" for a'
    by auto
  have "\<exists>yf. PyGen_yf V R gen frame = Some yf" for gen frame
    using PyGen_yf_defined [OF assms] by auto
  then obtain g where yf: "PyGen_yf V R gen frame = Some (g gen frame)" for gen frame
    by metis
  show ?case
  proof
    assume none: "geninfo_create V R a depth = None"
    show False
      using none rec yf
      by (subst (asm) geninfo_create.simps)
        (auto simp: Let_def simp del: not_None_eq split: if_splits option.splits sum.splits prod.splits)
  qed
qed


section \<open>The current task and all tasks\<close>

text \<open>The asyncio structures the module has been told about.\<close>

record asyncio_state =
  asyncio_current_tasks :: addr
  asyncio_scheduled_tasks :: addr
  asyncio_eager_tasks :: addr

text \<open>
  \<open>dict_get\<close> is \<open>PyDict_GetItem\<close> on the copied dictionary, a function of CPython, and
  \<open>hash_order\<close> the order in which an \<open>unordered_set\<close> is iterated.
\<close>

definition taskinfo_current ::
  "py_version \<Rightarrow> remote \<Rightarrow> i32 list \<Rightarrow> (addr \<Rightarrow> nat \<Rightarrow> bool) \<Rightarrow> (mirror_dict \<Rightarrow> addr \<Rightarrow> addr) \<Rightarrow> asyncio_state
     \<Rightarrow> addr \<Rightarrow> nat \<Rightarrow> nat \<Rightarrow> 'a strings_state_scheme
     \<Rightarrow> (task_info result \<times> nat \<times> nat \<times> 'a strings_state_scheme) option" where
  "taskinfo_current V R stk poke dict_get A loop td gd s =
     (if loop = NULL then Some (Inl TaskInfoError, td, gd, s)
      else (case mirror_dict_create V R poke (asyncio_current_tasks A) of
              None \<Rightarrow> None
            | Some (Inl _) \<Rightarrow> Some (Inl TaskInfoError, td, gd, s)
            | Some (Inr current_tasks_dict) \<Rightarrow>
                (let task = dict_get current_tasks_dict loop
                 in if task = NULL then Some (Inl TaskInfoError, td, gd, s)
                    else taskinfo_create V R stk task td gd s)))"

text \<open>
  One of the two loops of \<open>get_all_tasks\<close>: \<open>resolve\<close> gives the task an entry stands for.
\<close>

fun collect_tasks ::
  "py_version \<Rightarrow> remote \<Rightarrow> i32 list \<Rightarrow> addr \<Rightarrow> (addr \<Rightarrow> addr option) \<Rightarrow> addr list \<Rightarrow> task_info list
     \<Rightarrow> nat \<Rightarrow> nat \<Rightarrow> 'a strings_state_scheme
     \<Rightarrow> (task_info list \<times> nat \<times> nat \<times> 'a strings_state_scheme) option" where
  "collect_tasks V R stk loop resolve [] tasks td gd s = Some (tasks, td, gd, s)"
| "collect_tasks V R stk loop resolve (x # xs) tasks td gd s =
     (case resolve x of
        None \<Rightarrow> collect_tasks V R stk loop resolve xs tasks td gd s
      | Some task_addr \<Rightarrow>
          (case taskinfo_create V R stk task_addr td gd s of
             None \<Rightarrow> None
           | Some (Inl _, td, gd, s) \<Rightarrow> collect_tasks V R stk loop resolve xs tasks td gd s
           | Some (Inr task, td, gd, s) \<Rightarrow>
               collect_tasks V R stk loop resolve xs
                 (if tk_loop task = loop then tasks @ [task] else tasks) td gd s))"

definition mirrored_members :: "remote \<Rightarrow> addr \<Rightarrow> addr list result option" where
  "mirrored_members R set_addr =
     (case mirror_set_create R set_addr of
        Inl _ \<Rightarrow> Some (Inl TaskInfoError)
      | Inr m \<Rightarrow> map_option (\<lambda>r. case r of Inl _ \<Rightarrow> Inl TaskInfoError | Inr ks \<Rightarrow> Inr ks)
                   (as_unordered_set R m))"

definition get_all_tasks ::
  "py_version \<Rightarrow> remote \<Rightarrow> i32 list \<Rightarrow> (addr list \<Rightarrow> addr list) \<Rightarrow> asyncio_state \<Rightarrow> addr
     \<Rightarrow> nat \<Rightarrow> nat \<Rightarrow> 'a strings_state_scheme
     \<Rightarrow> (task_info list result \<times> nat \<times> nat \<times> 'a strings_state_scheme) option" where
  "get_all_tasks V R stk hash_order A loop td gd s =
     (if loop = NULL then Some (Inr [], td, gd, s)
      else
        (case mirrored_members R (asyncio_scheduled_tasks A) of
           None \<Rightarrow> None
         | Some (Inl e) \<Rightarrow> Some (Inl e, td, gd, s)
         | Some (Inr scheduled) \<Rightarrow>
             (case collect_tasks V R stk loop (\<lambda>wr. map_option wr_object (copy_type (rd_weakref R) wr))
                     (hash_order scheduled) [] td gd s of
                None \<Rightarrow> None
              | Some (tasks, td, gd, s) \<Rightarrow>
                  if asyncio_eager_tasks A \<noteq> NULL
                  then (case mirrored_members R (asyncio_eager_tasks A) of
                          None \<Rightarrow> None
                        | Some (Inl e) \<Rightarrow> Some (Inl e, td, gd, s)
                        | Some (Inr eager) \<Rightarrow>
                            (case collect_tasks V R stk loop Some (hash_order eager) tasks td gd s of
                               None \<Rightarrow> None
                             | Some (tasks, td, gd, s) \<Rightarrow> Some (Inr tasks, td, gd, s)))
                  else Some (Inr tasks, td, gd, s))))"

section \<open>The frames of a task\<close>

text \<open>\<open>coro_frames\<close> is a stack: the frame of the innermost coroutine is on top.\<close>

definition coro_frames :: "gen_info \<Rightarrow> addr list" where
  "coro_frames g = rev (filter (\<lambda>a. a \<noteq> NULL) (map gen_frame (gen_chain g)))"

text \<open>
  The loop of \<open>TaskInfo::unwind\<close>. Only the first frame decides \<open>upper_python_stack_size\<close>, and
  the frames above it are taken off again.
\<close>

fun task_unwind_loop ::
  "py_version \<Rightarrow> remote \<Rightarrow> i32 list \<Rightarrow> nat \<Rightarrow> addr list \<Rightarrow> nat \<Rightarrow> frame_stack \<Rightarrow> nat
     \<Rightarrow> 'a frames_state_scheme \<Rightarrow> (nat \<times> frame_stack \<times> nat \<times> 'a frames_state_scheme) option" where
  "task_unwind_loop V R stk max_frames [] count stack upper s = Some (count, stack, upper, s)"
| "task_unwind_loop V R stk max_frames (frame # frames) count stack upper s =
     (case unwind_frame V R stk max_frames frame stack s of
        None \<Rightarrow> None
      | Some (new_frames, stack, s) \<Rightarrow>
          if new_frames = 0 then Some (count, stack, upper, s)
          else if count = 0
          then task_unwind_loop V R stk max_frames frames new_frames
                 (take (length stack - (new_frames - 1)) stack) (new_frames - 1) s
          else task_unwind_loop V R stk max_frames frames (count + new_frames) stack upper s)"

definition task_unwind ::
  "py_version \<Rightarrow> remote \<Rightarrow> i32 list \<Rightarrow> nat \<Rightarrow> task_info \<Rightarrow> frame_stack \<Rightarrow> nat
     \<Rightarrow> 'a frames_state_scheme \<Rightarrow> (nat \<times> frame_stack \<times> nat \<times> 'a frames_state_scheme) option" where
  "task_unwind V R stk max_frames task stack upper s =
     task_unwind_loop V R stk max_frames (coro_frames (tk_coro task)) 0 stack upper s"

section \<open>Reading a task\<close>

text \<open>A task's name is in the string table and its coroutines have been read.\<close>

definition task_read :: "py_version \<Rightarrow> remote \<Rightarrow> task_info \<Rightarrow> 'a strings_state_scheme \<Rightarrow> bool" where
  "task_read V R t s \<longleftrightarrow>
     string_table s (tk_name t) \<noteq> None \<and> tk_on_cpu t = gen_is_running (tk_coro t)
     \<and> length (gen_chain (tk_coro t)) \<le> MAX_RECURSION_DEPTH
     \<and> (\<forall>h \<in> set (gen_chain (tk_coro t)). coroutine_read V R h)
     \<and> (\<exists>task. copy_type (rd_task R) (tk_origin t) = Some task \<and> tk_loop t = task_loop task
          \<and> sends_to R (task_coro task) (gen_origin (tk_coro t))
          \<and> (\<forall>w. tk_waiter t = Some w \<longrightarrow> tk_origin w = task_fut_waiter task \<and> tk_origin w \<noteq> NULL))"

lemma waiter_chain_nonempty [simp]: "waiter_chain t \<noteq> []"
  by (cases t rule: waiter_chain.cases) simp_all

lemma task_read_extends: "task_read V R t s \<Longrightarrow> extends s s' \<Longrightarrow> task_read V R t s'"
  by (auto simp: task_read_def dest: extends_table)

lemma taskinfo_create_deep:
  "MAX_RECURSION_DEPTH \<le> td \<Longrightarrow> taskinfo_create V R stk a td gd s = Some (Inl TaskInfoError, td, gd, s)"
  by (subst taskinfo_create.simps) (simp add: Let_def)

lemma taskinfo_create_cases:
  assumes "taskinfo_create V R stk a td 0 s = Some (r, td', gd', s')"
  obtains (fail) e where "r = Inl e" "e \<in> {TaskInfoError, TaskInfoGeneratorError}" "td' = td" "gd' = 0" "s' = s"
  | (leaf) task coro name where "copy_type (rd_task R) a = Some task" "td < MAX_RECURSION_DEPTH"
      "geninfo_create V R (task_coro task) 0 = Some (Inr coro, 0)"
      "string_key V R stk (task_name task) s = (Inr name, s')"
      "r = Inr (TaskInfo a (task_loop task) (gen_is_running coro) coro name None)"
      "td' = td" "gd' = 0"
  | (chain) task coro name t r' td'' where "copy_type (rd_task R) a = Some task" "td < MAX_RECURSION_DEPTH"
      "geninfo_create V R (task_coro task) 0 = Some (Inr coro, 0)"
      "string_key V R stk (task_name task) s = (Inr name, t)" "task_fut_waiter task \<noteq> NULL"
      "taskinfo_create V R stk (task_fut_waiter task) (Suc td) 0 t = Some (r', td'', gd', s')" "td' = td'' - 1"
      "r = Inr (TaskInfo a (task_loop task) (gen_is_running coro) coro name
                  (case r' of Inl _ \<Rightarrow> None | Inr w \<Rightarrow> Some w))"
proof (cases "td < MAX_RECURSION_DEPTH")
  case False
  then show ?thesis
    using assms fail by (auto simp: taskinfo_create_deep)
next
  case deep: True
  show ?thesis
  proof (cases "copy_type (rd_task R) a")
    case None
    then show ?thesis
      using assms fail deep by (subst (asm) taskinfo_create.simps) (auto simp: Let_def)
  next
    case task: (Some task)
    obtain rc gd where "geninfo_create V R (task_coro task) 0 = Some (rc, gd)"
      using assms deep task by (subst (asm) taskinfo_create.simps) (auto simp: Let_def split: option.splits)
    then have gen: "geninfo_create V R (task_coro task) 0 = Some (rc, 0)"
      using geninfo_create_sound by fastforce
    show ?thesis
    proof (cases rc)
      case (Inl e)
      then show ?thesis
        using assms fail deep task gen by (subst (asm) taskinfo_create.simps) (auto simp: Let_def)
    next
      case coro: (Inr coro)
      obtain rn t where key: "string_key V R stk (task_name task) s = (rn, t)"
        by (cases "string_key V R stk (task_name task) s")
      show ?thesis
      proof (cases rn)
        case (Inl e)
        then have "t = s"
          using key key_obj.failed by blast
        then show ?thesis
          using assms fail deep task gen coro key Inl by (subst (asm) taskinfo_create.simps) (auto simp: Let_def)
      next
        case (Inr name)
        show ?thesis
        proof (cases "task_fut_waiter task = NULL")
          case True
          then show ?thesis
            using assms leaf [OF task deep] deep task gen coro key Inr True
            by (subst (asm) taskinfo_create.simps) (auto simp: Let_def)
        next
          case False
          then obtain r' td'' gd'' s'' where rec:
            "taskinfo_create V R stk (task_fut_waiter task) (Suc td) 0 t = Some (r', td'', gd'', s'')"
            using assms deep task gen coro key Inr
            by (subst (asm) taskinfo_create.simps) (auto simp: Let_def split: option.splits)
          then show ?thesis
            using assms chain [OF task deep] deep task gen coro key Inr False
            by (subst (asm) taskinfo_create.simps) (auto simp: Let_def)
        qed
      qed
    qed
  qed
qed

lemma taskinfo_create_sound:
  assumes "taskinfo_create V R stk a td 0 s = Some (r, td', gd', s')" "td \<le> MAX_RECURSION_DEPTH"
  shows "td' = td \<and> gd' = 0 \<and> string_step s s' \<and> (case r of Inl e \<Rightarrow> e \<in> {TaskInfoError, TaskInfoGeneratorError}
    | Inr t \<Rightarrow> tk_origin t = a \<and> length (waiter_chain t) + td \<le> MAX_RECURSION_DEPTH
        \<and> (\<forall>w \<in> set (waiter_chain t). task_read V R w s'))"
  using assms
proof (induction "MAX_RECURSION_DEPTH - td" arbitrary: a td s r td' gd' s')
  case 0
  then show ?case
    by (auto simp: taskinfo_create_deep)
next
  case (Suc n)
  from Suc.prems(1) show ?case
  proof (cases rule: taskinfo_create_cases)
    case (fail e)
    then show ?thesis
      by auto
  next
    case (leaf task coro name)
    note coro = geninfo_create_sound [OF leaf(3)]
    have "string_step s s'" "string_table s' name \<noteq> None"
      using string_key_step [OF leaf(4)] key_obj.interned [OF leaf(4)] by auto
    then show ?thesis
      using leaf coro by (auto simp: task_read_def)
  next
    case (chain task coro name t r' td'')
    note coro = geninfo_create_sound [OF chain(3)]
    have IH: "td'' = Suc td \<and> gd' = 0 \<and> string_step t s' \<and> (case r' of Inl e \<Rightarrow> e \<in> {TaskInfoError, TaskInfoGeneratorError}
      | Inr w \<Rightarrow> tk_origin w = task_fut_waiter task \<and> length (waiter_chain w) + Suc td \<le> MAX_RECURSION_DEPTH
        \<and> (\<forall>w \<in> set (waiter_chain w). task_read V R w s'))"
      using Suc.hyps(1) [OF _ chain(6)] Suc.hyps(2) by simp
    have step: "string_step s t" "string_table t name \<noteq> None"
      using string_key_step [OF chain(4)] key_obj.interned [OF chain(4)] by auto
    then have "string_step s s'" "string_table s' name \<noteq> None"
      using IH string_step_trans string_step_interned by blast+
    then show ?thesis
      using chain coro IH by (cases r') (auto simp: task_read_def [of V R "TaskInfo b c d f g h" for b c d f g h])
  qed
qed


text \<open>A task of a loop, with all the tasks it waits for.\<close>

definition task_ok :: "py_version \<Rightarrow> remote \<Rightarrow> addr \<Rightarrow> task_info \<Rightarrow> 'a strings_state_scheme \<Rightarrow> bool" where
  "task_ok V R loop t s \<longleftrightarrow> tk_loop t = loop \<and> length (waiter_chain t) \<le> MAX_RECURSION_DEPTH
     \<and> (\<forall>w \<in> set (waiter_chain t). task_read V R w s)"

lemma task_ok_extends: "task_ok V R loop t s \<Longrightarrow> extends s s' \<Longrightarrow> task_ok V R loop t s'"
  using task_read_extends unfolding task_ok_def by blast

lemma collect_tasks_sound:
  assumes "collect_tasks V R stk loop resolve xs tasks 0 0 s = Some (tasks', td', gd', s')"
    and "\<forall>t \<in> set tasks. task_ok V R loop t s \<and> P (tk_origin t)"
    and "\<And>x a. x \<in> set xs \<Longrightarrow> resolve x = Some a \<Longrightarrow> P a"
  shows "td' = 0 \<and> gd' = 0 \<and> string_step s s'
    \<and> (\<forall>t \<in> set tasks'. task_ok V R loop t s' \<and> P (tk_origin t))"
  using assms
proof (induction xs arbitrary: tasks s)
  case (Cons x xs)
  show ?case
  proof (cases "resolve x")
    case None
    then show ?thesis
      using Cons.IH [of tasks s] Cons.prems by auto
  next
    case (Some a)
    then obtain r td gd t where create: "taskinfo_create V R stk a 0 0 s = Some (r, td, gd, t)"
      using Cons.prems(1) by (auto split: option.splits)
    have sound: "td = 0" "gd = 0" "string_step s t" "\<And>k. r = Inr k \<Longrightarrow> tk_origin k = a
        \<and> length (waiter_chain k) \<le> MAX_RECURSION_DEPTH \<and> (\<forall>w \<in> set (waiter_chain k). task_read V R w t)"
      using taskinfo_create_sound [OF create] by auto
    define more where "more = (case r of Inl _ \<Rightarrow> tasks | Inr k \<Rightarrow> if tk_loop k = loop then tasks @ [k] else tasks)"
    have run: "collect_tasks V R stk loop resolve xs more 0 0 t = Some (tasks', td', gd', s')"
      using Cons.prems(1) Some create sound(1,2) by (cases r) (simp_all add: more_def)
    have "extends s t"
      using sound(3) by (simp add: string_step_def)
    then have "\<forall>k \<in> set tasks. task_ok V R loop k t \<and> P (tk_origin k)"
      using Cons.prems(2) task_ok_extends by blast
    moreover have "P a"
      using Cons.prems(3) [of x a] Some by simp
    ultimately have "\<forall>k \<in> set more. task_ok V R loop k t \<and> P (tk_origin k)"
      using sound(4) by (auto simp: more_def task_ok_def split: sum.splits)
    moreover have "\<And>y b. y \<in> set xs \<Longrightarrow> resolve y = Some b \<Longrightarrow> P b"
      using Cons.prems(3) by (meson list.set_intros(2))
    ultimately have "td' = 0 \<and> gd' = 0 \<and> string_step t s'
        \<and> (\<forall>t \<in> set tasks'. task_ok V R loop t s' \<and> P (tk_origin t))"
      using Cons.IH [OF run] by blast
    then show ?thesis
      using sound(3) string_step_trans by blast
  qed
qed auto

text \<open>Two phases of \<open>TaskInfo::unwind\<close>: after the first frame, and before it.\<close>

lemma task_unwind_loop_more:
  assumes "task_unwind_loop V R stk max_frames frames count stack upper s = Some (count', stack', upper', s')"
    and "0 < count" "held refs n s" "n + (max_frames - length stack) \<le> cache_cap s"
  shows "\<exists>new. stack' = stack @ new \<and> count' = count + length new \<and> upper' = upper
    \<and> length new \<le> max_frames - length stack
    \<and> held (refs @ new) (n + length new) s' \<and> frame_step s s'"
  using assms
proof (induction frames arbitrary: count stack s refs n)
  case (Cons a frames)
  then obtain k st t where unw: "unwind_frame V R stk max_frames a stack s = Some (k, st, t)"
    by (auto split: option.splits)
  from unwind_frame_loop_held [OF unw [unfolded unwind_frame_def] Cons.prems(3,4)] obtain new where
    new: "st = stack @ new" "k = length new" "length new \<le> max_frames - length stack"
      "held (refs @ new) (n + length new) t" "frame_step s t"
    by auto
  show ?case
  proof (cases "k = 0")
    case True
    then show ?thesis
      using Cons.prems(1) unw new by auto
  next
    case False
    then have "task_unwind_loop V R stk max_frames frames (count + k) st upper t = Some (count', stack', upper', s')"
      using Cons.prems(1,2) unw by simp
    moreover have "n + length new + (max_frames - length st) \<le> cache_cap t"
      using Cons.prems(4) new by (simp add: frame_step_def)
    ultimately obtain more where "stack' = st @ more" "count' = count + k + length more" "upper' = upper"
      "length more \<le> max_frames - length st"
      "held ((refs @ new) @ more) (n + length new + length more) s'" "frame_step t s'"
      using Cons.IH [OF _ _ new(4), of "count + k" st] Cons.prems(2) by auto
    then show ?thesis
      using new by (intro exI [of _ "new @ more"]) (auto simp: add.assoc intro: frame_step_trans)
  qed
qed simp

lemma task_unwind_held:
  assumes "task_unwind V R stk max_frames task stack upper s = Some (count, stack', upper', s')"
    and "held refs n s" "set stack \<subseteq> set refs" "n + 2 * (max_frames - length stack) \<le> cache_cap s"
  shows "\<exists>refs' m. held refs' m s' \<and> set refs \<union> set stack' \<subseteq> set refs' \<and> n \<le> m
      \<and> m \<le> n + 2 * (max_frames - length stack)
      \<and> frame_step s s' \<and> take (length stack) stack' = stack \<and> length stack' \<le> max (length stack) max_frames
      \<and> length stack' + (if count = 0 then 0 else upper') = length stack + count
      \<and> (count = 0 \<longrightarrow> stack' = stack \<and> upper' = upper)"
proof (cases "coro_frames (tk_coro task)")
  case Nil
  then show ?thesis
    using assms by (auto simp: task_unwind_def intro!: exI [of _ refs])
next
  case (Cons a frames)
  then obtain k st t where unw: "unwind_frame V R stk max_frames a stack s = Some (k, st, t)"
    using assms(1) by (auto simp: task_unwind_def split: option.splits)
  have cap: "n + (max_frames - length stack) \<le> cache_cap s"
    using assms(4) by simp
  from unwind_frame_loop_held [OF unw [unfolded unwind_frame_def] assms(2) cap] obtain new where
    new: "st = stack @ new" "k = length new" "length new \<le> max_frames - length stack"
      "held (refs @ new) (n + length new) t" "frame_step s t"
    by auto
  show ?thesis
  proof (cases "k = 0")
    case True
    then show ?thesis
      using assms(1,3) Cons unw new
      by (auto simp: task_unwind_def intro!: exI [of _ refs] exI [of _ n])
  next
    case False
    define kept where "kept = take (length st - (k - 1)) st"
    obtain ref new' where "new = ref # new'"
      using False new(2) by (cases new) auto
    then have kept: "kept = stack @ take 1 new" "length kept = Suc (length stack)"
      using new(1,2) by (simp_all add: kept_def Suc_diff_le)
    have run: "task_unwind_loop V R stk max_frames frames k kept (k - 1) t = Some (count, stack', upper', s')"
      using assms(1) Cons unw False by (simp add: task_unwind_def kept_def)
    have room: "n + length new + (max_frames - length kept) \<le> cache_cap t"
      using assms(4) new kept(2) by (simp add: frame_step_def)
    from task_unwind_loop_more [OF run _ new(4) room] False obtain more where
      more: "stack' = kept @ more" "count = k + length more" "upper' = k - 1"
        "length more \<le> max_frames - length kept"
        "held ((refs @ new) @ more) (n + length new + length more) s'" "frame_step t s'"
      by auto
    have "set refs \<union> set stack' \<subseteq> set ((refs @ new) @ more)"
      using assms(3) more(1) kept(1) by (auto dest: in_set_takeD)
    moreover have "n + length new + length more \<le> n + 2 * (max_frames - length stack)"
      using new(3) more(4) kept(2) by simp
    moreover have "take (length stack) stack' = stack" "length stack' + upper' = length stack + count"
      "length stack' \<le> max (length stack) max_frames" "count \<noteq> 0"
      using more(1-4) kept new False by auto
    moreover have "frame_step s s'"
      using new(5) more(6) frame_step_trans by blast
    ultimately show ?thesis
      using more(5) by (intro exI [of _ "(refs @ new) @ more"] exI [of _ "n + length new + length more"]) auto
  qed
qed


section \<open>Properties\<close>

text \<open>C38: reading a coroutine chain. From 3.11 on \<open>GenInfo::create\<close> has a result for every
  content of memory; in all versions the counter of the recursion is back at zero after
  it, on success and on error, the only error is \<open>GenInfoError\<close>, and a chain that is built
  starts at the object given (behind the \<open>asend\<close> objects around it), has at most 250
  coroutines even when the objects await each other in a circle, links each coroutine to
  what \<open>PyGen_yf\<close> says it awaits, and carries the running state of its innermost
  coroutine.\<close>

theorem geninfo_create_contract:
  "(reads_exact R \<and> V311 \<le> V \<longrightarrow> geninfo_create V R a 0 \<noteq> None)
    \<and> (\<forall>r d. geninfo_create V R a 0 = Some (r, d) \<longrightarrow> d = 0 \<and>
        (case r of
           Inl e \<Rightarrow> e = GenInfoError
         | Inr g \<Rightarrow> sends_to R a (gen_origin g) \<and> length (gen_chain g) \<le> 250
             \<and> (\<forall>h \<in> set (gen_chain g). coroutine_read V R h
                  \<and> gen_is_running h = gen_is_running (last (gen_chain g)))))"
proof (intro conjI impI allI)
  assume "reads_exact R \<and> V311 \<le> V"
  then show "geninfo_create V R a 0 \<noteq> None"
    using geninfo_create_defined by blast
next
  fix r d
  assume run: "geninfo_create V R a 0 = Some (r, d)"
  note sound = geninfo_create_sound [OF run]
  from sound show "d = 0"
    by simp
  show "case r of
           Inl e \<Rightarrow> e = GenInfoError
         | Inr g \<Rightarrow> sends_to R a (gen_origin g) \<and> length (gen_chain g) \<le> 250
             \<and> (\<forall>h \<in> set (gen_chain g). coroutine_read V R h
                  \<and> gen_is_running h = gen_is_running (last (gen_chain g)))"
  proof (cases r)
    case (Inr g)
    then have "\<forall>h \<in> set (gen_chain g). gen_is_running h = gen_is_running g"
      "last (gen_chain g) \<in> set (gen_chain g)"
      using sound by simp_all
    with Inr sound show ?thesis
      by (simp add: MAX_RECURSION_DEPTH_def)
  qed (use sound in simp)
qed

text \<open>Two coroutines in 3.13: the first has suspended awaiting the second, which runs.\<close>

definition a_coro :: "frame_state \<Rightarrow> py_gen" where
  "a_coro st = \<lparr>gi_type = Coro_Type, ags_gen = 0, gi_frame_state = st, gi_frame = 0, gi_running = False\<rparr>"

definition two_coros :: remote where
  "two_coros = no_memory\<lparr>
     rd_gen := (\<lambda>a. if a = 8192 then Some (a_coro FRAME_SUSPENDED_YIELD_FROM)
                    else if a = 16384 then Some (a_coro FRAME_EXECUTING) else None),
     rd_frame := (\<lambda>a. Some \<lparr>f_code = 0, f_lasti = 0, f_back = 0, f_executing = False, f_stackdepth = 0,
                            f_valuestack = 0, f_stacktop = 0\<rparr>),
     rd_iframe := (\<lambda>a. Some (no_iframe\<lparr>if_stacktop := 1\<rparr>)),
     rd_ptrs := (\<lambda>a n. Some (replicate n 16384)),
     rd_long := (\<lambda>a. if a = 24576 then Some \<lparr>l_exact = True, l_is_compact = True, l_compact_value = 7,
       l_sign = 1, l_digit_count = 1, l_ob_digit = 7\<rparr> else None),
     rd_weakref := (\<lambda>a. if a = 16384 then Some \<lparr>wr_object = 20480\<rparr> else None),
     rd_set := (\<lambda>a. if a = 12288 then Some \<lparr>set_mask = 0, set_table = 28672\<rparr> else None),
     rd_task := (\<lambda>a. if a = 20480 then Some \<lparr>task_loop = 9, task_coro = 8192, task_name = 24576,
       task_fut_waiter = 0\<rparr> else None)\<rparr>"

lemma two_coros_chain:
  "geninfo_create V313 two_coros 8192 0
     = Some (Inr (GenInfo 8192 8264 (Some (GenInfo 16384 16456 None True)) True), 0)"
proof -
  have "geninfo_create V313 two_coros 16384 1 = Some (Inr (GenInfo 16384 16456 None True), 1)"
    by (subst geninfo_create.simps)
      (simp add: two_coros_def no_memory_def copy_type_def MAX_RECURSION_DEPTH_def a_coro_def
        gen_frame_addr_def gen_running_def PyGen_yf_def PyGen_yf_313_def py_version_order)
  moreover have "PyGen_yf V313 two_coros (a_coro FRAME_SUSPENDED_YIELD_FROM) 8264 = Some 16384"
    by (simp add: PyGen_yf_def PyGen_yf_313_def two_coros_def no_memory_def no_iframe_def a_coro_def
        copy_type_def stack_top_def MAX_STACK_SIZE_def copy_generic_def array_at_def py_version_order)
  moreover have "copy_type (rd_gen two_coros) 8192 = Some (a_coro FRAME_SUSPENDED_YIELD_FROM)"
    "\<exists>f. copy_type (rd_frame two_coros) 8264 = Some f" "off_gi_iframe two_coros = 72"
    by (simp_all add: two_coros_def no_memory_def copy_type_def)
  ultimately show ?thesis
    by (subst geninfo_create.simps)
      (auto simp: MAX_RECURSION_DEPTH_def a_coro_def gen_frame_addr_def py_version_order)
qed

theorem geninfo_create_contract_witness:
  "\<exists>g. geninfo_create V313 two_coros 8192 0 = Some (Inr g, 0) \<and> length (gen_chain g) = 2
     \<and> (\<forall>h \<in> set (gen_chain g). coroutine_read V313 two_coros h)"
  using geninfo_create_contract [of two_coros V313 8192] two_coros_chain by auto

text \<open>A task listed by the interpreter: through a weak reference, or in the set of eager tasks.\<close>

definition listed :: "remote \<Rightarrow> asyncio_state \<Rightarrow> addr \<Rightarrow> bool" where
  "listed R A t \<longleftrightarrow>
     (\<exists>ks wr w. mirrored_members R (asyncio_scheduled_tasks A) = Some (Inr ks) \<and> wr \<in> set ks
        \<and> copy_type (rd_weakref R) wr = Some w \<and> wr_object w = t)
     \<or> (\<exists>ks. mirrored_members R (asyncio_eager_tasks A) = Some (Inr ks) \<and> t \<in> set ks)"

lemma mirrored_members_error: "mirrored_members R a = Some (Inl e) \<Longrightarrow> e = TaskInfoError"
proof (cases "mirror_set_create R a")
  case (Inr m)
  assume run: "mirrored_members R a = Some (Inl e)"
  then obtain z where z: "as_unordered_set R m = Some z"
    using Inr by (auto simp: mirrored_members_def)
  with run Inr show ?thesis
    by (cases z) (simp_all add: mirrored_members_def)
qed (simp add: mirrored_members_def)

lemma get_all_tasks_sound:
  assumes "get_all_tasks V R stk hash_order A loop 0 0 s = Some (r, td, gd, s')"
    and "\<And>xs. set (hash_order xs) = set xs"
  shows "td = 0 \<and> gd = 0 \<and> string_step s s' \<and> (frames_ok s \<longrightarrow> frames_ok s') \<and>
    (case r of
       Inl e \<Rightarrow> e = TaskInfoError
     | Inr tasks \<Rightarrow> \<forall>t \<in> set tasks. tk_loop t = loop \<and> listed R A (tk_origin t)
         \<and> length (waiter_chain t) \<le> 250 \<and> (\<forall>w \<in> set (waiter_chain t). task_read V R w s'))"
proof (cases "loop = NULL \<or> (\<exists>e. mirrored_members R (asyncio_scheduled_tasks A) = Some (Inl e))")
  case True
  then show ?thesis
    using assms(1) mirrored_members_error [of R "asyncio_scheduled_tasks A"]
    by (cases "loop = NULL") (auto simp: get_all_tasks_def)
next
  case False
  then obtain scheduled where sched: "mirrored_members R (asyncio_scheduled_tasks A) = Some (Inr scheduled)"
    using assms(1) by (auto simp: get_all_tasks_def split: option.splits sum.splits)
  obtain ts td1 gd1 t where first: "collect_tasks V R stk loop
      (\<lambda>wr. map_option wr_object (copy_type (rd_weakref R) wr)) (hash_order scheduled) [] 0 0 s
      = Some (ts, td1, gd1, t)"
    using assms(1) False sched by (auto simp: get_all_tasks_def split: option.splits)
  have one: "td1 = 0 \<and> gd1 = 0 \<and> string_step s t
      \<and> (\<forall>k \<in> set ts. task_ok V R loop k t \<and> listed R A (tk_origin k))"
    by (rule collect_tasks_sound [OF first]) (use sched assms(2) in \<open>auto simp: listed_def\<close>)
  have goal: "?thesis" if "td = 0" "gd = 0" "string_step s s'"
    "case r of Inl e \<Rightarrow> e = TaskInfoError
      | Inr tasks \<Rightarrow> \<forall>k \<in> set tasks. task_ok V R loop k s' \<and> listed R A (tk_origin k)"
    using that string_step_frames(2) [OF that(3)]
    by (auto simp: task_ok_def MAX_RECURSION_DEPTH_def split: sum.splits)
  show ?thesis
  proof (cases "asyncio_eager_tasks A = NULL")
    case True
    then show ?thesis
      using assms(1) False sched first one by (intro goal) (auto simp: get_all_tasks_def)
  next
    case eager: False
    show ?thesis
    proof (cases "\<exists>e. mirrored_members R (asyncio_eager_tasks A) = Some (Inl e)")
      case True
      then show ?thesis
        using assms(1) False sched first one eager
        using mirrored_members_error [of R "asyncio_eager_tasks A"]
        by (intro goal) (auto simp: get_all_tasks_def)
    next
      case none: False
      then obtain ks where ks: "mirrored_members R (asyncio_eager_tasks A) = Some (Inr ks)"
        using assms(1) False sched first eager by (auto simp: get_all_tasks_def split: option.splits sum.splits)
      then obtain us td2 gd2 where second: "collect_tasks V R stk loop Some (hash_order ks) ts 0 0 t
          = Some (us, td2, gd2, s')" "r = Inr us" "td = td2" "gd = gd2"
        using assms(1) False sched first one eager by (auto simp: get_all_tasks_def split: option.splits)
      have "td2 = 0 \<and> gd2 = 0 \<and> string_step t s'
          \<and> (\<forall>k \<in> set us. task_ok V R loop k s' \<and> listed R A (tk_origin k))"
        by (rule collect_tasks_sound [OF second(1)]) (use one ks assms(2) in \<open>auto simp: listed_def\<close>)
      then show ?thesis
        using second(2-4) one string_step_trans by (intro goal) auto
    qed
  qed
qed

lemma two_coros_tasks:
  assumes "string_table s 24576 = None"
  shows "\<exists>s'. get_all_tasks V313 two_coros [] (\<lambda>xs. xs)
       \<lparr>asyncio_current_tasks = 0, asyncio_scheduled_tasks = 12288, asyncio_eager_tasks = 0\<rparr> 9 0 0 s
     = Some (Inr [TaskInfo 20480 9 True (GenInfo 8192 8264 (Some (GenInfo 16384 16456 None True)) True) 24576 None],
             0, 0, s')"
proof -
  obtain s' where key: "string_key V313 two_coros [] 24576 s = (Inr 24576, s')"
    using assms by (simp add: string_key_def name_text_def pylong_to_llong_def two_coros_def no_memory_def
        copy_type_def py_version_order)
  have "taskinfo_create V313 two_coros [] 20480 0 0 s
      = Some (Inr (TaskInfo 20480 9 True (GenInfo 8192 8264 (Some (GenInfo 16384 16456 None True)) True) 24576 None), 0, 0, s')"
    using two_coros_chain key
    by (subst taskinfo_create.simps) (simp add: two_coros_def no_memory_def copy_type_def MAX_RECURSION_DEPTH_def)
  moreover have "mirrored_members two_coros 12288 = Some (Inr [16384])"
    by (simp add: mirrored_members_def mirror_set_create_def two_coros_def no_memory_def copy_type_def
        copy_generic_def MAX_MIRROR_SIZE_def word_sless_alt as_unordered_set_def set_entry_def List.insert_def)
  moreover have "copy_type (rd_weakref two_coros) 16384 = Some \<lparr>wr_object = 20480\<rparr>"
    by (simp add: two_coros_def copy_type_def)
  ultimately show ?thesis
    by (simp add: get_all_tasks_def)
qed

text \<open>C37: the tasks of a loop. \<open>get_all_tasks\<close> returns tasks of that loop only, each listed by
  the interpreter, with a name the string table holds, the coroutine chain memory showed
  and at most 250 tasks in its chain of waiters, each of them read the same way; the
  recursion counters are back at zero, nothing but strings has been interned, so the
  sampler's invariant is kept, and the only error is \<open>TaskInfoError\<close>.\<close>

theorem get_all_tasks_contract:
  assumes "get_all_tasks V R stk hash_order A loop 0 0 s = Some (r, td, gd, s')"
    and "\<And>xs. set (hash_order xs) = set xs"
  shows "td = 0 \<and> gd = 0 \<and> string_step s s' \<and> (frames_ok s \<longrightarrow> frames_ok s') \<and>
    (case r of
       Inl e \<Rightarrow> e = TaskInfoError
     | Inr tasks \<Rightarrow> \<forall>t \<in> set tasks. tk_loop t = loop \<and> listed R A (tk_origin t)
         \<and> length (waiter_chain t) \<le> 250 \<and> (\<forall>w \<in> set (waiter_chain t). task_read V R w s'))"
  by (rule get_all_tasks_sound [OF assms])

theorem get_all_tasks_contract_witness:
  "\<exists>t s'. get_all_tasks V313 two_coros [] (\<lambda>xs. xs)
       \<lparr>asyncio_current_tasks = 0, asyncio_scheduled_tasks = 12288, asyncio_eager_tasks = 0\<rparr> 9 0 0
       (start_state 8) = Some (Inr [t], 0, 0, s')
     \<and> tk_origin t = 20480 \<and> task_read V313 two_coros t s' \<and> frames_ok s'"
proof -
  have "string_table (start_state 8) 24576 = None"
    by (simp add: start_state_def init_frame_cache_def StringTable_new_def INVALID_def UNKNOWN_def)
  from two_coros_tasks [OF this] obtain s' where
    "get_all_tasks V313 two_coros [] (\<lambda>xs. xs)
       \<lparr>asyncio_current_tasks = 0, asyncio_scheduled_tasks = 12288, asyncio_eager_tasks = 0\<rparr> 9 0 0 (start_state 8)
     = Some (Inr [TaskInfo 20480 9 True (GenInfo 8192 8264 (Some (GenInfo 16384 16456 None True)) True) 24576 None],
             0, 0, s')"
    by blast
  from get_all_tasks_contract [OF this] start_state_ok [of 8] this show ?thesis
    by auto
qed



end
