(* ===== verification/Greenlets.thy ===== *)
theory Greenlets
  imports Tasks
begin

text \<open>
  \<open>echion/greenlets.h\<close> and the greenlet operations of \<open>echion/coremodule.cc\<close>: the three
  tables the Python side keeps up to date, and unwinding one greenlet. An \<open>unordered_map\<close>
  is an association list; its order stands for the order in which the map is iterated.
\<close>

section \<open>State\<close>

record greenlet_info =
  gr_id :: addr
  gr_name :: addr
  gr_frame :: addr

text \<open>A stack with the name of the task or greenlet it belongs to.\<close>

record stack_info =
  si_task_name :: addr
  si_on_cpu :: bool
  si_stack :: frame_stack

record greenlets_state = frames_state +
  greenlet_info_map :: "(addr \<times> greenlet_info) list"
  greenlet_parent_map :: "(addr \<times> addr) list"
  greenlet_thread_map :: "(addr \<times> addr) list"
  current_greenlets :: "stack_info list"

text \<open>\<open>FRAME_NOT_SET\<close> is the address of \<open>Py_False\<close>.\<close>

definition FRAME_NOT_SET :: "remote \<Rightarrow> addr" where
  "FRAME_NOT_SET R = addr_Py_False R"

text \<open>Operations that leave the fields of this record alone.\<close>

lemma more_greenlets:
  assumes "frames_state.more s' = frames_state.more s"
  shows "greenlet_info_map s' = greenlet_info_map s" "greenlet_parent_map s' = greenlet_parent_map s"
    "greenlet_thread_map s' = greenlet_thread_map s" "current_greenlets s' = current_greenlets s"
    "greenlets_state.more s' = greenlets_state.more s"
proof -
  have eq: "s' = s\<lparr>string_table := string_table s', calls := calls s', frame_heap := frame_heap s',
      next_frame := next_frame s', frame_cache := frame_cache s', stack_chunk := stack_chunk s'\<rparr>"
    by (rule frames_state.equality) (simp_all add: assms)
  show "greenlet_info_map s' = greenlet_info_map s" "greenlet_parent_map s' = greenlet_parent_map s"
    "greenlet_thread_map s' = greenlet_thread_map s" "current_greenlets s' = current_greenlets s"
    "greenlets_state.more s' = greenlets_state.more s"
    using arg_cong [OF eq, of greenlet_info_map] arg_cong [OF eq, of greenlet_parent_map]
      arg_cong [OF eq, of greenlet_thread_map] arg_cong [OF eq, of current_greenlets]
      arg_cong [OF eq, of greenlets_state.more]
    by simp_all
qed

section \<open>Operations\<close>

text \<open>What an operation of the module gives Python: \<open>None\<close>, or an exception.\<close>

datatype py_outcome = Py_Return_None | Py_RuntimeError string

definition track_greenlet ::
  "py_version \<Rightarrow> remote \<Rightarrow> i32 list \<Rightarrow> addr \<Rightarrow> addr \<Rightarrow> addr \<Rightarrow> addr \<Rightarrow> 'a greenlets_state_scheme
     \<Rightarrow> py_outcome \<times> 'a greenlets_state_scheme" where
  "track_greenlet V R stk native_id greenlet_id name frame s =
     (case string_key V R stk name s of
        (Inl _, s) \<Rightarrow> (Py_RuntimeError ''Failed to get greenlet name from the string table'', s)
      | (Inr greenlet_name, s) \<Rightarrow>
          (Py_Return_None,
           s\<lparr>greenlet_info_map := AList.update greenlet_id
               \<lparr>gr_id = greenlet_id, gr_name = greenlet_name, gr_frame = frame\<rparr> (greenlet_info_map s),
             greenlet_thread_map := AList.update native_id greenlet_id (greenlet_thread_map s)\<rparr>))"

definition untrack_greenlet :: "addr \<Rightarrow> 'a greenlets_state_scheme \<Rightarrow> 'a greenlets_state_scheme" where
  "untrack_greenlet greenlet_id s =
     s\<lparr>greenlet_info_map := AList.delete greenlet_id (greenlet_info_map s),
       greenlet_parent_map := AList.delete greenlet_id (greenlet_parent_map s),
       greenlet_thread_map := AList.delete greenlet_id (greenlet_thread_map s)\<rparr>"

definition link_greenlets :: "addr \<Rightarrow> addr \<Rightarrow> 'a greenlets_state_scheme \<Rightarrow> 'a greenlets_state_scheme" where
  "link_greenlets child parent s =
     s\<lparr>greenlet_parent_map := AList.update child parent (greenlet_parent_map s)\<rparr>"

definition update_greenlet_frame :: "addr \<Rightarrow> addr \<Rightarrow> 'a greenlets_state_scheme \<Rightarrow> 'a greenlets_state_scheme" where
  "update_greenlet_frame greenlet_id frame s =
     (case map_of (greenlet_info_map s) greenlet_id of
        None \<Rightarrow> s
      | Some g \<Rightarrow>
          s\<lparr>greenlet_info_map := AList.update greenlet_id (g\<lparr>gr_frame := frame\<rparr>) (greenlet_info_map s)\<rparr>)"

section \<open>Unwinding\<close>

text \<open>
  \<open>GreenletInfo::unwind\<close>. From 3.11 on the interpreter frame of a greenlet that is not
  running is read straight from its frame object, which faults when the object is gone.
\<close>

definition greenlet_frame_addr :: "py_version \<Rightarrow> remote \<Rightarrow> addr \<Rightarrow> py_tstate \<Rightarrow> addr option option" where
  "greenlet_frame_addr V R frame tstate =
     (if V313 \<le> V
      then map_option Some (if frame = addr_Py_None R then Some (ts_current_frame tstate) else rd_f_frame R frame)
      else if V311 \<le> V
      then (if frame = addr_Py_None R
            then Some (copy_type (rd_cframe R) (ts_cframe tstate))
            else map_option Some (rd_f_frame R frame))
      else Some (Some (if frame = addr_Py_None R then ts_frame tstate else frame)))"

definition greenlet_unwind ::
  "py_version \<Rightarrow> remote \<Rightarrow> i32 list \<Rightarrow> nat \<Rightarrow> greenlet_info \<Rightarrow> addr \<Rightarrow> py_tstate \<Rightarrow> frame_stack
     \<Rightarrow> 'a frames_state_scheme \<Rightarrow> (nat \<times> frame_stack \<times> 'a frames_state_scheme) option" where
  "greenlet_unwind V R stk max_frames g frame tstate stack s =
     (case greenlet_frame_addr V R frame tstate of
        None \<Rightarrow> None
      | Some None \<Rightarrow> Some (0, stack, s)
      | Some (Some frame_addr) \<Rightarrow>
          (case unwind_frame V R stk max_frames frame_addr stack s of
             None \<Rightarrow> None
           | Some (count, stack, s) \<Rightarrow>
               (case frame_get_name (gr_name g) s of
                  Some (Inr ref, s) \<Rightarrow> Some (count + 1, stack @ [ref], s)
                | _ \<Rightarrow> None)))"

definition MAX_GREENLET_DEPTH :: nat where
  "MAX_GREENLET_DEPTH = 512"

text \<open>The walk up the parents; \<open>n\<close> is what is left of the limit.\<close>

fun unwind_parents ::
  "py_version \<Rightarrow> remote \<Rightarrow> i32 list \<Rightarrow> nat \<Rightarrow> py_tstate \<Rightarrow> nat \<Rightarrow> addr set \<Rightarrow> addr \<Rightarrow> frame_stack
     \<Rightarrow> 'a greenlets_state_scheme \<Rightarrow> (frame_stack \<times> 'a greenlets_state_scheme) option" where
  "unwind_parents V R stk max_frames tstate 0 visited greenlet_id stack s = Some (stack, s)"
| "unwind_parents V R stk max_frames tstate (Suc n) visited greenlet_id stack s =
     (if greenlet_id \<in> visited then Some (stack, s)
      else (case map_of (greenlet_parent_map s) greenlet_id of
              None \<Rightarrow> Some (stack, s)
            | Some parent_id \<Rightarrow>
                (case map_of (greenlet_info_map s) parent_id of
                   None \<Rightarrow> Some (stack, s)
                 | Some parent \<Rightarrow>
                     if gr_frame parent = FRAME_NOT_SET R \<or> gr_frame parent = addr_Py_None R
                     then Some (stack, s)
                     else (case greenlet_unwind V R stk max_frames parent (gr_frame parent) tstate stack s of
                             None \<Rightarrow> None
                           | Some (_, stack, s) \<Rightarrow>
                               unwind_parents V R stk max_frames tstate n (insert greenlet_id visited)
                                 parent_id stack s))))"

text \<open>The loop over all greenlets; \<open>skip_idle\<close> is \<open>cpu && ignore_non_running_threads\<close>.\<close>

fun unwind_leaves ::
  "py_version \<Rightarrow> remote \<Rightarrow> i32 list \<Rightarrow> nat \<Rightarrow> py_tstate \<Rightarrow> bool \<Rightarrow> addr set \<Rightarrow> (addr \<times> greenlet_info) list
     \<Rightarrow> 'a greenlets_state_scheme \<Rightarrow> 'a greenlets_state_scheme option" where
  "unwind_leaves V R stk max_frames tstate skip_idle parents [] s = Some s"
| "unwind_leaves V R stk max_frames tstate skip_idle parents ((greenlet_id, g) # gs) s =
     (let frame = gr_frame g;
          on_cpu = (frame = addr_Py_None R)
      in if greenlet_id \<in> parents \<or> frame = FRAME_NOT_SET R \<or> (skip_idle \<and> \<not> on_cpu)
         then unwind_leaves V R stk max_frames tstate skip_idle parents gs s
         else (case greenlet_unwind V R stk max_frames g frame tstate [] s of
                 None \<Rightarrow> None
               | Some (_, stack, s) \<Rightarrow>
                   (case unwind_parents V R stk max_frames tstate MAX_GREENLET_DEPTH {} greenlet_id stack s of
                      None \<Rightarrow> None
                    | Some (stack, s) \<Rightarrow>
                        unwind_leaves V R stk max_frames tstate skip_idle parents gs
                          (s\<lparr>current_greenlets := current_greenlets s
                               @ [\<lparr>si_task_name = gr_name g, si_on_cpu = on_cpu, si_stack = stack\<rparr>]\<rparr>))))"

definition unwind_greenlets ::
  "py_version \<Rightarrow> remote \<Rightarrow> i32 list \<Rightarrow> nat \<Rightarrow> bool \<Rightarrow> py_tstate \<Rightarrow> addr
     \<Rightarrow> 'a greenlets_state_scheme \<Rightarrow> 'a greenlets_state_scheme option" where
  "unwind_greenlets V R stk max_frames skip_idle tstate native_id s =
     (if map_of (greenlet_thread_map s) native_id = None then Some s
      else unwind_leaves V R stk max_frames tstate skip_idle (snd ` set (greenlet_parent_map s))
             (greenlet_info_map s) s)"


section \<open>What unwinding keeps\<close>

lemma frames_ok_greenlets [simp]:
  "frames_ok (s\<lparr>current_greenlets := gs\<rparr>) = frames_ok s"
  "held refs n (s\<lparr>current_greenlets := gs\<rparr>) = held refs n s"
  "cache_cap (s\<lparr>current_greenlets := gs\<rparr>) = cache_cap s"
  "extends t (s\<lparr>current_greenlets := gs\<rparr>) = extends t s"
  by (simp_all add: frames_ok_def announced_def cache_owns_def cache_entries_def names_interned_def
      held_def pinned_def cache_cap_def extends_def)

text \<open>The names of the greenlets that are tracked are in the string table.\<close>

definition greenlets_named :: "'a greenlets_state_scheme \<Rightarrow> bool" where
  "greenlets_named s \<longleftrightarrow> (\<forall>g \<in> snd ` set (greenlet_info_map s). string_table s (gr_name g) \<noteq> None)"

definition greenlet_step :: "'a greenlets_state_scheme \<Rightarrow> 'a greenlets_state_scheme \<Rightarrow> bool" where
  "greenlet_step s s' \<longleftrightarrow> extends s s' \<and> cache_cap s' = cache_cap s \<and> stack_chunk s' = stack_chunk s
     \<and> greenlet_info_map s' = greenlet_info_map s \<and> greenlet_parent_map s' = greenlet_parent_map s
     \<and> greenlet_thread_map s' = greenlet_thread_map s \<and> greenlets_state.more s' = greenlets_state.more s"

lemma greenlet_step_refl [simp, intro]: "greenlet_step s s"
  by (simp add: greenlet_step_def)

lemma greenlet_step_trans [trans]: "greenlet_step s t \<Longrightarrow> greenlet_step t u \<Longrightarrow> greenlet_step s u"
  by (auto simp: greenlet_step_def intro: extends_trans)

lemma frame_step_greenlets:
  assumes "frame_step s s'"
  shows "greenlet_step s s'" "current_greenlets s' = current_greenlets s"
    "greenlet_info_map s' = greenlet_info_map s" "greenlet_parent_map s' = greenlet_parent_map s"
proof -
  have more: "frames_state.more s' = frames_state.more s"
    using assms by (simp add: frame_step_def)
  show "greenlet_step s s'"
    using assms by (simp add: greenlet_step_def frame_step_def more_greenlets [OF more])
  show "current_greenlets s' = current_greenlets s"
    "greenlet_info_map s' = greenlet_info_map s" "greenlet_parent_map s' = greenlet_parent_map s"
    by (simp_all add: more_greenlets [OF more])
qed

lemma greenlets_named_step:
  assumes "greenlets_named s" "greenlet_step s s'"
  shows "greenlets_named s'"
proof -
  have "greenlet_info_map s' = greenlet_info_map s" "extends s s'"
    using assms(2) by (simp_all add: greenlet_step_def)
  with assms(1) show ?thesis
    unfolding greenlets_named_def by (metis extends_table not_None_eq)
qed

lemma greenlet_unwind_held:
  assumes "greenlet_unwind V R stk max_frames g frame tstate stack s = Some (count, stack', s')"
    and "held refs n s" "n + (max_frames - length stack) + 1 \<le> cache_cap s"
    and "string_table s (gr_name g) \<noteq> None"
  shows "\<exists>new. stack' = stack @ new \<and> length new \<le> (max_frames - length stack) + 1
    \<and> held (refs @ new) (n + length new) s' \<and> frame_step s s'"
proof -
  consider (unread) "stack' = stack" "s' = s"
    | (frames) a k st t r where "unwind_frame V R stk max_frames a stack s = Some (k, st, t)"
        "frame_get_name (gr_name g) t = Some (Inr r, s')" "stack' = st @ [r]"
    using assms(1) by (auto simp: greenlet_unwind_def split: option.splits sum.splits)
  then show ?thesis
  proof cases
    case unread
    then show ?thesis
      using assms(2) by simp
  next
    case frames
    have cap: "n + (max_frames - length stack) \<le> cache_cap s"
      using assms(3) by simp
    from unwind_frame_loop_held [OF frames(1) [unfolded unwind_frame_def] assms(2) cap] obtain new where
      new: "st = stack @ new" "length new \<le> max_frames - length stack"
        "held (refs @ new) (n + length new) t" "frame_step s t"
      by auto
    have name: "string_table t (gr_name g) \<noteq> None"
      using assms(4) new(4) by (auto simp: frame_step_def dest: extends_table)
    have ok: "frames_ok t" "pinned (refs @ new) (n + length new) t" "n + length new < cache_cap t"
      using new assms(3) by (auto simp: held_def frame_step_def)
    note named = get_name.keeps [OF frames(2) name ok(1)] get_name.steps [OF frames(2) name ok(1)]
      get_name.pins [OF frames(2) name ok]
    show ?thesis
      using new(1,2,4) frames(3) named
      by (intro exI [of _ "new @ [r]"]) (auto simp: held_def intro: frame_step_trans)
  qed
qed

lemma unwind_parents_held:
  assumes "unwind_parents V R stk max_frames tstate k visited gid stack s = Some (stack', s')"
    and "held refs n s" "n + (max_frames - length stack) + k \<le> cache_cap s" "greenlets_named s"
  shows "\<exists>new. stack' = stack @ new \<and> length new \<le> (max_frames - length stack) + k
    \<and> held (refs @ new) (n + length new) s' \<and> frame_step s s'"
  using assms
proof (induction k arbitrary: visited gid stack s refs n)
  case (Suc k)
  consider (stop) "stack' = stack" "s' = s"
    | (up) pid parent c st t where "map_of (greenlet_info_map s) pid = Some parent"
        "greenlet_unwind V R stk max_frames parent (gr_frame parent) tstate stack s = Some (c, st, t)"
        "unwind_parents V R stk max_frames tstate k (insert gid visited) pid st t = Some (stack', s')"
    using Suc.prems(1) by (auto split: if_splits option.splits)
  then show ?case
  proof cases
    case stop
    then show ?thesis
      using Suc.prems(2) by simp
  next
    case up
    have "string_table s (gr_name parent) \<noteq> None"
      using Suc.prems(4) map_of_SomeD [OF up(1)] by (force simp: greenlets_named_def)
    then obtain new where new: "st = stack @ new" "length new \<le> (max_frames - length stack) + 1"
      "held (refs @ new) (n + length new) t" "frame_step s t"
      using greenlet_unwind_held [OF up(2) Suc.prems(2)] Suc.prems(3) by auto
    have "n + length new + (max_frames - length st) + k \<le> cache_cap t"
      using Suc.prems(3) new by (auto simp: frame_step_def)
    then obtain more where "stack' = st @ more" "length more \<le> (max_frames - length st) + k"
      "held ((refs @ new) @ more) (n + length new + length more) s'" "frame_step t s'"
      using Suc.IH [OF up(3) new(3)] greenlets_named_step [OF Suc.prems(4)] frame_step_greenlets(1) [OF new(4)]
      by auto
    then show ?thesis
      using new by (intro exI [of _ "new @ more"]) (auto simp: add.assoc intro: frame_step_trans)
  qed
qed simp

text \<open>The greenlets a sample is about, and what is recorded of them.\<close>

definition sampled_greenlets :: "remote \<Rightarrow> bool \<Rightarrow> addr set \<Rightarrow> (addr \<times> greenlet_info) list \<Rightarrow> (addr \<times> greenlet_info) list" where
  "sampled_greenlets R skip_idle parents gs =
     filter (\<lambda>(i, g). i \<notin> parents \<and> gr_frame g \<noteq> FRAME_NOT_SET R
               \<and> (skip_idle \<longrightarrow> gr_frame g = addr_Py_None R)) gs"

abbreviation stacks_of :: "stack_info list \<Rightarrow> frame_ref set" where
  "stacks_of is \<equiv> \<Union> (set ` si_stack ` set is)"

lemma unwind_leaf_held:
  assumes unw: "greenlet_unwind V R stk max_frames g (gr_frame g) tstate [] s = Some (c, st, t)"
    and up: "unwind_parents V R stk max_frames tstate MAX_GREENLET_DEPTH {} gid st t = Some (st', u)"
    and s: "held refs n s" "n + (max_frames + 513) \<le> cache_cap s" "greenlets_named s"
    and g: "(gid, g) \<in> set (greenlet_info_map s)"
  shows "held (refs @ st') (n + length st') u \<and> length st' \<le> max_frames + 513 \<and> frame_step s u"
proof -
  have "string_table s (gr_name g) \<noteq> None"
    using s(3) g by (force simp: greenlets_named_def)
  then have new: "length st \<le> max_frames + 1" "held (refs @ st) (n + length st) t" "frame_step s t"
    using greenlet_unwind_held [OF unw s(1)] s(2) by auto
  have named: "greenlets_named t"
    using greenlets_named_step [OF s(3)] frame_step_greenlets(1) [OF new(3)] by blast
  have "n + length st + (max_frames - length st) + MAX_GREENLET_DEPTH \<le> cache_cap t"
    using s(2) new by (auto simp: frame_step_def MAX_GREENLET_DEPTH_def)
  then obtain more where more: "st' = st @ more" "length more \<le> (max_frames - length st) + MAX_GREENLET_DEPTH"
    "held ((refs @ st) @ more) (n + length st + length more) u" "frame_step t u"
    using unwind_parents_held [OF up new(2) _ named] by auto
  then show ?thesis
    using new(1,3) frame_step_trans by (auto simp: MAX_GREENLET_DEPTH_def add.assoc)
qed

lemma unwind_leaves_held:
  assumes "unwind_leaves V R stk max_frames tstate skip_idle parents gs s = Some s'"
    and "held refs n s" "n + length gs * (max_frames + 513) \<le> cache_cap s" "greenlets_named s"
    and "set gs \<subseteq> set (greenlet_info_map s)"
  shows "\<exists>is refs' m. current_greenlets s' = current_greenlets s @ is
      \<and> map (\<lambda>i. (si_task_name i, si_on_cpu i)) is
          = map (\<lambda>(i, g). (gr_name g, gr_frame g = addr_Py_None R)) (sampled_greenlets R skip_idle parents gs)
      \<and> held refs' m s' \<and> set refs \<union> stacks_of is \<subseteq> set refs' \<and> n \<le> m \<and> m \<le> n + length gs * (max_frames + 513)
      \<and> greenlet_step s s'"
  using assms
proof (induction gs arbitrary: s refs n)
  case Nil
  then show ?case
    by (intro exI [of _ "[]"] exI [of _ refs] exI [of _ n]) (simp add: sampled_greenlets_def)
next
  case (Cons x gs)
  obtain gid g where x: "x = (gid, g)"
    by (cases x)
  show ?case
  proof (cases "gid \<in> parents \<or> gr_frame g = FRAME_NOT_SET R \<or> (skip_idle \<and> gr_frame g \<noteq> addr_Py_None R)")
    case True
    then have "sampled_greenlets R skip_idle parents (x # gs) = sampled_greenlets R skip_idle parents gs"
      by (auto simp: sampled_greenlets_def x)
    moreover have "unwind_leaves V R stk max_frames tstate skip_idle parents gs s = Some s'"
      using Cons.prems(1) True by (simp add: x)
    moreover obtain "is" refs' m where "current_greenlets s' = current_greenlets s @ is"
      "map (\<lambda>i. (si_task_name i, si_on_cpu i)) is
        = map (\<lambda>(i, g). (gr_name g, gr_frame g = addr_Py_None R)) (sampled_greenlets R skip_idle parents gs)"
      "held refs' m s'" "set refs \<union> stacks_of is \<subseteq> set refs'" "n \<le> m"
      "m \<le> n + length gs * (max_frames + 513)" "greenlet_step s s'"
      using Cons.IH [OF calculation(2) Cons.prems(2)] Cons.prems(3-5) by auto
    ultimately show ?thesis
      by (intro exI [of _ "is"] exI [of _ refs'] exI [of _ m]) simp
  next
    case False
    then obtain c st t st' u where unw: "greenlet_unwind V R stk max_frames g (gr_frame g) tstate [] s = Some (c, st, t)"
      and up: "unwind_parents V R stk max_frames tstate MAX_GREENLET_DEPTH {} gid st t = Some (st', u)"
      using Cons.prems(1) by (auto simp: x Let_def split: option.splits)
    define i where "i = \<lparr>si_task_name = gr_name g, si_on_cpu = (gr_frame g = addr_Py_None R), si_stack = st'\<rparr>"
    define v where "v = u\<lparr>current_greenlets := current_greenlets u @ [i]\<rparr>"
    have run: "unwind_leaves V R stk max_frames tstate skip_idle parents gs v = Some s'"
      using Cons.prems(1) False unw up by (simp add: x Let_def i_def v_def)
    have leaf: "held (refs @ st') (n + length st') u" "length st' \<le> max_frames + 513" "frame_step s u"
      using unwind_leaf_held [OF unw up Cons.prems(2) _ Cons.prems(4)] Cons.prems(3,5) by (auto simp: x)
    have v: "greenlet_step s v" "current_greenlets v = current_greenlets s @ [i]"
      using frame_step_greenlets [OF leaf(3)] by (simp_all add: v_def greenlet_step_def)
    have "greenlets_named v"
      using greenlets_named_step [OF Cons.prems(4) v(1)] .
    moreover have "set gs \<subseteq> set (greenlet_info_map v)" "cache_cap v = cache_cap s"
      using Cons.prems(5) v(1) by (auto simp: greenlet_step_def)
    moreover have "held (refs @ st') (n + length st') v"
      using leaf(1) by (simp add: v_def)
    ultimately obtain "is" refs' m where rest: "current_greenlets s' = current_greenlets v @ is"
      "map (\<lambda>i. (si_task_name i, si_on_cpu i)) is
        = map (\<lambda>(i, g). (gr_name g, gr_frame g = addr_Py_None R)) (sampled_greenlets R skip_idle parents gs)"
      "held refs' m s'" "set (refs @ st') \<union> stacks_of is \<subseteq> set refs'"
      "n + length st' \<le> m" "m \<le> n + length st' + length gs * (max_frames + 513)"
      "greenlet_step v s'"
      using Cons.IH [OF run, of "refs @ st'" "n + length st'"] Cons.prems(3) leaf(2) by auto
    have "sampled_greenlets R skip_idle parents (x # gs) = x # sampled_greenlets R skip_idle parents gs"
      using False by (auto simp: sampled_greenlets_def x)
    moreover have "m \<le> n + length (x # gs) * (max_frames + 513)"
      using rest(6) leaf(2) by simp
    ultimately show ?thesis
      using rest v greenlet_step_trans
      by (intro exI [of _ "i # is"] exI [of _ refs'] exI [of _ m]) (auto simp: x i_def)
  qed
qed

section \<open>When unwinding returns\<close>

text \<open>
  What unwinding needs to have a result: the invariant, a cache, tables of code objects that
  can be walked, and, from 3.11 on, frames that lie within their copied chunks.
\<close>

definition unwind_ready :: "py_version \<Rightarrow> remote \<Rightarrow> 'a frames_state_scheme \<Rightarrow> bool" where
  "unwind_ready V R s \<longleftrightarrow> frames_ok s \<and> 0 < cache_cap s \<and> tables_ok V R
     \<and> (V311 \<le> V \<longrightarrow> (\<forall>a. read_iframe R (stack_chunk s) a \<noteq> None))"

lemma unwind_ready_step: "unwind_ready V R s \<Longrightarrow> frame_step s s' \<Longrightarrow> frames_ok s' \<Longrightarrow> unwind_ready V R s'"
  by (simp add: unwind_ready_def frame_step_def)

lemma unwind_frame_returns:
  assumes "unwind_ready V R s"
  shows "\<exists>n st s'. unwind_frame V R stk max_frames a stack s = Some (n, st, s') \<and> unwind_ready V R s'
    \<and> frame_step s s'"
proof -
  obtain n st s' where run: "unwind_frame_loop V R stk max_frames {} a 0 stack s = Some (n, st, s')"
    using assms unwind_frame_loop_defined [of s V R] by (fastforce simp: unwind_ready_def)
  moreover have "frames_ok s' \<and> frame_step s s'"
    using unwind_frame_loop_keeps [OF run] assms by (simp add: unwind_ready_def)
  ultimately show ?thesis
    using unwind_ready_step [OF assms] by (auto simp: unwind_frame_def)
qed

lemma frame_get_name_returns:
  assumes "unwind_ready V R s" "string_table s name \<noteq> None"
  shows "\<exists>ref s'. frame_get_name name s = Some (Inr ref, s') \<and> unwind_ready V R s' \<and> frame_step s s'"
proof -
  have ok: "frames_ok s" "frame_cache s \<noteq> None"
    using assms(1) by (auto simp: unwind_ready_def cache_cap_def split: option.splits)
  obtain r t where look: "cache_lookup name s = Some (r, t)"
    using cache_lookup_defined [OF ok, of name] by auto
  have "\<exists>y. frame_get_name name s = Some y"
  proof (cases r)
    case (Inl e)
    then have "t = s" "map_of (cache_entries s) name = None"
      using cache_lookup_law(3) [OF ok(1) look] by auto
    then show ?thesis
      using look Inl cache_frame_defined [OF ok, of name "new_frame 0 name"] by (auto simp: frame_get_name_def)
  qed (use look in \<open>simp add: frame_get_name_def\<close>)
  then obtain r' s' where run: "frame_get_name name s = Some (r', s')"
    by auto
  from frame_get_name_law [OF ok(1) assms(2) run, of "[]" 0] show ?thesis
    using run unwind_ready_step [OF assms(1)] by blast
qed

lemma greenlet_unwind_returns:
  assumes "unwind_ready V R s" "string_table s (gr_name g) \<noteq> None"
    and "greenlet_frame_addr V R frame tstate \<noteq> None"
  shows "\<exists>n st s'. greenlet_unwind V R stk max_frames g frame tstate stack s = Some (n, st, s')
    \<and> unwind_ready V R s' \<and> frame_step s s'"
proof -
  obtain fa where fa: "greenlet_frame_addr V R frame tstate = Some fa"
    using assms(3) by blast
  show ?thesis
  proof (cases fa)
    case None
    then show ?thesis
      using fa assms(1) by (simp add: greenlet_unwind_def)
  next
    case (Some a)
    obtain n st t where unw: "unwind_frame V R stk max_frames a stack s = Some (n, st, t)"
      "unwind_ready V R t" "frame_step s t"
      using unwind_frame_returns [OF assms(1)] by blast
    have "string_table t (gr_name g) \<noteq> None"
      using assms(2) unw(3) by (auto simp: frame_step_def dest: extends_table)
    from frame_get_name_returns [OF unw(2) this] obtain ref u where
      "frame_get_name (gr_name g) t = Some (Inr ref, u)" "unwind_ready V R u" "frame_step t u"
      by blast
    then show ?thesis
      using fa Some unw frame_step_trans by (auto simp: greenlet_unwind_def)
  qed
qed

text \<open>The frame objects of the greenlets are still there, where they are read directly.\<close>

definition greenlets_readable :: "py_version \<Rightarrow> remote \<Rightarrow> py_tstate \<Rightarrow> 'a greenlets_state_scheme \<Rightarrow> bool" where
  "greenlets_readable V R tstate s \<longleftrightarrow>
     (\<forall>g \<in> snd ` set (greenlet_info_map s). gr_frame g \<noteq> FRAME_NOT_SET R
        \<longrightarrow> greenlet_frame_addr V R (gr_frame g) tstate \<noteq> None)"

lemma greenlets_readableD:
  "greenlets_readable V R tstate s \<Longrightarrow> g \<in> snd ` set (greenlet_info_map s) \<Longrightarrow> gr_frame g \<noteq> FRAME_NOT_SET R
    \<Longrightarrow> greenlet_frame_addr V R (gr_frame g) tstate \<noteq> None"
  unfolding greenlets_readable_def by blast

lemma unwind_parents_returns:
  assumes "unwind_ready V R s" "greenlets_named s"
    and "greenlets_readable V R tstate s"
  shows "\<exists>st s'. unwind_parents V R stk max_frames tstate k visited gid stack s = Some (st, s')
    \<and> unwind_ready V R s' \<and> frame_step s s'"
  using assms
proof (induction k arbitrary: visited gid stack s)
  case (Suc k)
  show ?case
  proof (cases "gid \<in> visited \<or> map_of (greenlet_parent_map s) gid = None")
    case True
    then show ?thesis
      using Suc.prems(1) by auto
  next
    case False
    then obtain pid where pid: "map_of (greenlet_parent_map s) gid = Some pid" "gid \<notin> visited"
      by auto
    show ?thesis
    proof (cases "map_of (greenlet_info_map s) pid")
      case None
      then show ?thesis
        using pid Suc.prems(1) by auto
    next
      case (Some p)
      then have p: "p \<in> snd ` set (greenlet_info_map s)"
        by (force dest: map_of_SomeD)
      show ?thesis
      proof (cases "gr_frame p = FRAME_NOT_SET R \<or> gr_frame p = addr_Py_None R")
        case True
        then show ?thesis
          using pid Some Suc.prems(1) by auto
      next
        case frame: False
        have "string_table s (gr_name p) \<noteq> None"
          using Suc.prems(2) p by (auto simp: greenlets_named_def)
        from greenlet_unwind_returns [OF Suc.prems(1) this greenlets_readableD [OF Suc.prems(3) p]] frame
        obtain n st t where unw: "greenlet_unwind V R stk max_frames p (gr_frame p) tstate stack s = Some (n, st, t)"
          "unwind_ready V R t" "frame_step s t"
          by blast
        note step = frame_step_greenlets [OF unw(3)]
        have "greenlets_named t"
          using greenlets_named_step [OF Suc.prems(2) step(1)] .
        moreover have "greenlets_readable V R tstate t"
          using Suc.prems(3) step(3) by (simp add: greenlets_readable_def)
        ultimately obtain st' u where "unwind_parents V R stk max_frames tstate k (insert gid visited) pid st t = Some (st', u)"
          "unwind_ready V R u" "frame_step t u"
          using Suc.IH [OF unw(2)] by blast
        then show ?thesis
          using pid Some frame unw frame_step_trans by auto
      qed
    qed
  qed
qed simp

lemma unwind_ready_greenlets [simp]: "unwind_ready V R (s\<lparr>current_greenlets := gs\<rparr>) = unwind_ready V R s"
  by (simp add: unwind_ready_def)

lemma unwind_leaves_returns:
  assumes "unwind_ready V R s" "greenlets_named s" "set gs \<subseteq> set (greenlet_info_map s)"
    and "greenlets_readable V R tstate s"
  shows "\<exists>s'. unwind_leaves V R stk max_frames tstate skip_idle parents gs s = Some s' \<and> unwind_ready V R s'"
  using assms
proof (induction gs arbitrary: s)
  case (Cons x gs)
  obtain gid g where x: "x = (gid, g)"
    by (cases x)
  show ?case
  proof (cases "gid \<in> parents \<or> gr_frame g = FRAME_NOT_SET R \<or> (skip_idle \<and> gr_frame g \<noteq> addr_Py_None R)")
    case True
    then have "unwind_leaves V R stk max_frames tstate skip_idle parents (x # gs) s
        = unwind_leaves V R stk max_frames tstate skip_idle parents gs s"
      by (simp add: x)
    moreover have "set gs \<subseteq> set (greenlet_info_map s)"
      using Cons.prems(3) by simp
    ultimately show ?thesis
      using Cons.IH [OF Cons.prems(1,2) _ Cons.prems(4)] by (simp only:)
  next
    case False
    have g: "g \<in> snd ` set (greenlet_info_map s)"
      using Cons.prems(3) by (force simp: x)
    then have "string_table s (gr_name g) \<noteq> None"
      using Cons.prems(2) by (auto simp: greenlets_named_def)
    from greenlet_unwind_returns [OF Cons.prems(1) this greenlets_readableD [OF Cons.prems(4) g]] False
    obtain n st t where unw: "greenlet_unwind V R stk max_frames g (gr_frame g) tstate [] s = Some (n, st, t)"
      "unwind_ready V R t" "frame_step s t"
      by blast
    note step = frame_step_greenlets [OF unw(3)]
    have "greenlets_named t"
      using greenlets_named_step [OF Cons.prems(2) step(1)] .
    moreover have "greenlets_readable V R tstate t"
      using Cons.prems(4) step(3) by (simp add: greenlets_readable_def)
    ultimately obtain st' u where up: "unwind_parents V R stk max_frames tstate MAX_GREENLET_DEPTH {} gid st t = Some (st', u)"
      "unwind_ready V R u" "frame_step t u"
      using unwind_parents_returns [OF unw(2)] by blast
    define v where "v = u\<lparr>current_greenlets := current_greenlets u
      @ [\<lparr>si_task_name = gr_name g, si_on_cpu = (gr_frame g = addr_Py_None R), si_stack = st'\<rparr>]\<rparr>"
    have "frame_step s u"
      using unw(3) up(3) frame_step_trans by blast
    note all = frame_step_greenlets [OF this]
    have "greenlet_step s v"
      using all(1) by (simp add: v_def greenlet_step_def)
    then have "greenlets_named v"
      by (rule greenlets_named_step [OF Cons.prems(2)])
    moreover have "unwind_ready V R v" "greenlet_info_map v = greenlet_info_map s"
      using up(2) all(3) by (simp_all add: v_def)
    ultimately have "\<exists>s'. unwind_leaves V R stk max_frames tstate skip_idle parents gs v = Some s' \<and> unwind_ready V R s'"
      using Cons.IH [of v] Cons.prems(3,4) by (simp add: greenlets_readable_def)
    then show ?thesis
      using False unw(1) up(1) by (auto simp: x Let_def v_def)
  qed
qed simp

section \<open>Properties\<close>


definition start_greenlets :: "nat \<Rightarrow> greenlets_state" where
  "start_greenlets cap = frames_state.extend (start_state cap)
     (greenlets_state.fields [(7, \<lparr>gr_id = 7, gr_name = UNKNOWN, gr_frame = 65536\<rparr>)] [(7, 7)] [(11, 7)] [])"

lemma start_greenlets_ok: "0 < cap \<Longrightarrow> frames_ok (start_greenlets cap)"
  by (auto simp: frames_ok_def start_greenlets_def start_state_def init_frame_cache_def cache_owns_def
      cache_entries_def announced_def lru_new_ok StringTable_new_def presets_def C_FRAME_def INVALID_def
      UNKNOWN_def frames_state.defs greenlets_state.defs)


text \<open>Untracking a greenlet removes what is known of it and nothing of the others, except in
  the table of threads: that is keyed by threads, but the greenlet's identifier is what is
  erased from it. The entry of the thread that ran the greenlet stays, so the thread still
  counts as one with greenlets, and a thread whose native identifier happens to equal the
  greenlet's loses its entry.\<close>

theorem untrack_greenlet_effect:
  "map_of (greenlet_info_map (untrack_greenlet g s)) = (map_of (greenlet_info_map s))(g := None)
    \<and> map_of (greenlet_parent_map (untrack_greenlet g s)) = (map_of (greenlet_parent_map s))(g := None)
    \<and> (\<forall>thread. map_of (greenlet_thread_map (untrack_greenlet g s)) thread
          = (if thread = g then None else map_of (greenlet_thread_map s) thread))
    \<and> current_greenlets (untrack_greenlet g s) = current_greenlets s
    \<and> frames_ok (untrack_greenlet g s) = frames_ok s"
  by (simp add: untrack_greenlet_def delete_conv' frames_ok_def announced_def cache_owns_def cache_entries_def
      names_interned_def)

end
