(* ===== verification/Threads.thy ===== *)
theory Threads
  imports Greenlets "HOL-Library.Multiset"
begin

text \<open>
  The first half of \<open>echion/threads.h\<close>: what is known of a thread, and unwinding its asyncio
  tasks. The configuration is that of \<open>echion/config.h\<close>.
\<close>

section \<open>Configuration and environment\<close>

record config =
  interval :: nat
  cpu :: bool
  ignore_non_running_threads :: bool
  memory_mode :: bool
  native :: bool
  where_mode :: bool
  max_frames :: nat
  pipe_name :: string

definition default_config :: config where
  "default_config = \<lparr>interval = 1000, cpu = False, ignore_non_running_threads = True, memory_mode = False,
     native = False, where_mode = False, max_frames = 2048, pipe_name = []\<rparr>"

text \<open>A reading of a CPU clock.\<close>

datatype clock_reading = Clock_time nat nat | Clock_EINVAL | Clock_failed

text \<open>
  What one pass of the sampler meets: the version, the memory, the order in which a hash
  table is iterated, the demangler, and by thread the cursors of libunwind, whether \<open>SIGPROF\<close>
  reaches it, its CPU clock and the three readings of it, for \<open>update_cpu_time\<close> and \<open>is_running\<close>.
\<close>

record environ =
  ev_version :: py_version
  ev_remote :: remote
  ev_local_stack :: "i32 list"
  ev_hash_order :: "addr list \<Rightarrow> addr list"
  ev_demangle :: "string \<Rightarrow> string option"
  ev_cursors :: "addr \<Rightarrow> unw_cursor list"
  ev_signalled :: "addr \<Rightarrow> bool"
  ev_cpu_clock_id :: "addr \<Rightarrow> addr option"
  ev_clock :: "addr \<Rightarrow> clock_reading \<times> clock_reading \<times> clock_reading"
  ev_pid :: i64

section \<open>ThreadInfo\<close>

record thread_info =
  th_id :: addr
  th_native_id :: i64
  th_name :: string
  th_clock :: addr
  th_cpu_time :: i64
  th_asyncio_loop :: addr

record threads_state = greenlets_state +
  python_stack :: frame_stack
  native_stack :: frame_stack
  interleaved_stack :: frame_stack
  current_tasks :: "stack_info list"
  task_link_map :: "(addr \<times> addr) list"
  previous_task_objects :: "addr set"
  cerr :: "string list"
  thread_info_map :: "(addr \<times> thread_info) list"
  asyncio :: asyncio_state

text \<open>\<open>TS_TO_MICROSECOND\<close>, converted to \<open>unsigned long\<close>.\<close>

definition to_microsecond :: "nat \<Rightarrow> nat \<Rightarrow> i64" where
  "to_microsecond sec nsec = of_nat (sec * 1000000 + nsec div 1000)"

definition update_cpu_time :: "clock_reading \<Rightarrow> thread_info \<Rightarrow> unit result \<times> thread_info" where
  "update_cpu_time reading t =
     (case reading of
        Clock_time sec nsec \<Rightarrow> (Inr (), t\<lparr>th_cpu_time := to_microsecond sec nsec\<rparr>)
      | Clock_EINVAL \<Rightarrow> (Inr (), t)
      | Clock_failed \<Rightarrow> (Inl CpuTimeError, t))"

definition is_running :: "clock_reading \<Rightarrow> clock_reading \<Rightarrow> bool" where
  "is_running ts1 ts2 =
     (case (ts1, ts2) of
        (Clock_time s1 n1, Clock_time s2 n2) \<Rightarrow> s1 \<noteq> s2 \<or> n1 \<noteq> n2
      | _ \<Rightarrow> False)"

text \<open>\<open>garbage\<close> is what an object's uninitialised \<open>cpu_time\<close> holds: it stays when the clock is invalid.\<close>

definition threadinfo_create :: "environ \<Rightarrow> i64 \<Rightarrow> addr \<Rightarrow> i64 \<Rightarrow> string \<Rightarrow> thread_info result" where
  "threadinfo_create E garbage thread_id native_id name =
     (case ev_cpu_clock_id E thread_id of
        None \<Rightarrow> Inl ThreadInfoError
      | Some clock \<Rightarrow>
          (case update_cpu_time (fst (ev_clock E clock))
                  \<lparr>th_id = thread_id, th_native_id = native_id, th_name = name, th_clock = clock,
                   th_cpu_time = garbage, th_asyncio_loop = 0\<rparr> of
             (Inl _, t) \<Rightarrow> Inl ThreadInfoError
           | (Inr _, t) \<Rightarrow> Inr t))"

section \<open>The tasks of a thread\<close>

text \<open>
  First half of \<open>unwind_tasks\<close>: links of tasks that are gone are dropped, unless the child was
  not there the last time either, and the tasks are sorted into leaves and waiting ones.
\<close>

definition clean_links :: "addr set \<Rightarrow> addr set \<Rightarrow> (addr \<times> addr) list \<Rightarrow> (addr \<times> addr) list" where
  "clean_links all_task_origins previous links =
     filter (\<lambda>(child, _). child \<in> all_task_origins \<or> child \<notin> previous) links"

definition emplace :: "'k \<Rightarrow> 'v \<Rightarrow> ('k \<times> 'v) list \<Rightarrow> ('k \<times> 'v) list" where
  "emplace k v m = (if map_of m k = None then m @ [(k, v)] else m)"

record task_maps =
  leaf_tasks :: "task_info list"
  waitee_map :: "(addr \<times> task_info) list"
  origin_map :: "(addr \<times> task_info) list"

definition sort_task :: "bool \<Rightarrow> addr set \<Rightarrow> task_info \<Rightarrow> task_maps \<Rightarrow> task_maps" where
  "sort_task skip_idle parent_tasks task m =
     (let m = m\<lparr>origin_map := emplace (tk_origin task) task (origin_map m)\<rparr>
      in case tk_waiter task of
           Some w \<Rightarrow> m\<lparr>waitee_map := emplace (tk_origin w) task (waitee_map m)\<rparr>
         | None \<Rightarrow>
             if tk_origin task \<in> parent_tasks \<or> (skip_idle \<and> \<not> tk_on_cpu task) then m
             else m\<lparr>leaf_tasks := leaf_tasks m @ [task]\<rparr>)"

definition sort_tasks :: "bool \<Rightarrow> addr set \<Rightarrow> task_info list \<Rightarrow> task_maps" where
  "sort_tasks skip_idle parent_tasks tasks =
     fold (sort_task skip_idle parent_tasks) tasks \<lparr>leaf_tasks = [], waitee_map = [], origin_map = []\<rparr>"

text \<open>The task that is on the CPU is swapped to the front.\<close>

fun first_on_cpu :: "task_info list \<Rightarrow> nat \<Rightarrow> nat option" where
  "first_on_cpu [] i = None"
| "first_on_cpu (t # ts) i = (if tk_on_cpu t then Some i else first_on_cpu ts (Suc i))"

definition on_cpu_first :: "task_info list \<Rightarrow> task_info list" where
  "on_cpu_first ts =
     (case first_on_cpu ts 0 of
        None \<Rightarrow> ts
      | Some i \<Rightarrow> if 0 < i then ts[i := ts ! 0, 0 := ts ! i] else ts)"

text \<open>The task that comes after a task in a stack: the one that waits for it, or its parent by a link.\<close>

definition next_task :: "task_maps \<Rightarrow> (addr \<times> addr) list \<Rightarrow> task_info \<Rightarrow> task_info option" where
  "next_task m links task =
     (case map_of (waitee_map m) (tk_origin task) of
        Some t \<Rightarrow> Some t
      | None \<Rightarrow>
          (case map_of links (tk_origin task) of
             None \<Rightarrow> None
           | Some parent \<Rightarrow> map_of (origin_map m) parent))"

text \<open>
  The loop from a leaf up, which nothing bounds. \<open>sync\<close> is the thread's Python stack: its
  inner part goes in front of the frames of the task on the CPU.
\<close>

partial_function (option) follow_tasks ::
  "environ \<Rightarrow> nat \<Rightarrow> frame_stack \<Rightarrow> (task_info \<Rightarrow> task_info option) \<Rightarrow> task_info \<Rightarrow> frame_stack \<Rightarrow> nat
     \<Rightarrow> 'a frames_state_scheme \<Rightarrow> (frame_stack \<times> nat \<times> 'a frames_state_scheme) option" where
  "follow_tasks E limit sync next task stack upper s =
     (case task_unwind (ev_version E) (ev_remote E) (ev_local_stack E) limit task stack upper s of
        None \<Rightarrow> None
      | Some (task_stack_size, stack', upper', s1) \<Rightarrow>
          (case frame_get_name (tk_name task) s1 of
             Some (Inr name, s2) \<Rightarrow>
               (let stack = (if tk_on_cpu task then take (length sync - task_stack_size) sync @ stack' else stack')
                              @ [name];
                    upper = (if tk_on_cpu task then upper' else upper)
                in case next task of
                     None \<Rightarrow> Some (stack, upper, s2)
                   | Some task \<Rightarrow> follow_tasks E limit sync next task stack upper s2)
           | _ \<Rightarrow> None))"

text \<open>The loop over the leaves; \<open>upper\<close> and \<open>seen\<close> go from one leaf to the next.\<close>

fun unwind_leaf_tasks ::
  "environ \<Rightarrow> nat \<Rightarrow> frame_stack \<Rightarrow> (task_info \<Rightarrow> task_info option) \<Rightarrow> task_info list \<Rightarrow> bool \<Rightarrow> nat
     \<Rightarrow> stack_info list \<Rightarrow> 'a frames_state_scheme \<Rightarrow> (stack_info list \<times> 'a frames_state_scheme) option" where
  "unwind_leaf_tasks E limit sync next [] seen upper infos s = Some (infos, s)"
| "unwind_leaf_tasks E limit sync next (leaf # leaves) seen upper infos s =
     (let on_cpu_task_seen = (seen \<or> tk_on_cpu leaf)
      in case follow_tasks E limit sync next leaf [] upper s of
           None \<Rightarrow> None
         | Some (stack, upper, s) \<Rightarrow>
             (let start_index = (if on_cpu_task_seen \<and> upper \<le> length sync then length sync - upper else 0);
                  info = \<lparr>si_task_name = tk_name leaf, si_on_cpu = tk_on_cpu leaf,
                          si_stack = stack @ drop start_index sync\<rparr>
              in unwind_leaf_tasks E limit sync next leaves on_cpu_task_seen upper (infos @ [info]) s))"

text \<open>
  \<open>unwind_tasks\<close>: what the first half leaves for the second is the table of links, the leaves
  with the one on the CPU in front, and the next task of each.
\<close>

definition plan_tasks ::
  "environ \<Rightarrow> config \<Rightarrow> thread_info \<Rightarrow> 'a threads_state_scheme
     \<Rightarrow> ((task_info list \<times> (task_info \<Rightarrow> task_info option)) result \<times> 'a threads_state_scheme) option" where
  "plan_tasks E C th s =
     (case get_all_tasks (ev_version E) (ev_remote E) (ev_local_stack E) (ev_hash_order E) (asyncio s)
             (th_asyncio_loop th) 0 0 s of
        None \<Rightarrow> None
      | Some (Inl _, _, _, s) \<Rightarrow> Some (Inl TaskInfoError, s)
      | Some (Inr all_tasks, _, _, s) \<Rightarrow>
          (let origins = tk_origin ` set all_tasks;
               links = clean_links origins (previous_task_objects s) (task_link_map s);
               m = sort_tasks (cpu C \<and> ignore_non_running_threads C) (snd ` set links) all_tasks
           in Some (Inr (on_cpu_first (leaf_tasks m), next_task m links),
                s\<lparr>task_link_map := links, previous_task_objects := origins\<rparr>)))"

definition unwind_tasks ::
  "environ \<Rightarrow> config \<Rightarrow> thread_info \<Rightarrow> 'a threads_state_scheme \<Rightarrow> (unit result \<times> 'a threads_state_scheme) option" where
  "unwind_tasks E C th s =
     (case plan_tasks E C th s of
        None \<Rightarrow> None
      | Some (Inl e, s) \<Rightarrow> Some (Inl e, s)
      | Some (Inr (leaves, next), s) \<Rightarrow>
          (case unwind_leaf_tasks E (max_frames C) (python_stack s) next leaves False 0 [] s of
             None \<Rightarrow> None
           | Some (infos, s) \<Rightarrow> Some (Inr (), s\<lparr>current_tasks := current_tasks s @ infos\<rparr>)))"

section \<open>What leaves the sampler's fields alone\<close>

lemma more_threads:
  assumes "greenlets_state.more s' = greenlets_state.more s"
  shows "python_stack s' = python_stack s" "native_stack s' = native_stack s"
    "current_tasks s' = current_tasks s" "task_link_map s' = task_link_map s"
    "previous_task_objects s' = previous_task_objects s" "thread_info_map s' = thread_info_map s"
    "asyncio s' = asyncio s" "threads_state.more s' = threads_state.more s"
proof -
  have eq: "s' = s\<lparr>string_table := string_table s', calls := calls s', frame_heap := frame_heap s',
      next_frame := next_frame s', frame_cache := frame_cache s', stack_chunk := stack_chunk s',
      greenlet_info_map := greenlet_info_map s', greenlet_parent_map := greenlet_parent_map s',
      greenlet_thread_map := greenlet_thread_map s', current_greenlets := current_greenlets s'\<rparr>"
    by (rule greenlets_state.equality) (simp_all add: assms)
  show "python_stack s' = python_stack s" "native_stack s' = native_stack s"
    "current_tasks s' = current_tasks s" "task_link_map s' = task_link_map s"
    "previous_task_objects s' = previous_task_objects s" "thread_info_map s' = thread_info_map s"
    "asyncio s' = asyncio s" "threads_state.more s' = threads_state.more s"
    using arg_cong [OF eq, of python_stack] arg_cong [OF eq, of native_stack]
      arg_cong [OF eq, of current_tasks] arg_cong [OF eq, of task_link_map]
      arg_cong [OF eq, of previous_task_objects] arg_cong [OF eq, of thread_info_map]
      arg_cong [OF eq, of asyncio] arg_cong [OF eq, of threads_state.more]
    by simp_all
qed

text \<open>The frames, the strings and the cache do not depend on the fields of this record.\<close>

lemma frames_threads [simp]:
  "frames_ok (s\<lparr>python_stack := x\<rparr>) = frames_ok s" "frames_ok (s\<lparr>native_stack := x\<rparr>) = frames_ok s"
  "frames_ok (s\<lparr>interleaved_stack := x\<rparr>) = frames_ok s" "frames_ok (s\<lparr>cerr := y\<rparr>) = frames_ok s"
  "frames_ok (s\<lparr>current_tasks := z\<rparr>) = frames_ok s" "frames_ok (s\<lparr>task_link_map := l\<rparr>) = frames_ok s"
  "frames_ok (s\<lparr>previous_task_objects := p\<rparr>) = frames_ok s" "frames_ok (s\<lparr>thread_info_map := m\<rparr>) = frames_ok s"
  by (auto simp: frames_ok_def announced_def cache_owns_def cache_entries_def names_interned_def)

lemma entries_threads [simp]:
  "cache_entries (s\<lparr>python_stack := x\<rparr>) = cache_entries s" "cache_entries (s\<lparr>native_stack := x\<rparr>) = cache_entries s"
  "cache_entries (s\<lparr>interleaved_stack := x\<rparr>) = cache_entries s" "cache_entries (s\<lparr>cerr := y\<rparr>) = cache_entries s"
  "cache_entries (s\<lparr>current_tasks := z\<rparr>) = cache_entries s" "cache_entries (s\<lparr>task_link_map := l\<rparr>) = cache_entries s"
  "cache_entries (s\<lparr>previous_task_objects := p\<rparr>) = cache_entries s"
  "cache_entries (s\<lparr>thread_info_map := m\<rparr>) = cache_entries s"
  "cache_cap (s\<lparr>python_stack := x\<rparr>) = cache_cap s" "cache_cap (s\<lparr>native_stack := x\<rparr>) = cache_cap s"
  "cache_cap (s\<lparr>interleaved_stack := x\<rparr>) = cache_cap s" "cache_cap (s\<lparr>cerr := y\<rparr>) = cache_cap s"
  "cache_cap (s\<lparr>current_tasks := z\<rparr>) = cache_cap s" "cache_cap (s\<lparr>task_link_map := l\<rparr>) = cache_cap s"
  "cache_cap (s\<lparr>previous_task_objects := p\<rparr>) = cache_cap s" "cache_cap (s\<lparr>thread_info_map := m\<rparr>) = cache_cap s"
  by (simp_all add: cache_entries_def cache_cap_def)

lemma held_threads [simp]:
  "held refs n (s\<lparr>python_stack := x\<rparr>) = held refs n s" "held refs n (s\<lparr>native_stack := x\<rparr>) = held refs n s"
  "held refs n (s\<lparr>current_tasks := z\<rparr>) = held refs n s" "held refs n (s\<lparr>task_link_map := l\<rparr>) = held refs n s"
  "held refs n (s\<lparr>previous_task_objects := p\<rparr>) = held refs n s"
  by (simp_all add: held_def pinned_def)

lemma extends_threads [simp]:
  "extends t (s\<lparr>python_stack := x\<rparr>) = extends t s" "extends t (s\<lparr>native_stack := x\<rparr>) = extends t s"
  "extends t (s\<lparr>interleaved_stack := x\<rparr>) = extends t s" "extends t (s\<lparr>cerr := y\<rparr>) = extends t s"
  "extends t (s\<lparr>current_tasks := z\<rparr>) = extends t s" "extends t (s\<lparr>task_link_map := l\<rparr>) = extends t s"
  "extends t (s\<lparr>previous_task_objects := p\<rparr>) = extends t s" "extends t (s\<lparr>thread_info_map := m\<rparr>) = extends t s"
  "extends t (s\<lparr>current_greenlets := g\<rparr>) = extends t s"
  by (simp_all add: extends_def)

lemma unwind_ready_threads [simp]:
  "unwind_ready V R (s\<lparr>python_stack := x\<rparr>) = unwind_ready V R s"
  "unwind_ready V R (s\<lparr>current_tasks := z\<rparr>) = unwind_ready V R s"
  "unwind_ready V R (s\<lparr>task_link_map := l\<rparr>) = unwind_ready V R s"
  "unwind_ready V R (s\<lparr>previous_task_objects := p\<rparr>) = unwind_ready V R s"
  by (simp_all add: unwind_ready_def)

lemma frame_step_interned: "frame_step s t \<Longrightarrow> string_table s k \<noteq> None \<Longrightarrow> string_table t k \<noteq> None"
  by (auto simp: frame_step_def dest: extends_table)

section \<open>Chains of tasks\<close>

text \<open>The whole chain from an element on, when it ends.\<close>

inductive chain :: "('t \<Rightarrow> 't option) \<Rightarrow> 't \<Rightarrow> 't list \<Rightarrow> bool" for "next" where
  last: "next t = None \<Longrightarrow> chain next t [t]"
| more: "next t = Some u \<Longrightarrow> chain next u ts \<Longrightarrow> chain next t (t # ts)"

lemma no_chain:
  assumes "chain next t ts" "t \<in> S" "\<And>t. t \<in> S \<Longrightarrow> \<exists>u \<in> S. next t = Some u"
  shows False
  using assms by (induction rule: chain.induct) (metis option.distinct(1) option.inject)+

lemma chain_subset: "chain next t ts \<Longrightarrow> (\<And>t u. next t = Some u \<Longrightarrow> u \<in> A) \<Longrightarrow> t \<in> A \<Longrightarrow> set ts \<subseteq> A"
  by (induction rule: chain.induct) auto

lemma task_unwind_loop_returns:
  assumes "unwind_ready V R s"
  shows "\<exists>n st u s'. task_unwind_loop V R stk limit frames cnt stack upper s = Some (n, st, u, s')
    \<and> unwind_ready V R s' \<and> frame_step s s'"
  using assms
proof (induction frames arbitrary: cnt stack upper s)
  case (Cons a frames)
  obtain n st t where unw: "unwind_frame V R stk limit a stack s = Some (n, st, t)"
    "unwind_ready V R t" "frame_step s t"
    using unwind_frame_returns [OF Cons.prems] by blast
  have "\<exists>n st u s'. task_unwind_loop V R stk limit frames c k up t = Some (n, st, u, s')
    \<and> unwind_ready V R s' \<and> frame_step s s'" for c k up
    using Cons.IH [OF unw(2), of c k up] frame_step_trans [OF unw(3)] by blast
  then show ?case
    using unw by simp
qed auto

lemma follow_tasks_returns:
  assumes "chain next t ts" "unwind_ready (ev_version E) (ev_remote E) s" "\<forall>t \<in> set ts. string_table s (tk_name t) \<noteq> None"
  shows "\<exists>st u s'. follow_tasks E limit sync next t stack upper s = Some (st, u, s')
    \<and> unwind_ready (ev_version E) (ev_remote E) s' \<and> frame_step s s'"
  using assms
proof (induction arbitrary: stack upper s rule: chain.induct)
  case (last t)
  obtain n st u s1 where unw: "task_unwind (ev_version E) (ev_remote E) (ev_local_stack E) limit t stack upper s
      = Some (n, st, u, s1)" "unwind_ready (ev_version E) (ev_remote E) s1" "frame_step s s1"
    using task_unwind_loop_returns [OF last.prems(1)] unfolding task_unwind_def by blast
  have "string_table s1 (tk_name t) \<noteq> None"
    using last.prems(2) frame_step_interned [OF unw(3)] by simp
  from frame_get_name_returns [OF unw(2) this] show ?case
    using unw last.hyps by (subst follow_tasks.simps) (auto simp: Let_def intro: frame_step_trans)
next
  case (more t v ts)
  obtain n st u s1 where unw: "task_unwind (ev_version E) (ev_remote E) (ev_local_stack E) limit t stack upper s
      = Some (n, st, u, s1)" "unwind_ready (ev_version E) (ev_remote E) s1" "frame_step s s1"
    using task_unwind_loop_returns [OF more.prems(1)] unfolding task_unwind_def by blast
  have "string_table s1 (tk_name t) \<noteq> None"
    using more.prems(2) frame_step_interned [OF unw(3)] by simp
  from frame_get_name_returns [OF unw(2) this] obtain ref s2 where
    name: "frame_get_name (tk_name t) s1 = Some (Inr ref, s2)" "unwind_ready (ev_version E) (ev_remote E) s2" "frame_step s1 s2"
    by blast
  have step: "frame_step s s2"
    using unw(3) name(3) frame_step_trans by blast
  then have "\<forall>t \<in> set ts. string_table s2 (tk_name t) \<noteq> None"
    using more.prems(2) frame_step_interned by (metis list.set_intros(2))
  from more.IH [OF name(2) this] step show ?case
    using unw(1) name(1) more.hyps(1)
    by (subst follow_tasks.simps) (simp add: Let_def, metis frame_step_trans)
qed

lemma follow_tasks_ends:
  assumes "follow_tasks E limit sync next t stack upper s = Some y"
  shows "\<exists>ts. chain next t ts"
proof (rule follow_tasks.raw_induct [where P = "\<lambda>E limit sync next t stack upper s y. \<exists>ts. chain next t ts", OF _ assms])
  fix follow E limit sync "next" t stack upper s y
  assume IH: "\<And>E limit sync next t stack upper s y. follow E limit sync next t stack upper s = Some y
      \<Longrightarrow> \<exists>ts. chain next t ts"
    and run: "(case task_unwind (ev_version E) (ev_remote E) (ev_local_stack E) limit t stack upper s of
        None \<Rightarrow> None
      | Some (task_stack_size, stack', upper', s1) \<Rightarrow>
          (case frame_get_name (tk_name t) s1 of
             Some (Inr name, s2) \<Rightarrow>
               (let stack = (if tk_on_cpu t then take (length sync - task_stack_size) sync @ stack' else stack')
                              @ [name];
                    upper = (if tk_on_cpu t then upper' else upper)
                in case next t of
                     None \<Rightarrow> Some (stack, upper, s2)
                   | Some task \<Rightarrow> follow E limit sync next task stack upper s2)
           | _ \<Rightarrow> None)) = Some y"
  show "\<exists>ts. chain next t ts"
  proof (cases "next t")
    case None
    then show ?thesis
      by (blast intro: chain.last)
  next
    case (Some u)
    then obtain a b c d e f where "follow a b c next u d e f = Some y"
      using run by (auto simp: Let_def split: option.splits sum.splits)
    then show ?thesis
      using IH Some by (blast intro: chain.more)
  qed
qed


section \<open>The frames of a chain are alive\<close>

abbreviation task_room :: "nat \<Rightarrow> nat" where
  "task_room limit \<equiv> 2 * limit + 1"

text \<open>One task of the loop.\<close>

lemma follow_step:
  assumes run: "follow_tasks E limit sync next t stack upper s = Some y"
    and name: "string_table s (tk_name t) \<noteq> None"
    and held: "held refs n s" "set stack \<union> set sync \<subseteq> set refs" "n + task_room limit \<le> cache_cap s"
  obtains refs' m st up s2 where "held refs' m s2" "set refs \<union> set st \<subseteq> set refs'"
    "m \<le> n + task_room limit" "frame_step s s2"
    "(case next t of None \<Rightarrow> Some (st, up, s2) | Some u \<Rightarrow> follow_tasks E limit sync next u st up s2) = Some y"
proof -
  obtain size st1 up1 s1 where unw: "task_unwind (ev_version E) (ev_remote E) (ev_local_stack E) limit t stack upper s
      = Some (size, st1, up1, s1)"
    using run by (subst (asm) follow_tasks.simps) (auto split: option.splits)
  then obtain ref s2 where get: "frame_get_name (tk_name t) s1 = Some (Inr ref, s2)"
    using run by (subst (asm) follow_tasks.simps) (auto split: option.splits sum.splits)
  have "set stack \<subseteq> set refs" "n + 2 * (limit - length stack) \<le> cache_cap s"
    using held(2,3) by simp_all
  from task_unwind_held [OF unw held(1) this] obtain refs1 m1 where one:
    "held refs1 m1 s1" "set refs \<union> set st1 \<subseteq> set refs1" "m1 \<le> n + 2 * (limit - length stack)" "frame_step s s1"
    by blast
  have "m1 < cache_cap s1"
    using one(3,4) held(3) by (simp add: frame_step_def)
  then have two: "held (refs1 @ [ref]) (Suc m1) s2" "frame_step s1 s2"
    using frame_get_name_law [OF _ frame_step_interned [OF one(4) name] get, of refs1 m1] one(1)
    by (auto simp: held_def)
  define st where "st = (if tk_on_cpu t then take (length sync - size) sync @ st1 else st1) @ [ref]"
  have "set refs \<union> set st \<subseteq> set (refs1 @ [ref])"
    using one(2) held(2) by (auto simp: st_def dest: in_set_takeD)
  moreover have "(case next t of None \<Rightarrow> Some (st, if tk_on_cpu t then up1 else upper, s2)
      | Some u \<Rightarrow> follow_tasks E limit sync next u st (if tk_on_cpu t then up1 else upper) s2) = Some y"
    using run unw get unfolding st_def
    by (subst (asm) follow_tasks.simps) (simp add: Let_def split del: if_split)
  moreover have "frame_step s s2"
    using one(4) two(2) frame_step_trans by blast
  moreover have "Suc m1 \<le> n + task_room limit"
    using one(3) by simp
  ultimately show ?thesis
    using that [OF two(1)] by blast
qed

lemma follow_tasks_held:
  assumes "chain next t ts" "\<forall>t \<in> set ts. string_table s (tk_name t) \<noteq> None"
    and "follow_tasks E limit sync next t stack upper s = Some (stack', upper', s')"
    and "held refs n s" "set stack \<union> set sync \<subseteq> set refs" "n + length ts * task_room limit \<le> cache_cap s"
  shows "\<exists>refs' m. held refs' m s' \<and> set refs \<union> set stack' \<subseteq> set refs'
    \<and> m \<le> n + length ts * task_room limit \<and> frame_step s s'"
  using assms
proof (induction arbitrary: stack upper s refs n rule: chain.induct)
  case (last t)
  have t: "string_table s (tk_name t) \<noteq> None" "n + task_room limit \<le> cache_cap s"
    using last.prems(1,5) by simp_all
  show ?case
  proof (rule follow_step [OF last.prems(2) t(1) last.prems(3,4) t(2)])
    fix refs' m st up s2
    assume "held refs' m s2" "set refs \<union> set st \<subseteq> set refs'" "m \<le> n + task_room limit" "frame_step s s2"
      "(case next t of None \<Rightarrow> Some (st, up, s2) | Some u \<Rightarrow> follow_tasks E limit sync next u st up s2)
        = Some (stack', upper', s')"
    then show ?case
      using last.hyps by (intro exI [of _ refs'] exI [of _ m]) simp
  qed
next
  case (more t u ts)
  have t: "string_table s (tk_name t) \<noteq> None" "n + task_room limit \<le> cache_cap s"
    using more.prems(1,5) by simp_all
  show ?case
  proof (rule follow_step [OF more.prems(2) t(1) more.prems(3,4) t(2)])
    fix refs1 m st up s2
    assume one: "held refs1 m s2" "set refs \<union> set st \<subseteq> set refs1" "m \<le> n + task_room limit" "frame_step s s2"
      "(case next t of None \<Rightarrow> Some (st, up, s2) | Some u \<Rightarrow> follow_tasks E limit sync next u st up s2)
        = Some (stack', upper', s')"
    then have rest: "follow_tasks E limit sync next u st up s2 = Some (stack', upper', s')"
      using more.hyps(1) by simp
    have names: "\<forall>t \<in> set ts. string_table s2 (tk_name t) \<noteq> None"
      using more.prems(1) frame_step_interned [OF one(4)] by simp
    have sets: "set st \<union> set sync \<subseteq> set refs1"
      using one(2) more.prems(4) by blast
    have room: "m + length ts * task_room limit \<le> cache_cap s2"
      using one(3,4) more.prems(5) by (simp add: frame_step_def algebra_simps)
    from more.IH [OF names rest one(1) sets room] obtain refs' m' where
      "held refs' m' s'" "set refs1 \<union> set stack' \<subseteq> set refs'" "m' \<le> m + length ts * task_room limit"
      "frame_step s2 s'"
      by blast
    moreover from this have "m' \<le> n + length (t # ts) * task_room limit"
      using one(3) by (simp add: algebra_simps)
    ultimately show ?case
      using one(2,4) frame_step_trans by blast
  qed
qed

text \<open>Each leaf has a chain of at most \<open>k\<close> tasks, with names the string table holds.\<close>

definition leaf_chains ::
  "(task_info \<Rightarrow> task_info option) \<Rightarrow> nat \<Rightarrow> task_info list \<Rightarrow> 'a strings_state_scheme \<Rightarrow> bool" where
  "leaf_chains next k leaves s \<longleftrightarrow>
     (\<forall>t \<in> set leaves. \<exists>ts. chain next t ts \<and> length ts \<le> k \<and> (\<forall>t \<in> set ts. string_table s (tk_name t) \<noteq> None))"

lemma leaf_chains_step:
  assumes "leaf_chains next k leaves s" "frame_step s s'"
  shows "leaf_chains next k leaves s'"
  using assms frame_step_interned [OF assms(2)] unfolding leaf_chains_def by blast

abbreviation info_head :: "stack_info \<Rightarrow> addr \<times> bool" where
  "info_head i \<equiv> (si_task_name i, si_on_cpu i)"

lemma unwind_leaf_tasks_returns:
  assumes "leaf_chains next k leaves s" "unwind_ready (ev_version E) (ev_remote E) s"
  shows "\<exists>is s'. unwind_leaf_tasks E limit sync next leaves seen upper infos s = Some (infos @ is, s')
    \<and> map info_head is = map (\<lambda>t. (tk_name t, tk_on_cpu t)) leaves
    \<and> unwind_ready (ev_version E) (ev_remote E) s' \<and> frame_step s s'"
  using assms
proof (induction leaves arbitrary: seen upper infos s)
  case (Cons t leaves)
  then obtain ts where ts: "chain next t ts" "\<forall>t \<in> set ts. string_table s (tk_name t) \<noteq> None"
    by (auto simp: leaf_chains_def)
  from follow_tasks_returns [OF ts(1) Cons.prems(2) ts(2)] obtain st u s1 where one:
    "follow_tasks E limit sync next t [] upper s = Some (st, u, s1)"
    "unwind_ready (ev_version E) (ev_remote E) s1" "frame_step s s1"
    by blast
  have chains: "leaf_chains next k leaves s1"
    using Cons.prems(1) by (intro leaf_chains_step [OF _ one(3)]) (simp add: leaf_chains_def)
  define start where "start = (if (seen \<or> tk_on_cpu t) \<and> u \<le> length sync then length sync - u else 0)"
  define i where "i = \<lparr>si_task_name = tk_name t, si_on_cpu = tk_on_cpu t, si_stack = st @ drop start sync\<rparr>"
  from Cons.IH [OF chains one(2), of "seen \<or> tk_on_cpu t" u "infos @ [i]"] obtain "is" s' where
    "unwind_leaf_tasks E limit sync next leaves (seen \<or> tk_on_cpu t) u (infos @ [i]) s1 = Some (infos @ i # is, s')"
    "map info_head is = map (\<lambda>t. (tk_name t, tk_on_cpu t)) leaves"
    "unwind_ready (ev_version E) (ev_remote E) s'" "frame_step s1 s'"
    by auto
  then show ?case
    using one(1) frame_step_trans [OF one(3)]
    by (intro exI [of _ "i # is"] exI [of _ s']) (simp add: i_def start_def Let_def)
qed auto

lemma unwind_leaf_tasks_held:
  assumes "leaf_chains next k leaves s"
    and "unwind_leaf_tasks E limit sync next leaves seen upper infos s = Some (infos', s')"
    and "held refs n s" "set sync \<union> stacks_of infos \<subseteq> set refs"
    and "n + length leaves * (k * task_room limit) \<le> cache_cap s"
  shows "\<exists>refs' m. held refs' m s' \<and> set refs \<union> stacks_of infos' \<subseteq> set refs'
    \<and> m \<le> n + length leaves * (k * task_room limit) \<and> frame_step s s'"
  using assms
proof (induction leaves arbitrary: seen upper infos s refs n)
  case Nil
  then show ?case
    by (intro exI [of _ refs] exI [of _ n]) auto
next
  case (Cons t leaves)
  then obtain ts where ts: "chain next t ts" "length ts \<le> k" "\<forall>t \<in> set ts. string_table s (tk_name t) \<noteq> None"
    by (auto simp: leaf_chains_def)
  obtain st u s1 where fol: "follow_tasks E limit sync next t [] upper s = Some (st, u, s1)"
    using Cons.prems(2) by (auto simp: Let_def split: option.splits)
  define start where "start = (if (seen \<or> tk_on_cpu t) \<and> u \<le> length sync then length sync - u else 0)"
  define i where "i = \<lparr>si_task_name = tk_name t, si_on_cpu = tk_on_cpu t, si_stack = st @ drop start sync\<rparr>"
  have run: "unwind_leaf_tasks E limit sync next leaves (seen \<or> tk_on_cpu t) u (infos @ [i]) s1 = Some (infos', s')"
    using Cons.prems(2) fol by (simp add: i_def start_def Let_def)
  have bound: "length ts * task_room limit \<le> k * task_room limit"
    using ts(2) by (rule mult_le_mono1)
  define X where "X = k * task_room limit"
  have X: "n + (X + length leaves * X) \<le> cache_cap s" "length ts * task_room limit \<le> X"
    using Cons.prems(5) bound by (simp_all add: X_def)
  then have room: "n + length ts * task_room limit \<le> cache_cap s"
    by linarith
  have sub: "set [] \<union> set sync \<subseteq> set refs"
    using Cons.prems(4) by simp
  from follow_tasks_held [OF ts(1,3) fol Cons.prems(3) sub room] obtain refs1 m where one:
    "held refs1 m s1" "set refs \<union> set st \<subseteq> set refs1" "m \<le> n + length ts * task_room limit" "frame_step s s1"
    by blast
  have chains: "leaf_chains next k leaves s1"
    using Cons.prems(1) by (intro leaf_chains_step [OF _ one(4)]) (simp add: leaf_chains_def)
  have sets: "set sync \<union> stacks_of (infos @ [i]) \<subseteq> set refs1"
    using Cons.prems(4) one(2) by (auto simp: i_def dest: in_set_dropD)
  have "m + length leaves * (k * task_room limit) \<le> cache_cap s1"
    using one(3,4) X unfolding frame_step_def X_def [symmetric] by linarith
  from Cons.IH [OF chains run one(1) sets this] obtain refs' m' where two:
    "held refs' m' s'" "set refs1 \<union> stacks_of infos' \<subseteq> set refs'"
    "m' \<le> m + length leaves * (k * task_room limit)" "frame_step s1 s'"
    by blast
  have "m' \<le> n + length (t # leaves) * (k * task_room limit)"
    using two(3) one(3) X(2) unfolding X_def [symmetric] length_Cons mult_Suc by linarith
  moreover have "set refs \<union> stacks_of infos' \<subseteq> set refs'"
    using one(2) two(2) by blast
  ultimately show ?case
    using two(1) frame_step_trans [OF one(4) two(4)] by blast
qed


section \<open>Leaves and links\<close>

lemma map_of_emplace: "map_of (emplace k v m) x = (case map_of m x of None \<Rightarrow> if x = k then Some v else None | Some w \<Rightarrow> Some w)"
  by (auto simp: emplace_def map_add_def split: option.splits)

definition waits_for :: "addr \<Rightarrow> task_info \<Rightarrow> bool" where
  "waits_for a t \<longleftrightarrow> (\<exists>w. tk_waiter t = Some w \<and> tk_origin w = a)"

definition is_leaf :: "bool \<Rightarrow> addr set \<Rightarrow> task_info \<Rightarrow> bool" where
  "is_leaf skip_idle parents t \<longleftrightarrow>
     tk_waiter t = None \<and> tk_origin t \<notin> parents \<and> (skip_idle \<longrightarrow> tk_on_cpu t)"

text \<open>The tables hold the first task for each key, the leaves keep the order of the tasks.\<close>

lemma sort_tasks_fold:
  "leaf_tasks (fold (sort_task skip parents) ts m) = leaf_tasks m @ filter (is_leaf skip parents) ts
   \<and> map_of (waitee_map (fold (sort_task skip parents) ts m)) a
      = (case map_of (waitee_map m) a of None \<Rightarrow> List.find (waits_for a) ts | Some t \<Rightarrow> Some t)
   \<and> map_of (origin_map (fold (sort_task skip parents) ts m)) a
      = (case map_of (origin_map m) a of None \<Rightarrow> List.find (\<lambda>t. tk_origin t = a) ts | Some t \<Rightarrow> Some t)"
proof (induction ts arbitrary: m)
  case (Cons t ts)
  show ?case
    using Cons.IH [of "sort_task skip parents t m"]
    by (cases "tk_waiter t")
      (simp_all add: sort_task_def Let_def map_of_emplace is_leaf_def waits_for_def split: option.split)
qed (simp split: option.split)

lemma sort_tasks_spec:
  "leaf_tasks (sort_tasks skip parents ts) = filter (is_leaf skip parents) ts"
  "map_of (waitee_map (sort_tasks skip parents ts)) a = List.find (waits_for a) ts"
  "map_of (origin_map (sort_tasks skip parents ts)) a = List.find (\<lambda>t. tk_origin t = a) ts"
  using sort_tasks_fold [of skip parents ts "\<lparr>leaf_tasks = [], waitee_map = [], origin_map = []\<rparr>" a]
  by (simp_all add: sort_tasks_def)

lemma first_on_cpu_spec:
  "case first_on_cpu ts i of
     None \<Rightarrow> \<forall>t \<in> set ts. \<not> tk_on_cpu t
   | Some j \<Rightarrow> i \<le> j \<and> j < i + length ts \<and> tk_on_cpu (ts ! (j - i))"
proof (induction ts i rule: first_on_cpu.induct)
  case (2 t ts i)
  then show ?case
    by (cases "tk_on_cpu t"; cases "first_on_cpu ts (Suc i)") (simp_all add: nth_Cons')
qed simp

lemma on_cpu_first_spec:
  "mset (on_cpu_first ts) = mset ts \<and> length (on_cpu_first ts) = length ts
    \<and> ((\<exists>t \<in> set ts. tk_on_cpu t) \<longrightarrow> tk_on_cpu (hd (on_cpu_first ts)))"
proof (cases "first_on_cpu ts 0")
  case None
  then show ?thesis
    using first_on_cpu_spec [of ts 0] by (simp add: on_cpu_first_def)
next
  case (Some i)
  then have i: "i < length ts" "tk_on_cpu (ts ! i)"
    using first_on_cpu_spec [of ts 0] by simp_all
  then have "hd (ts[i := ts ! 0, 0 := ts ! i]) = ts ! i"
    by (cases "ts = []") (simp_all add: hd_conv_nth)
  moreover have "mset (ts[i := ts ! 0, 0 := ts ! i]) = mset ts"
    using i(1) mset_swap [of 0 ts i] by (cases "ts = []") simp_all
  ultimately show ?thesis
    using Some i by (cases "i = 0") (simp_all add: on_cpu_first_def hd_conv_nth)
qed

lemma on_cpu_first_set [simp]: "set (on_cpu_first ts) = set ts"
  using on_cpu_first_spec [of ts] mset_eq_setD by blast

lemma find_mem: "List.find P xs = Some x \<Longrightarrow> x \<in> set xs \<and> P x"
  by (induction xs) (auto split: if_splits)

lemma next_task_mem: "next_task (sort_tasks skip parents ts) links t = Some u \<Longrightarrow> u \<in> set ts"
  by (auto simp: next_task_def sort_tasks_spec split: option.splits dest: find_mem)

lemma waiter_chain_self: "t \<in> set (waiter_chain t)"
  by (cases t rule: waiter_chain.cases) simp_all

text \<open>What no operation of a sample changes: the tables that the Python side keeps.\<close>

definition thread_step :: "'a threads_state_scheme \<Rightarrow> 'a threads_state_scheme \<Rightarrow> bool" where
  "thread_step s s' \<longleftrightarrow> extends s s' \<and> cache_cap s' = cache_cap s
     \<and> greenlet_info_map s' = greenlet_info_map s \<and> greenlet_parent_map s' = greenlet_parent_map s
     \<and> greenlet_thread_map s' = greenlet_thread_map s \<and> thread_info_map s' = thread_info_map s
     \<and> asyncio s' = asyncio s \<and> threads_state.more s' = threads_state.more s"

lemma thread_step_refl [simp, intro]: "thread_step s s"
  by (simp add: thread_step_def)

lemma thread_step_trans [trans]: "thread_step s t \<Longrightarrow> thread_step t u \<Longrightarrow> thread_step s u"
  by (auto simp: thread_step_def intro: extends_trans)

lemma greenlet_step_thread: "greenlet_step s s' \<Longrightarrow> thread_step s s'"
  using more_threads [of s' s] by (simp add: greenlet_step_def thread_step_def)

text \<open>What the first half of \<open>unwind_tasks\<close> does to the rest of the state.\<close>

lemma plan_tasks_step:
  assumes "plan_tasks E C th s = Some (r, s')" "\<And>xs. set (ev_hash_order E xs) = set xs"
  shows "frames_ok s \<Longrightarrow> frames_ok s'" "held refs n s \<Longrightarrow> held refs n s'"
    "unwind_ready (ev_version E) (ev_remote E) s \<Longrightarrow> unwind_ready (ev_version E) (ev_remote E) s'"
    "thread_step s s'" "current_greenlets s' = current_greenlets s" "current_tasks s' = current_tasks s"
    "python_stack s' = python_stack s"
    "case r of Inl e \<Rightarrow> e = TaskInfoError | Inr (leaves, next) \<Rightarrow>
       (\<forall>t \<in> set leaves. string_table s' (tk_name t) \<noteq> None)
     \<and> (\<forall>t u. next t = Some u \<longrightarrow> string_table s' (tk_name u) \<noteq> None)"
proof -
  obtain q td gd t where all: "get_all_tasks (ev_version E) (ev_remote E) (ev_local_stack E) (ev_hash_order E)
      (asyncio s) (th_asyncio_loop th) 0 0 s = Some (q, td, gd, t)"
    using assms(1) by (auto simp: plan_tasks_def split: option.splits)
  have step: "string_step s t" and tasks: "\<And>ts k. q = Inr ts \<Longrightarrow> k \<in> set ts \<Longrightarrow> string_table t (tk_name k) \<noteq> None"
    using get_all_tasks_sound [OF all assms(2)] waiter_chain_self by (auto simp: task_read_def)
  note frames = string_step_frames [OF step]
  have more: "greenlet_step s t" "current_greenlets t = current_greenlets s"
    using frame_step_greenlets [OF frames(1)] by simp_all
  then have same: "thread_step s t" "current_tasks t = current_tasks s" "python_stack t = python_stack s"
    using more_threads [of t s] greenlet_step_thread by (auto simp: greenlet_step_def)
  have keep: "frames_ok s \<Longrightarrow> frames_ok t" "held refs n s \<Longrightarrow> held refs n t"
    "unwind_ready (ev_version E) (ev_remote E) s \<Longrightarrow> unwind_ready (ev_version E) (ev_remote E) t"
    using frames unwind_ready_step [OF _ frames(1)] by (auto simp: held_def unwind_ready_def)
  have s': "s' = t \<or> (\<exists>l p. s' = t\<lparr>task_link_map := l, previous_task_objects := p\<rparr>)"
    using assms(1) all by (auto simp: plan_tasks_def Let_def split: sum.splits)
  then show "frames_ok s \<Longrightarrow> frames_ok s'" "held refs n s \<Longrightarrow> held refs n s'"
    "unwind_ready (ev_version E) (ev_remote E) s \<Longrightarrow> unwind_ready (ev_version E) (ev_remote E) s'"
    "thread_step s s'" "current_greenlets s' = current_greenlets s" "current_tasks s' = current_tasks s"
    "python_stack s' = python_stack s"
    using keep more(2) same by (auto simp: thread_step_def)
  show "case r of Inl e \<Rightarrow> e = TaskInfoError | Inr (leaves, next) \<Rightarrow>
       (\<forall>t \<in> set leaves. string_table s' (tk_name t) \<noteq> None)
     \<and> (\<forall>t u. next t = Some u \<longrightarrow> string_table s' (tk_name u) \<noteq> None)"
  proof (cases q)
    case (Inl e)
    then show ?thesis
      using assms(1) all by (auto simp: plan_tasks_def)
  next
    case (Inr ts)
    show ?thesis
      using assms(1) all Inr tasks [OF Inr] next_task_mem
      by (fastforce simp: plan_tasks_def Let_def sort_tasks_spec)
  qed
qed


section \<open>Unwinding\<close>

text \<open>The tasks can be planned: at most \<open>m\<close> leaves, with chains that end within \<open>k\<close> tasks.\<close>

definition tasks_bounded ::
  "environ \<Rightarrow> config \<Rightarrow> thread_info \<Rightarrow> nat \<Rightarrow> nat \<Rightarrow> 'a threads_state_scheme \<Rightarrow> bool" where
  "tasks_bounded E C th k m s \<longleftrightarrow>
     (case plan_tasks E C th s of
        None \<Rightarrow> False
      | Some (Inl e, t) \<Rightarrow> True
      | Some (Inr (leaves, next), t) \<Rightarrow>
          length leaves \<le> m \<and> (\<forall>t \<in> set leaves. \<exists>ts. chain next t ts \<and> length ts \<le> k))"

text \<open>The stacks that \<open>unwind_tasks\<close> adds for a plan.\<close>

definition planned_heads ::
  "environ \<Rightarrow> config \<Rightarrow> thread_info \<Rightarrow> 'a threads_state_scheme \<Rightarrow> (addr \<times> bool) list" where
  "planned_heads E C th s =
     (case plan_tasks E C th s of
        Some (Inr (leaves, next), t) \<Rightarrow> map (\<lambda>t. (tk_name t, tk_on_cpu t)) leaves
      | _ \<Rightarrow> [])"

lemma chain_names:
  assumes "chain next t ts" "string_table s (tk_name t) \<noteq> None"
    and "\<And>t u. next t = Some u \<Longrightarrow> string_table s (tk_name u) \<noteq> None"
  shows "\<forall>t \<in> set ts. string_table s (tk_name t) \<noteq> None"
  using chain_subset [OF assms(1), of "{t. string_table s (tk_name t) \<noteq> None}"] assms(2,3) by blast

definition named :: "stack_info list \<Rightarrow> 'a strings_state_scheme \<Rightarrow> bool" where
  "named is s \<longleftrightarrow> (\<forall>i \<in> set is. string_table s (si_task_name i) \<noteq> None)"

lemma named_heads:
  assumes "map info_head is = map (\<lambda>t. (tk_name t, tk_on_cpu t)) leaves"
    and "\<And>l. l \<in> set leaves \<Longrightarrow> string_table t (tk_name l) \<noteq> None" "frame_step t u"
  shows "named is u"
  unfolding named_def
proof
  fix i assume "i \<in> set is"
  then have "info_head i \<in> set (map info_head is)"
    by simp
  then obtain l where "l \<in> set leaves" "si_task_name i = tk_name l"
    unfolding assms(1) by auto
  then show "string_table u (si_task_name i) \<noteq> None"
    using frame_step_interned [OF assms(3) assms(2)] by simp
qed

lemma unwind_leaf_tasks_spec:
  assumes ready: "unwind_ready (ev_version E) (ev_remote E) t" and leaves: "length leaves \<le> m"
    and names: "\<forall>l \<in> set leaves. string_table t (tk_name l) \<noteq> None"
    and chains: "leaf_chains next k leaves t"
    and held: "held refs n t" "set (python_stack t) \<subseteq> set refs"
    and room: "n + m * (k * task_room (max_frames C)) \<le> cache_cap t"
  shows "\<exists>is u refs' n'. unwind_leaf_tasks E (max_frames C) (python_stack t) next leaves False 0 [] t = Some (is, u)
    \<and> map info_head is = map (\<lambda>t. (tk_name t, tk_on_cpu t)) leaves \<and> unwind_ready (ev_version E) (ev_remote E) u
    \<and> frame_step t u \<and> named is u \<and> held refs' n' u \<and> set refs \<union> stacks_of is \<subseteq> set refs'
    \<and> n' \<le> n + m * (k * task_room (max_frames C))"
proof -
  from unwind_leaf_tasks_returns [OF chains ready, of "max_frames C" "python_stack t" False 0 "[]"]
  obtain "is" u where run: "unwind_leaf_tasks E (max_frames C) (python_stack t) next leaves False 0 [] t = Some (is, u)"
    "map info_head is = map (\<lambda>t. (tk_name t, tk_on_cpu t)) leaves" "unwind_ready (ev_version E) (ev_remote E) u"
    "frame_step t u"
    by auto
  have "length leaves * (k * task_room (max_frames C)) \<le> m * (k * task_room (max_frames C))"
    using leaves by (rule mult_le_mono1)
  then have cap: "n + length leaves * (k * task_room (max_frames C)) \<le> cache_cap t"
    "n + length leaves * (k * task_room (max_frames C)) \<le> n + m * (k * task_room (max_frames C))"
    using room by linarith+
  have sub: "set (python_stack t) \<union> stacks_of [] \<subseteq> set refs"
    using held(2) by simp
  from unwind_leaf_tasks_held [OF chains run(1) held(1) sub cap(1)] obtain refs' n' where
    "held refs' n' u" "set refs \<union> stacks_of is \<subseteq> set refs'"
      "n' \<le> n + length leaves * (k * task_room (max_frames C))"
    by blast
  moreover from this(3) cap(2) have "n' \<le> n + m * (k * task_room (max_frames C))"
    by (rule order_trans)
  ultimately show ?thesis
    using run named_heads [OF run(2) names [rule_format] run(4)] by blast
qed

lemma unwind_tasks_spec:
  assumes ready: "unwind_ready (ev_version E) (ev_remote E) s"
    and order: "\<And>xs. set (ev_hash_order E xs) = set xs"
    and bounded: "tasks_bounded E C th k m s"
    and held: "held refs n s" "set (python_stack s) \<union> stacks_of (current_tasks s) \<subseteq> set refs"
    and room: "n + m * (k * task_room (max_frames C)) \<le> cache_cap s"
  shows "\<exists>r s' is refs' n'. unwind_tasks E C th s = Some (r, s')
    \<and> unwind_ready (ev_version E) (ev_remote E) s' \<and> thread_step s s'
    \<and> python_stack s' = python_stack s \<and> current_greenlets s' = current_greenlets s
    \<and> current_tasks s' = current_tasks s @ is \<and> map info_head is = planned_heads E C th s \<and> named is s'
    \<and> held refs' n' s' \<and> set refs \<union> stacks_of (current_tasks s') \<subseteq> set refs'
    \<and> n' \<le> n + m * (k * task_room (max_frames C))
    \<and> (r = Inr () \<or> r = Inl TaskInfoError)"
proof -
  obtain p t where plan: "plan_tasks E C th s = Some (p, t)"
    using bounded by (auto simp: tasks_bounded_def split: option.splits)
  note step = plan_tasks_step [OF plan order]
  show ?thesis
  proof (cases p)
    case (Inl e)
    then show ?thesis
      using plan step(3) [OF ready] step(2) [OF held(1)] step(4-8) held(2)
      by (intro exI [of _ "Inl e"] exI [of _ t] exI [of _ "[]"] exI [of _ refs] exI [of _ n])
        (auto simp: unwind_tasks_def planned_heads_def named_def)
  next
    case (Inr q)
    obtain leaves "next" where q: "q = (leaves, next)"
      by (cases q)
    have leaves: "length leaves \<le> m" "\<forall>t \<in> set leaves. \<exists>ts. chain next t ts \<and> length ts \<le> k"
      using bounded plan Inr q by (simp_all add: tasks_bounded_def)
    have names: "\<And>l. l \<in> set leaves \<Longrightarrow> string_table t (tk_name l) \<noteq> None"
      "\<And>l u. next l = Some u \<Longrightarrow> string_table t (tk_name u) \<noteq> None"
      using step(8) unfolding Inr q by simp_all
    have chains: "leaf_chains next k leaves t"
      unfolding leaf_chains_def using leaves(2) chain_names [OF _ names(1) names(2)] by meson
    have leaf_names: "\<forall>l \<in> set leaves. string_table t (tk_name l) \<noteq> None"
      using names(1) by blast
    have "set (python_stack t) \<subseteq> set refs" "n + m * (k * task_room (max_frames C)) \<le> cache_cap t"
      using step(4,7) held(2) room by (simp_all add: thread_step_def)
    from unwind_leaf_tasks_spec [OF step(3) [OF ready] leaves(1) leaf_names chains step(2) [OF held(1)] this]
    obtain "is" u refs' n' where run:
      "unwind_leaf_tasks E (max_frames C) (python_stack t) next leaves False 0 [] t = Some (is, u)"
      "map info_head is = map (\<lambda>t. (tk_name t, tk_on_cpu t)) leaves" "unwind_ready (ev_version E) (ev_remote E) u"
      "frame_step t u" "named is u"
      and new: "held refs' n' u" "set refs \<union> stacks_of is \<subseteq> set refs'"
        "n' \<le> n + m * (k * task_room (max_frames C))"
      by (elim exE conjE) (rule that)
    define s' where "s' = u\<lparr>current_tasks := current_tasks u @ is\<rparr>"
    note gs = frame_step_greenlets [OF run(4)]
    note fields = more_threads [of u t]
    have same: "current_tasks u = current_tasks s" "python_stack u = python_stack s"
      "current_greenlets u = current_greenlets s" "thread_step s u"
      using gs fields step(4-7) greenlet_step_thread [OF gs(1)] thread_step_trans
      by (auto simp: greenlet_step_def)
    have "unwind_tasks E C th s = Some (Inr (), s')"
      using plan Inr q run(1) by (simp add: unwind_tasks_def s'_def)
    moreover have "unwind_ready (ev_version E) (ev_remote E) s'" "held refs' n' s'" "thread_step s s'"
      "python_stack s' = python_stack s" "current_greenlets s' = current_greenlets s"
      "current_tasks s' = current_tasks s @ is"
      using run(3) new(1) same by (simp_all add: s'_def thread_step_def)
    moreover have "set refs \<union> stacks_of (current_tasks s') \<subseteq> set refs'"
      using new(2) held(2) same(1) by (auto simp: s'_def)
    moreover have "map info_head is = planned_heads E C th s"
      using run(2) plan Inr q by (simp add: planned_heads_def)
    moreover have "named is s'"
      using run(5) by (simp add: named_def s'_def)
    ultimately show ?thesis
      using new(3) by blast
  qed
qed

definition live :: "frame_ref set \<Rightarrow> 'a frames_state_scheme \<Rightarrow> bool" where
  "live refs s \<longleftrightarrow> (\<forall>ref \<in> refs. deref ref s \<noteq> None)"

lemma held_live_set: "held refs n s \<Longrightarrow> A \<subseteq> set refs \<Longrightarrow> live A s"
  using held_live by (fastforce simp: live_def)

section \<open>Properties\<close>

definition sample_environ :: "py_version \<Rightarrow> remote \<Rightarrow> environ" where
  "sample_environ V R = \<lparr>ev_version = V, ev_remote = R, ev_local_stack = [], ev_hash_order = (\<lambda>xs. xs),
     ev_demangle = (\<lambda>_. None), ev_cursors = (\<lambda>_. []), ev_signalled = (\<lambda>_. False),
     ev_cpu_clock_id = (\<lambda>a. Some a), ev_clock = (\<lambda>_. (Clock_time 1 0, Clock_time 1 0, Clock_time 1 5)), ev_pid = 42\<rparr>"

definition start_threads :: "nat \<Rightarrow> threads_state" where
  "start_threads cap = greenlets_state.extend (start_greenlets cap)
     (threads_state.fields [] [] [] [] [] {} [] []
        \<lparr>asyncio_current_tasks = 0, asyncio_scheduled_tasks = 12288, asyncio_eager_tasks = 0\<rparr>)"

definition a_thread :: "addr \<Rightarrow> thread_info" where
  "a_thread loop = \<lparr>th_id = 1, th_native_id = 11, th_name = ''t'', th_clock = 3, th_cpu_time = 7, th_asyncio_loop = loop\<rparr>"

lemma start_threads_simps [simp]:
  "string_table (start_threads cap) = StringTable_new" "cache_cap (start_threads cap) = cap"
  "calls (start_threads cap) = []" "stack_chunk (start_threads cap) = None"
  "python_stack (start_threads cap) = []" "current_tasks (start_threads cap) = []"
  "current_greenlets (start_threads cap) = []" "task_link_map (start_threads cap) = []"
  "previous_task_objects (start_threads cap) = {}" "thread_info_map (start_threads cap) = []"
  "greenlet_info_map (start_threads cap) = [(7, \<lparr>gr_id = 7, gr_name = UNKNOWN, gr_frame = 65536\<rparr>)]"
  "greenlet_thread_map (start_threads cap) = [(11, 7)]"
  "asyncio (start_threads cap) = \<lparr>asyncio_current_tasks = 0, asyncio_scheduled_tasks = 12288, asyncio_eager_tasks = 0\<rparr>"
  by (simp_all add: start_threads_def start_greenlets_def start_state_def init_frame_cache_def cache_cap_def
      frames_state.defs greenlets_state.defs threads_state.defs lru_new_def)

lemma start_threads_ok [simp]: "0 < cap \<Longrightarrow> frames_ok (start_threads cap)"
  using start_greenlets_ok [of cap]
  by (simp add: start_threads_def greenlets_state.defs frames_ok_def announced_def cache_owns_def
      cache_entries_def names_interned_def)

lemma sample_environ_simps [simp]:
  "ev_version (sample_environ V R) = V" "ev_remote (sample_environ V R) = R" "ev_local_stack (sample_environ V R) = []"
  "ev_hash_order (sample_environ V R) = (\<lambda>xs. xs)"
  "ev_clock (sample_environ V R) = (\<lambda>_. (Clock_time 1 0, Clock_time 1 0, Clock_time 1 5))"
  by (simp_all add: sample_environ_def)


text \<open>Task 1 gathers tasks 2 and 3, and task 2 awaits task 1.\<close>

definition task_named :: "addr \<Rightarrow> task_info option \<Rightarrow> task_info" where
  "task_named a w = TaskInfo a 9 False (GenInfo 0 0 None False) UNKNOWN w"

definition gather_tasks :: "task_info list" where
  "gather_tasks = [task_named 1 None, task_named 2 (Some (task_named 1 None)), task_named 3 None]"



lemma two_coros_ready: "0 < cap \<Longrightarrow> unwind_ready V313 two_coros (start_threads cap)"
  by (auto simp: unwind_ready_def tables_ok_def infer_location_def py_version_order read_iframe_def
      two_coros_def no_memory_def copy_type_def pybytes_to_bytes_and_size_def)


lemma two_coros_plan:
  assumes "string_table s 24576 = None" "task_link_map s = []" "previous_task_objects s = {}"
    and "asyncio s = \<lparr>asyncio_current_tasks = 0, asyncio_scheduled_tasks = 12288, asyncio_eager_tasks = 0\<rparr>"
    and "\<not> cpu C"
  obtains t "next" where "plan_tasks (sample_environ V313 two_coros) C (a_thread 9) s
      = Some (Inr ([TaskInfo 20480 9 True (GenInfo 8192 8264 (Some (GenInfo 16384 16456 None True)) True) 24576 None],
                   next), t)" "\<And>t. next t = None"
proof -
  let ?task = "TaskInfo 20480 9 True (GenInfo 8192 8264 (Some (GenInfo 16384 16456 None True)) True) 24576 None"
  obtain s' where all: "get_all_tasks V313 two_coros [] (\<lambda>xs. xs)
      \<lparr>asyncio_current_tasks = 0, asyncio_scheduled_tasks = 12288, asyncio_eager_tasks = 0\<rparr> 9 0 0 s
      = Some (Inr [?task], 0, 0, s')"
    using two_coros_tasks [OF assms(1)] by blast
  have "task_link_map s' = []"
    using get_all_tasks_sound [OF all] string_step_frames(1) [of s s'] frame_step_greenlets(1) [of s s']
      more_threads(4) [of s' s] assms(2) by (simp add: greenlet_step_def)
  then have links: "clean_links A P (task_link_map s') = []" for A P
    by (simp add: clean_links_def)
  show ?thesis
    by (rule that [of "next_task (sort_tasks False {} [?task]) []"])
      (use all assms(4,5) in \<open>simp_all add: plan_tasks_def a_thread_def Let_def links sort_tasks_spec is_leaf_def
         on_cpu_first_def next_task_def waits_for_def\<close>)
qed


text \<open>C34: the plan for the tasks of a loop. The leaves are the tasks that await no other, are the
  parent of none by a link and, in CPU mode, run; the one on the CPU comes first. The next
  task of a task is the first one that awaits it, else its parent by a link, if it still
  exists. Links of tasks that are gone are dropped, but not those of tasks that were not
  there the last time either.\<close>

theorem plan_tasks_spec:
  assumes "get_all_tasks (ev_version E) (ev_remote E) (ev_local_stack E) (ev_hash_order E) (asyncio s)
             (th_asyncio_loop th) 0 0 s = Some (Inr tasks, td, gd, t)"
  shows "\<exists>leaves next links. plan_tasks E C th s
      = Some (Inr (leaves, next), t\<lparr>task_link_map := links, previous_task_objects := tk_origin ` set tasks\<rparr>)
    \<and> mset leaves = mset (filter (is_leaf (cpu C \<and> ignore_non_running_threads C) (snd ` set links)) tasks)
    \<and> ((\<exists>l \<in> set leaves. tk_on_cpu l) \<longrightarrow> tk_on_cpu (hd leaves))
    \<and> (\<forall>l. next l = (case List.find (waits_for (tk_origin l)) tasks of
                        Some u \<Rightarrow> Some u
                      | None \<Rightarrow> Option.bind (map_of links (tk_origin l)) (\<lambda>p. List.find (\<lambda>u. tk_origin u = p) tasks)))
    \<and> (\<forall>child parent. (child, parent) \<in> set links \<longleftrightarrow> (child, parent) \<in> set (task_link_map t)
          \<and> (child \<in> tk_origin ` set tasks \<or> child \<notin> previous_task_objects t))"
proof -
  define links where "links = clean_links (tk_origin ` set tasks) (previous_task_objects t) (task_link_map t)"
  let ?m = "sort_tasks (cpu C \<and> ignore_non_running_threads C) (snd ` set links) tasks"
  have "plan_tasks E C th s = Some (Inr (on_cpu_first (leaf_tasks ?m), next_task ?m links),
      t\<lparr>task_link_map := links, previous_task_objects := tk_origin ` set tasks\<rparr>)"
    using assms by (simp add: plan_tasks_def Let_def links_def)
  moreover have "next_task ?m links l = (case List.find (waits_for (tk_origin l)) tasks of Some u \<Rightarrow> Some u
      | None \<Rightarrow> Option.bind (map_of links (tk_origin l)) (\<lambda>p. List.find (\<lambda>u. tk_origin u = p) tasks))" for l
    by (simp add: next_task_def sort_tasks_spec split: option.split)
  moreover have "(child, parent) \<in> set links \<longleftrightarrow> (child, parent) \<in> set (task_link_map t)
      \<and> (child \<in> tk_origin ` set tasks \<or> child \<notin> previous_task_objects t)" for child parent
    by (simp add: links_def clean_links_def)
  ultimately show ?thesis
    using on_cpu_first_spec [of "leaf_tasks ?m"] by (fastforce simp: sort_tasks_spec)
qed

theorem plan_tasks_spec_witness:
  "\<exists>task next t. plan_tasks (sample_environ V313 two_coros) default_config (a_thread 9) (start_threads 64)
       = Some (Inr ([task], next), t) \<and> tk_origin task = 20480 \<and> tk_on_cpu task \<and> next task = None"
proof -
  let ?E = "sample_environ V313 two_coros"
  let ?task = "TaskInfo 20480 9 True (GenInfo 8192 8264 (Some (GenInfo 16384 16456 None True)) True) 24576 None"
  have "string_table (start_threads 64) 24576 = None"
    by (simp add: StringTable_new_def INVALID_def UNKNOWN_def)
  from two_coros_tasks [OF this] obtain t where all: "get_all_tasks V313 two_coros [] (\<lambda>xs. xs)
      \<lparr>asyncio_current_tasks = 0, asyncio_scheduled_tasks = 12288, asyncio_eager_tasks = 0\<rparr> 9 0 0 (start_threads 64)
      = Some (Inr [TaskInfo 20480 9 True (GenInfo 8192 8264 (Some (GenInfo 16384 16456 None True)) True) 24576 None],
             0, 0, t)"
    by blast
  have no_links: "task_link_map t = []"
    using get_all_tasks_sound [OF all] string_step_frames(1) [of "start_threads 64" t]
      frame_step_greenlets(1) [of "start_threads 64" t] more_threads(4) [of t "start_threads 64"]
    by (simp add: greenlet_step_def)
  have all': "get_all_tasks (ev_version ?E) (ev_remote ?E) (ev_local_stack ?E) (ev_hash_order ?E) (asyncio (start_threads 64))
      (th_asyncio_loop (a_thread 9)) 0 0 (start_threads 64) = Some (Inr [?task], 0, 0, t)"
    using all by (simp add: a_thread_def)
  from plan_tasks_spec [OF all', of default_config] obtain leaves "next" links where
    "plan_tasks ?E default_config (a_thread 9) (start_threads 64) = Some (Inr (leaves, next),
       t\<lparr>task_link_map := links, previous_task_objects := tk_origin ` set [?task]\<rparr>)"
    and leaves: "mset leaves = mset (filter (is_leaf (cpu default_config \<and> ignore_non_running_threads default_config)
      (snd ` set links)) [?task])"
    and n: "\<And>l. next l = (case List.find (waits_for (tk_origin l)) [?task] of Some u \<Rightarrow> Some u
      | None \<Rightarrow> Option.bind (map_of links (tk_origin l)) (\<lambda>p. List.find (\<lambda>u. tk_origin u = p) [?task]))"
    and links: "\<And>child parent. (child, parent) \<in> set links \<longleftrightarrow> (child, parent) \<in> set (task_link_map t)
          \<and> (child \<in> tk_origin ` set [?task] \<or> child \<notin> previous_task_objects t)"
    by blast
  moreover have "links = []"
    using links no_links by (cases links) auto
  moreover from this have "leaves = [?task]"
    using leaves by (simp add: is_leaf_def default_config_def)
  ultimately show ?thesis
    by (intro exI [of _ ?task] exI [of _ "next"] exI) (auto simp: waits_for_def)
qed

end
