(* ===== verification/Sampling.thy ===== *)
theory Sampling
  imports Threads
begin

text \<open>
  The rest of \<open>echion/threads.h\<close>, and the handler of \<open>echion/signals.h\<close>: unwinding a thread, sampling
  it, which renders the stacks, and the threads of an interpreter.
\<close>

section \<open>Unwinding a thread\<close>

text \<open>
  \<open>sigprof_handler\<close> runs in the thread that is sampled, and releases the lock the sampler
  waits for. Where the signal does not arrive nobody releases it.
\<close>

definition sigprof_handler ::
  "environ \<Rightarrow> config \<Rightarrow> py_tstate \<Rightarrow> 'a threads_state_scheme \<Rightarrow> 'a threads_state_scheme option" where
  "sigprof_handler E C tstate s =
     do { (stack, s) \<leftarrow> unwind_native_stack (ev_demangle E) (max_frames C) (ev_cursors E (ts_thread_id tstate)) s;
          (stack, s) \<leftarrow> unwind_python_stack (ev_version E) (ev_remote E) (ev_local_stack E) (max_frames C) tstate
                            (s\<lparr>native_stack := stack\<rparr>);
          Some (s\<lparr>python_stack := stack\<rparr>) }"

definition unwind ::
  "environ \<Rightarrow> config \<Rightarrow> py_tstate \<Rightarrow> thread_info \<Rightarrow> 'a threads_state_scheme \<Rightarrow> 'a threads_state_scheme option" where
  "unwind E C tstate th s =
     (if native C
      then (if ev_signalled E (ts_thread_id tstate) then sigprof_handler E C tstate s else None)
      else do { (stack, s) \<leftarrow> unwind_python_stack (ev_version E) (ev_remote E) (ev_local_stack E)
                                 (max_frames C) tstate s;
                let s = s\<lparr>python_stack := stack\<rparr>;
                s \<leftarrow> (if th_asyncio_loop th \<noteq> 0 then map_option snd (unwind_tasks E C th s) else Some s);
                unwind_greenlets (ev_version E) (ev_remote E) (ev_local_stack E) (max_frames C)
                  (cpu C \<and> ignore_non_running_threads C) tstate (th_native_id th) s })"

section \<open>Sampling a thread\<close>

text \<open>Rendering one stack, merged with the native one in native mode.\<close>

definition sample_stack ::
  "environ \<Rightarrow> config \<Rightarrow> i64 \<Rightarrow> string \<Rightarrow> i64 \<Rightarrow> frame_stack \<Rightarrow> 'a threads_state_scheme
     \<Rightarrow> (unit result \<times> 'a threads_state_scheme) option" where
  "sample_stack E C iid name delta stack s =
     (let s = emit (R_render_stack_begin (ev_pid E) iid name) s
      in case (if native C
               then map_option (\<lambda>(r, out, err). (r, out, s\<lparr>interleaved_stack := out, cerr := cerr s @ err\<rparr>))
                      (interleave_stacks (ev_version E) (native_stack s) stack s)
               else Some (Inr (), stack, s)) of
           None \<Rightarrow> None
         | Some (Inl _, out, s) \<Rightarrow> Some (Inl ThreadInfoError, s)
         | Some (Inr _, out, s) \<Rightarrow>
             map_option (\<lambda>s. (Inr (), emit (R_render_stack_end Time delta) s))
               (stack_render (ev_version E) out s))"

text \<open>The two loops over the stacks of tasks and of greenlets.\<close>

fun sample_infos ::
  "environ \<Rightarrow> config \<Rightarrow> i64 \<Rightarrow> string \<Rightarrow> i64 \<Rightarrow> stack_info list \<Rightarrow> 'a threads_state_scheme
     \<Rightarrow> (unit result \<times> 'a threads_state_scheme) option" where
  "sample_infos E C iid name delta [] s = Some (Inr (), s)"
| "sample_infos E C iid name delta (i # is) s =
     (case string_lookup (si_task_name i) s of
        Inl _ \<Rightarrow> Some (Inl ThreadInfoError, s)
      | Inr str \<Rightarrow>
          (case sample_stack E C iid name delta (si_stack i) (emit (R_render_task_begin str (si_on_cpu i)) s) of
             None \<Rightarrow> None
           | Some (Inl e, s) \<Rightarrow> Some (Inl e, s)
           | Some (Inr _, s) \<Rightarrow> sample_infos E C iid name delta is s))"

definition sample_stacks ::
  "environ \<Rightarrow> config \<Rightarrow> i64 \<Rightarrow> string \<Rightarrow> i64 \<Rightarrow> 'a threads_state_scheme
     \<Rightarrow> (unit result \<times> 'a threads_state_scheme) option" where
  "sample_stacks E C iid name delta s =
     (if current_tasks s \<noteq> []
      then (case sample_infos E C iid name delta (current_tasks s) s of
              None \<Rightarrow> None
            | Some (Inl e, s) \<Rightarrow> Some (Inl e, s)
            | Some (Inr _, s) \<Rightarrow> Some (Inr (), s\<lparr>current_tasks := []\<rparr>))
      else if current_greenlets s \<noteq> []
      then (case sample_infos E C iid name delta (current_greenlets s) s of
              None \<Rightarrow> None
            | Some (Inl e, s) \<Rightarrow> Some (Inl e, s)
            | Some (Inr _, s) \<Rightarrow> Some (Inr (), s\<lparr>current_greenlets := []\<rparr>))
      else sample_stack E C iid name delta (python_stack s) s)"

definition sample ::
  "environ \<Rightarrow> config \<Rightarrow> i64 \<Rightarrow> py_tstate \<Rightarrow> i64 \<Rightarrow> thread_info \<Rightarrow> 'a threads_state_scheme
     \<Rightarrow> (unit result \<times> thread_info \<times> 'a threads_state_scheme) option" where
  "sample E C iid tstate delta th s =
     (let s = emit (R_render_thread_begin (th_name th) delta (th_id th) (th_native_id th)) s;
          go = (\<lambda>th s. case unwind E C tstate th s of
                  None \<Rightarrow> None
                | Some s \<Rightarrow> map_option (\<lambda>(r, s). (r, th, s)) (sample_stacks E C iid (th_name th) delta s))
      in if cpu C
         then (case ev_clock E (th_clock th) of
                 (reading, ts1, ts2) \<Rightarrow>
                   (case update_cpu_time reading th of
                      (Inl _, th) \<Rightarrow> Some (Inl CpuTimeError, th, s)
                    | (Inr _, th') \<Rightarrow>
                        (let running = is_running ts1 ts2
                         in if \<not> running \<and> ignore_non_running_threads C then Some (Inr (), th', s)
                            else go th' (emit (R_render_cpu_time
                                   (if running then th_cpu_time th' - th_cpu_time th else 0)) s))))
         else go th s)"

section \<open>The threads of an interpreter\<close>

text \<open>
  What \<open>for_each_thread\<close> does for a thread state it has read: a thread that is not tracked is
  taken for the main thread unless there is one, then the callback runs on what is known of
  the thread. The third argument is what a new object's \<open>cpu_time\<close> starts as.
\<close>

type_synonym 's thread_callback = "py_tstate \<Rightarrow> thread_info \<Rightarrow> 's \<Rightarrow> (thread_info \<times> 's) option"

definition ensure_thread ::
  "environ \<Rightarrow> i64 \<Rightarrow> py_tstate \<Rightarrow> 'a threads_state_scheme \<Rightarrow> (thread_info \<times> 'a threads_state_scheme) option" where
  "ensure_thread E garbage tstate s =
     (case map_of (thread_info_map s) (ts_thread_id tstate) of
        Some th \<Rightarrow> Some (th, s)
      | None \<Rightarrow>
          if \<exists>th \<in> snd ` set (thread_info_map s). th_name th = ''MainThread'' then None
          else (case threadinfo_create E garbage (ts_thread_id tstate)
                       (if V311 \<le> ev_version E then ts_native_thread_id tstate else ev_pid E) ''MainThread'' of
                  Inl _ \<Rightarrow> None
                | Inr th \<Rightarrow> Some (th, s\<lparr>thread_info_map := thread_info_map s @ [(ts_thread_id tstate, th)]\<rparr>)))"

definition visit_thread ::
  "environ \<Rightarrow> i64 \<Rightarrow> ('a threads_state_scheme) thread_callback \<Rightarrow> py_tstate \<Rightarrow> 'a threads_state_scheme
     \<Rightarrow> 'a threads_state_scheme option" where
  "visit_thread E garbage callback tstate s =
     (case ensure_thread E garbage tstate s of
        None \<Rightarrow> Some s
      | Some (th, s) \<Rightarrow>
          map_option (\<lambda>(th, s). s\<lparr>thread_info_map := AList.update (ts_thread_id tstate) th (thread_info_map s)\<rparr>)
            (callback tstate th s))"

text \<open>\<open>threads\<close> and \<open>seen\<close> are the two sets of the loop.\<close>

definition enqueue :: "addr set \<Rightarrow> addr \<Rightarrow> addr list \<Rightarrow> addr list" where
  "enqueue seen a threads = (if a \<noteq> NULL \<and> a \<notin> seen then List.insert a threads else threads)"

partial_function (option) thread_loop ::
  "environ \<Rightarrow> (py_tstate \<Rightarrow> 's \<Rightarrow> 's option) \<Rightarrow> addr list \<Rightarrow> addr set \<Rightarrow> 's \<Rightarrow> 's option" where
  "thread_loop E visit threads seen s =
     (case ev_hash_order E threads of
        [] \<Rightarrow> Some s
      | tstate_addr # threads \<Rightarrow>
          (let seen = insert tstate_addr seen
           in case copy_type (rd_tstate (ev_remote E)) tstate_addr of
                None \<Rightarrow> thread_loop E visit threads seen s
              | Some tstate \<Rightarrow>
                  (let threads = enqueue seen (ts_prev tstate) (enqueue seen (ts_next tstate) threads)
                   in case visit tstate s of
                        None \<Rightarrow> None
                      | Some s \<Rightarrow> thread_loop E visit threads seen s)))"

definition for_each_thread ::
  "environ \<Rightarrow> i64 \<Rightarrow> addr \<Rightarrow> ('a threads_state_scheme) thread_callback \<Rightarrow> 'a threads_state_scheme
     \<Rightarrow> 'a threads_state_scheme option" where
  "for_each_thread E garbage tstate_head callback s =
     thread_loop E (visit_thread E garbage callback) [tstate_head] {} s"

section \<open>Reading the Python stack\<close>

text \<open>What unwinding the Python stack of a thread relies on.\<close>

definition thread_readable :: "environ \<Rightarrow> py_tstate \<Rightarrow> 'a frames_state_scheme \<Rightarrow> bool" where
  "thread_readable E tstate s \<longleftrightarrow> frames_ok s \<and> 0 < cache_cap s \<and> tables_ok (ev_version E) (ev_remote E)
     \<and> (V311 \<le> ev_version E \<longrightarrow>
          (\<exists>n. chain_ends (ev_remote E) n (ts_datastack_chunk tstate))
        \<and> (\<forall>t a. update_stack_chunk (ev_version E) (ev_remote E) tstate s = Some t
             \<longrightarrow> read_iframe (ev_remote E) (stack_chunk t) a \<noteq> None))"

lemma unwind_python_stack_ready:
  assumes "thread_readable E tstate s"
  shows "\<exists>stack t. unwind_python_stack (ev_version E) (ev_remote E) stk limit tstate s = Some (stack, t)
    \<and> unwind_ready (ev_version E) (ev_remote E) t"
proof -
  obtain n where "V311 \<le> ev_version E \<Longrightarrow> chain_ends (ev_remote E) n (ts_datastack_chunk tstate)"
    using assms by (auto simp: thread_readable_def)
  from update_stack_chunk_defined [OF this] obtain t where
    t: "update_stack_chunk (ev_version E) (ev_remote E) tstate s = Some t"
    by auto
  have ready: "unwind_ready (ev_version E) (ev_remote E) t"
    using assms t update_stack_chunk_law [OF t] by (simp add: thread_readable_def unwind_ready_def)
  have "\<exists>n st u. unwind_frame (ev_version E) (ev_remote E) stk limit a [] t = Some (n, st, u)
      \<and> unwind_ready (ev_version E) (ev_remote E) u" for a
    using unwind_frame_returns [OF ready] by blast
  then obtain f where "\<And>a. \<exists>n st. unwind_frame (ev_version E) (ev_remote E) stk limit a [] t = Some (n, st, f a)
      \<and> unwind_ready (ev_version E) (ev_remote E) (f a)"
    by metis
  then show ?thesis
    using t ready by (cases "if V313 \<le> ev_version E then Some (ts_current_frame tstate)
        else if V311 \<le> ev_version E then copy_type (rd_cframe (ev_remote E)) (ts_cframe tstate)
        else Some (ts_frame tstate)") (fastforce simp: unwind_python_stack_def Let_def)+
qed


section \<open>Rendering\<close>

text \<open>What rendering a stack sends: from the outermost frame in, from 3.12 without entry frames.\<close>

definition frame_calls :: "py_version \<Rightarrow> frame_stack \<Rightarrow> 'a frames_state_scheme \<Rightarrow> rcall list" where
  "frame_calls V stack s =
     map R_render_frame (filter (\<lambda>f. \<not> (V312 \<le> V \<and> is_entry f)) (map (\<lambda>ref. the (deref ref s)) (rev stack)))"

definition stack_block :: "environ \<Rightarrow> i64 \<Rightarrow> string \<Rightarrow> i64 \<Rightarrow> frame_stack \<Rightarrow> 'a frames_state_scheme \<Rightarrow> rcall list" where
  "stack_block E iid name delta stack s =
     [R_render_stack_begin (ev_pid E) iid name] @ frame_calls (ev_version E) stack s @ [R_render_stack_end Time delta]"

definition info_block :: "environ \<Rightarrow> i64 \<Rightarrow> string \<Rightarrow> i64 \<Rightarrow> 'a frames_state_scheme \<Rightarrow> stack_info \<Rightarrow> rcall list" where
  "info_block E iid name delta s i =
     R_render_task_begin (the (string_table s (si_task_name i))) (si_on_cpu i)
       # stack_block E iid name delta (si_stack i) s"

definition sampled_calls :: "environ \<Rightarrow> i64 \<Rightarrow> string \<Rightarrow> i64 \<Rightarrow> 'a threads_state_scheme \<Rightarrow> rcall list" where
  "sampled_calls E iid name delta s =
     (if current_tasks s \<noteq> [] then concat (map (info_block E iid name delta s) (current_tasks s))
      else if current_greenlets s \<noteq> [] then concat (map (info_block E iid name delta s) (current_greenlets s))
      else stack_block E iid name delta (python_stack s) s)"

lemma render_refs_calls:
  "(\<And>ref. ref \<in> set refs \<Longrightarrow> deref ref s \<noteq> None) \<Longrightarrow>
    render_refs V (\<lambda>f cs. cs @ [R_render_frame f]) refs s cs0
      = Some (cs0 @ map R_render_frame (filter (\<lambda>f. \<not> (V312 \<le> V \<and> is_entry f)) (map (\<lambda>ref. the (deref ref s)) refs)))"
proof (induction refs arbitrary: cs0)
  case (Cons ref refs)
  obtain f where f: "deref ref s = Some f"
    using Cons.prems [of ref] by auto
  have "\<And>cs0. render_refs V (\<lambda>f cs. cs @ [R_render_frame f]) refs s cs0
      = Some (cs0 @ map R_render_frame (filter (\<lambda>f. \<not> (V312 \<le> V \<and> is_entry f)) (map (\<lambda>ref. the (deref ref s)) refs)))"
    using Cons.IH Cons.prems by (meson list.set_intros(2))
  with f show ?case
    by auto
qed simp

lemma stack_render_calls:
  "live (set stack) s \<Longrightarrow> stack_render V stack s = Some (s\<lparr>calls := calls s @ frame_calls V stack s\<rparr>)"
  using render_refs_calls [of "rev stack" s V "calls s"] by (simp add: stack_render_def frame_calls_def live_def)

text \<open>Only the call log changes, so nothing that is live dies.\<close>

lemma deref_calls [simp]: "deref ref (s\<lparr>calls := cs\<rparr>) = deref ref s"
  by (cases ref) simp_all

lemma blocks_calls [simp]:
  "frame_calls V stack (s\<lparr>calls := cs\<rparr>) = frame_calls V stack s"
  "stack_block E iid name delta stack (s\<lparr>calls := cs\<rparr>) = stack_block E iid name delta stack s"
  "info_block E iid name delta (s\<lparr>calls := cs\<rparr>) = info_block E iid name delta s"
  "live refs (s\<lparr>calls := cs\<rparr>) = live refs s" "named is (s\<lparr>calls := cs\<rparr>) = named is s"
  by (simp_all add: frame_calls_def stack_block_def info_block_def live_def named_def fun_eq_iff)

lemma sample_stack_calls:
  assumes "\<not> native C" "live (set stack) s"
  shows "sample_stack E C iid name delta stack s
    = Some (Inr (), s\<lparr>calls := calls s @ stack_block E iid name delta stack s\<rparr>)"
  using assms stack_render_calls [of stack "s\<lparr>calls := calls s @ [R_render_stack_begin (ev_pid E) iid name]\<rparr>"]
  by (simp add: sample_stack_def Let_def emit_def stack_block_def)

lemma sample_infos_calls:
  assumes "\<not> native C" "live (stacks_of is) s" "named is s"
  shows "sample_infos E C iid name delta is s
    = Some (Inr (), s\<lparr>calls := calls s @ concat (map (info_block E iid name delta s) is)\<rparr>)"
  using assms(2,3)
proof (induction "is" arbitrary: s)
  case (Cons i "is")
  obtain str where str: "string_table s (si_task_name i) = Some str"
    using Cons.prems(2) by (auto simp: named_def)
  define t where "t = s\<lparr>calls := calls s @ info_block E iid name delta s i\<rparr>"
  have "live (set (si_stack i)) (emit (R_render_task_begin str (si_on_cpu i)) s)"
    using Cons.prems(1) by (auto simp: live_def emit_def)
  from sample_stack_calls [OF assms(1) this, of E iid name delta]
  have "sample_stack E C iid name delta (si_stack i) (emit (R_render_task_begin str (si_on_cpu i)) s) = Some (Inr (), t)"
    using str by (simp add: emit_def t_def info_block_def)
  moreover have "sample_infos E C iid name delta is t
      = Some (Inr (), t\<lparr>calls := calls t @ concat (map (info_block E iid name delta t) is)\<rparr>)"
    using Cons.prems by (intro Cons.IH) (auto simp: t_def live_def named_def)
  ultimately show ?case
    using str by (simp add: string_lookup_def t_def)
qed simp

lemma sample_stacks_calls:
  assumes "\<not> native C" "live (stacks_of (current_tasks s) \<union> stacks_of (current_greenlets s) \<union> set (python_stack s)) s"
    and "named (current_tasks s) s" "named (current_greenlets s) s"
  shows "sample_stacks E C iid name delta s
    = Some (Inr (), s\<lparr>calls := calls s @ sampled_calls E iid name delta s, current_tasks := [],
        current_greenlets := (if current_tasks s \<noteq> [] then current_greenlets s else [])\<rparr>)"
proof -
  have live: "live (stacks_of (current_tasks s)) s" "live (stacks_of (current_greenlets s)) s" "live (set (python_stack s)) s"
    using assms(2) by (auto simp: live_def)
  have same: "s\<lparr>calls := cs\<rparr> = s\<lparr>calls := cs, current_tasks := current_tasks s, current_greenlets := current_greenlets s\<rparr>" for cs
    by simp
  show ?thesis
    using sample_infos_calls [OF assms(1) live(1) assms(3)] sample_infos_calls [OF assms(1) live(2) assms(4)]
      sample_stack_calls [OF assms(1) live(3)] same
    by (simp add: sample_stacks_def sampled_calls_def)
qed

text \<open>Calls that define nothing and refer to what is defined.\<close>

definition plain_call :: "addr set \<Rightarrow> rcall \<Rightarrow> bool" where
  "plain_call F c \<longleftrightarrow> sampling_call c \<and> call_ok {} F c \<and> defines_string c = {} \<and> defines_frame c = {}"

lemma plain_calls_refs_ok: "\<forall>c \<in> set cs. plain_call F c \<Longrightarrow> refs_ok S F cs"
proof (induction cs arbitrary: S)
  case (Cons c cs)
  then have "call_ok S F c"
    by (cases c) (auto simp: plain_call_def)
  with Cons show ?case
    by (simp add: plain_call_def)
qed simp

lemma frames_ok_calls:
  assumes "frames_ok s" "\<forall>c \<in> set cs. plain_call (frame_keys (calls s)) c"
  shows "frames_ok (s\<lparr>calls := calls s @ cs\<rparr>)"
proof -
  have "refs_ok presets {} (calls s @ cs)"
    using assms plain_calls_refs_ok [of cs "frame_keys (calls s)"] by (simp add: refs_ok_append frames_ok_def)
  then show ?thesis
    using assms(1) by (auto simp: frames_ok_def announced_def cache_owns_def cache_entries_def names_interned_def)
qed

lemma stack_block_plain:
  assumes "frames_ok s" "live (set stack) s" "c \<in> set (stack_block E iid name delta stack s)"
  shows "plain_call (frame_keys (calls s)) c"
proof -
  have "\<exists>f. deref ref s = Some f" if "ref \<in> set stack" for ref
    using assms(2) that by (auto simp: live_def)
  then show ?thesis
    using assms(3) live_frame_key [OF assms(1)]
    by (fastforce simp: stack_block_def frame_calls_def plain_call_def)
qed

lemma sampled_calls_plain:
  assumes "frames_ok s"
    and "live (stacks_of (current_tasks s) \<union> stacks_of (current_greenlets s) \<union> set (python_stack s)) s"
    and "c \<in> set (sampled_calls E iid name delta s)"
  shows "plain_call (frame_keys (calls s)) c"
proof -
  have info: "plain_call (frame_keys (calls s)) c"
    if "i \<in> set (current_tasks s) \<union> set (current_greenlets s)" "c \<in> set (info_block E iid name delta s i)" for i c
  proof -
    have "live (set (si_stack i)) s"
      using assms(2) that(1) by (auto simp: live_def)
    from stack_block_plain [OF assms(1) this] that(2) show ?thesis
      by (auto simp: info_block_def plain_call_def)
  qed
  have "live (set (python_stack s)) s"
    using assms(2) by (auto simp: live_def)
  from info stack_block_plain [OF assms(1) this] assms(3) show ?thesis
    by (auto simp: sampled_calls_def split: if_splits)
qed


section \<open>One sample\<close>

lemma unwind_greenlets_spec:
  assumes "unwind_ready V R s" "greenlets_named s" "greenlets_readable V R tstate s"
    and "held refs n s" "n + length (greenlet_info_map s) * (limit + 513) \<le> cache_cap s"
  shows "\<exists>s' is refs' n'. unwind_greenlets V R stk limit skip_idle tstate native_id s = Some s'
    \<and> current_greenlets s' = current_greenlets s @ is \<and> named is s'
    \<and> (map_of (greenlet_thread_map s) native_id = None \<longrightarrow> is = [])
    \<and> held refs' n' s' \<and> set refs \<union> stacks_of is \<subseteq> set refs' \<and> greenlet_step s s'"
proof (cases "map_of (greenlet_thread_map s) native_id = None")
  case True
  then show ?thesis
    using assms(4) by (auto simp: unwind_greenlets_def named_def)
next
  case False
  obtain s' where run: "unwind_leaves V R stk limit tstate skip_idle (snd ` set (greenlet_parent_map s))
      (greenlet_info_map s) s = Some s'"
    using unwind_leaves_returns [OF assms(1,2) order_refl assms(3)] by blast
  from unwind_leaves_held [OF run assms(4,5,2) order_refl] obtain "is" refs' m where
    new: "current_greenlets s' = current_greenlets s @ is"
      "map info_head is = map (\<lambda>(i, g). (gr_name g, gr_frame g = addr_Py_None R))
         (sampled_greenlets R skip_idle (snd ` set (greenlet_parent_map s)) (greenlet_info_map s))"
      "held refs' m s'" "set refs \<union> stacks_of is \<subseteq> set refs'" "greenlet_step s s'"
    by blast
  have "named is s'"
    unfolding named_def
  proof
    fix i assume "i \<in> set is"
    then have "info_head i \<in> set (map info_head is)"
      by simp
    then obtain k g where "(k, g) \<in> set (greenlet_info_map s)" "si_task_name i = gr_name g"
      unfolding new(2) by (auto simp: sampled_greenlets_def)
    then show "string_table s' (si_task_name i) \<noteq> None"
      using greenlets_named_step [OF assms(2) new(5)] new(5)
      by (force simp: greenlets_named_def greenlet_step_def)
  qed
  then show ?thesis
    using False run new by (auto simp: unwind_greenlets_def)
qed

text \<open>
  What a sample relies on, outside native mode: \<open>m\<close> bounds the leaf tasks and \<open>k\<close> the chain
  of each, whatever strings have been interned meanwhile.
\<close>

definition same_tasks :: "'a threads_state_scheme \<Rightarrow> 'a threads_state_scheme \<Rightarrow> bool" where
  "same_tasks s t \<longleftrightarrow> thread_step s t \<and> task_link_map t = task_link_map s
     \<and> previous_task_objects t = previous_task_objects s \<and> current_tasks t = current_tasks s
     \<and> current_greenlets t = current_greenlets s"

definition sample_ready ::
  "environ \<Rightarrow> config \<Rightarrow> py_tstate \<Rightarrow> thread_info \<Rightarrow> nat \<Rightarrow> nat \<Rightarrow> 'a threads_state_scheme \<Rightarrow> bool" where
  "sample_ready E C tstate th k m s \<longleftrightarrow> \<not> native C
     \<and> thread_readable E tstate s
     \<and> (\<forall>xs. mset (ev_hash_order E xs) = mset xs)
     \<and> (th_asyncio_loop th \<noteq> 0 \<longrightarrow> (\<forall>t. same_tasks s t \<longrightarrow> tasks_bounded E C th k m t))
     \<and> greenlets_named s \<and> greenlets_readable (ev_version E) (ev_remote E) tstate s
     \<and> max_frames C + m * (k * task_room (max_frames C))
         + length (greenlet_info_map s) * (max_frames C + 513) \<le> cache_cap s
     \<and> current_tasks s = [] \<and> current_greenlets s = []"

lemma thread_readable_calls [simp]:
  "frames_ok (s\<lparr>calls := cs\<rparr>) \<Longrightarrow> thread_readable E tstate s \<Longrightarrow> thread_readable E tstate (s\<lparr>calls := cs\<rparr>)"
  by (auto simp: thread_readable_def update_stack_chunk_def cache_cap_def)

lemma thread_step_interned: "thread_step s t \<Longrightarrow> string_table s k \<noteq> None \<Longrightarrow> string_table t k \<noteq> None"
  by (auto simp: thread_step_def dest: extends_table)

lemma greenlets_kept:
  assumes "thread_step s t"
  shows "greenlets_named s \<Longrightarrow> greenlets_named t"
    "greenlets_readable V R tstate t = greenlets_readable V R tstate s"
proof -
  have "greenlet_info_map t = greenlet_info_map s"
    using assms by (simp add: thread_step_def)
  then show "greenlets_named s \<Longrightarrow> greenlets_named t"
    "greenlets_readable V R tstate t = greenlets_readable V R tstate s"
    using thread_step_interned [OF assms] by (simp_all add: greenlets_named_def greenlets_readable_def)
qed

lemma named_step: "named is s \<Longrightarrow> thread_step s t \<Longrightarrow> named is t"
  using thread_step_interned by (fastforce simp: named_def)

text \<open>The tasks of a thread that has a loop, after its Python stack \<open>st\<close>.\<close>

lemma unwind_thread_tasks:
  assumes ready: "unwind_ready (ev_version E) (ev_remote E) t" "held st (max_frames C) t" "python_stack t = st"
      "current_tasks t = []" "current_greenlets t = []"
    and order: "\<And>xs. set (ev_hash_order E xs) = set xs"
    and bounded: "th_asyncio_loop th \<noteq> 0 \<longrightarrow> tasks_bounded E C th k m t"
    and room: "max_frames C + m * (k * task_room (max_frames C)) \<le> cache_cap t"
  shows "\<exists>u is refs n. (if th_asyncio_loop th \<noteq> 0 then map_option snd (unwind_tasks E C th t) else Some t) = Some u
    \<and> unwind_ready (ev_version E) (ev_remote E) u \<and> thread_step t u \<and> python_stack u = st \<and> current_greenlets u = []
    \<and> current_tasks u = is \<and> named is u \<and> held refs n u \<and> set st \<union> stacks_of is \<subseteq> set refs
    \<and> n \<le> max_frames C + m * (k * task_room (max_frames C)) \<and> (th_asyncio_loop th = 0 \<longrightarrow> is = [])"
proof (cases "th_asyncio_loop th = 0")
  case True
  then show ?thesis
    using ready by (intro exI [of _ t] exI [of _ "[]"] exI [of _ st] exI [of _ "max_frames C"]) (simp add: named_def)
next
  case False
  have sub: "set (python_stack t) \<union> stacks_of (current_tasks t) \<subseteq> set st"
    using ready by simp
  from unwind_tasks_spec [OF ready(1) order bounded [rule_format, OF False] ready(2) sub room] obtain r u "is" refs n where
    "unwind_tasks E C th t = Some (r, u)" "unwind_ready (ev_version E) (ev_remote E) u"
    "thread_step t u" "python_stack u = python_stack t" "current_greenlets u = current_greenlets t"
    "current_tasks u = current_tasks t @ is" "named is u" "held refs n u"
    "set st \<union> stacks_of (current_tasks u) \<subseteq> set refs" "n \<le> max_frames C + m * (k * task_room (max_frames C))"
    by (elim exE conjE) (rule that)
  then show ?thesis
    using False ready by (intro exI [of _ u] exI [of _ "is"] exI [of _ refs] exI [of _ n]) simp
qed

lemma unwind_spec:
  assumes ready: "sample_ready E C tstate th k m s"
  shows "\<exists>u. unwind E C tstate th s = Some u \<and> frames_ok u \<and> thread_step s u
    \<and> live (stacks_of (current_tasks u) \<union> stacks_of (current_greenlets u) \<union> set (python_stack u)) u
    \<and> named (current_tasks u) u \<and> named (current_greenlets u) u
    \<and> (th_asyncio_loop th = 0 \<longrightarrow> current_tasks u = [])
    \<and> (map_of (greenlet_thread_map s) (th_native_id th) = None \<longrightarrow> current_greenlets u = [])"
proof -
  let ?V = "ev_version E" and ?R = "ev_remote E" and ?f = "max_frames C"
  let ?G = "length (greenlet_info_map s) * (?f + 513)" and ?T = "m * (k * task_room ?f)"
  have room: "?f + ?T + ?G \<le> cache_cap s" and order: "\<And>xs. set (ev_hash_order E xs) = set xs"
    and empty: "current_tasks s = []" "current_greenlets s = []" and nat: "\<not> native C"
    using ready mset_eq_setD by (auto simp: sample_ready_def)
  obtain st t where py: "unwind_python_stack ?V ?R (ev_local_stack E) ?f tstate s = Some (st, t)" "unwind_ready ?V ?R t"
    using ready unwind_python_stack_ready by (fastforce simp: sample_ready_def)
  have "stack_ok [] s"
    using ready by (simp add: sample_ready_def thread_readable_def)
  from unwind_python_stack_ok [OF py(1) this] room have py_ok: "held st (length st) t" "length st \<le> ?f"
    "cache_cap t = cache_cap s" "extends s t" "frames_state.more t = frames_state.more s"
    by (simp_all add: held_stack_ok)
  define t1 where "t1 = t\<lparr>python_stack := st\<rparr>"
  note gl = more_greenlets [OF py_ok(5)]
  note tl = more_threads [OF gl(5)]
  have same: "same_tasks s t1"
    using py_ok(3,4) gl tl by (simp add: t1_def same_tasks_def thread_step_def)
  have t1: "unwind_ready ?V ?R t1" "held st ?f t1" "python_stack t1 = st" "current_tasks t1 = []" "current_greenlets t1 = []"
    using py(2) py_ok(1,2) empty gl tl held_subset [OF py_ok(1) order_refl] by (simp_all add: t1_def)
  have bounded: "th_asyncio_loop th \<noteq> 0 \<longrightarrow> tasks_bounded E C th k m t1" and cap: "?f + ?T \<le> cache_cap t1"
    using ready same room by (simp_all add: sample_ready_def same_tasks_def thread_step_def)
  from unwind_thread_tasks [OF t1 order bounded cap] obtain u "is" refs n where tasks:
    "(if th_asyncio_loop th \<noteq> 0 then map_option snd (unwind_tasks E C th t1) else Some t1) = Some u"
    "unwind_ready ?V ?R u" "thread_step t1 u" "python_stack u = st" "current_greenlets u = []"
    "current_tasks u = is" "named is u" "held refs n u" "set st \<union> stacks_of is \<subseteq> set refs" "n \<le> ?f + ?T"
    "th_asyncio_loop th = 0 \<longrightarrow> is = []"
    by (elim exE conjE) (rule that)
  have step: "thread_step s u"
    using same tasks(3) thread_step_trans by (auto simp: same_tasks_def)
  note kept = greenlets_kept [OF step]
  have g: "greenlets_named u" "greenlets_readable ?V ?R tstate u"
    "n + length (greenlet_info_map u) * (?f + 513) \<le> cache_cap u" "greenlet_thread_map u = greenlet_thread_map s"
    using ready kept tasks(10) room step by (auto simp: sample_ready_def thread_step_def)
  from unwind_greenlets_spec [OF tasks(2) g(1,2) tasks(8) g(3), of "ev_local_stack E"
      "cpu C \<and> ignore_non_running_threads C" "th_native_id th"] obtain v js refs' n' where greenlets:
    "unwind_greenlets ?V ?R (ev_local_stack E) ?f (cpu C \<and> ignore_non_running_threads C) tstate (th_native_id th) u = Some v"
    "current_greenlets v = js" "named js v" "map_of (greenlet_thread_map u) (th_native_id th) = None \<longrightarrow> js = []"
    "held refs' n' v" "set refs \<union> stacks_of js \<subseteq> set refs'" "greenlet_step u v"
    unfolding tasks(5) append_Nil by (elim exE conjE) (rule that)
  note more = more_threads [of v u]
  have last: "thread_step u v" "current_tasks v = is" "python_stack v = st"
    using greenlet_step_thread [OF greenlets(7)] more greenlets(7) tasks(4,6) by (simp_all add: greenlet_step_def)
  have "unwind E C tstate th s = Some v"
    using nat py(1) tasks(1) greenlets(1) by (simp add: unwind_def t1_def [symmetric])
  moreover have "live (stacks_of is \<union> stacks_of js \<union> set st) v"
    using greenlets(6) tasks(9) by (intro held_live_set [OF greenlets(5)]) blast
  moreover have "frames_ok v" "thread_step s v" "named is v"
    using greenlets(5) thread_step_trans [OF step last(1)] named_step [OF tasks(7) last(1)] by (simp_all add: held_def)
  ultimately show ?thesis
    using last(2,3) greenlets(2-4) tasks(11) g(4) by (intro exI [of _ v]) simp
qed


lemma sample_ready_emit:
  assumes "sample_ready E C tstate th k m s" "plain_call {} c"
  shows "sample_ready E C tstate th k m (emit c s)"
proof -
  have "plain_call (frame_keys (calls s)) c"
    using assms(2) by (cases c) (auto simp: plain_call_def)
  then have ok: "frames_ok (emit c s)"
    using assms(1) frames_ok_calls [of s "[c]"] by (simp add: sample_ready_def thread_readable_def emit_def)
  have "sampling_call c"
    using assms(2) by (simp add: plain_call_def)
  then have "thread_step s (emit c s)"
    by (simp add: thread_step_def cache_cap_def) (simp add: emit_def)
  moreover have "same_tasks s t" if "same_tasks (emit c s) t" for t
    using that thread_step_trans [OF calculation] by (simp add: same_tasks_def) (simp add: emit_def)
  ultimately show ?thesis
    using assms(1) ok greenlets_kept [of s "emit c s"]
    by (auto simp: sample_ready_def emit_def thread_step_def)
qed

lemma update_cpu_time_keeps:
  assumes "update_cpu_time reading th = (r, th')"
  shows "th_asyncio_loop th' = th_asyncio_loop th" "th_native_id th' = th_native_id th" "th_name th' = th_name th"
    "r = (if reading = Clock_failed then Inl CpuTimeError else Inr ())"
  using assms by (auto simp: update_cpu_time_def split: clock_reading.splits)

text \<open>Unwinding, then rendering.\<close>

lemma sample_go:
  assumes "sample_ready E C tstate th k m s"
  shows "\<exists>u s'. unwind E C tstate th s = Some u \<and> sample_stacks E C iid name delta u = Some (Inr (), s')
    \<and> frames_ok s' \<and> thread_step s s' \<and> current_tasks s' = []
    \<and> (th_asyncio_loop th = 0 \<or> map_of (greenlet_thread_map s) (th_native_id th) = None \<longrightarrow> current_greenlets s' = [])
    \<and> calls s' = calls u @ sampled_calls E iid name delta u"
proof -
  from unwind_spec [OF assms] obtain u where u: "unwind E C tstate th s = Some u" "frames_ok u" "thread_step s u"
    "live (stacks_of (current_tasks u) \<union> stacks_of (current_greenlets u) \<union> set (python_stack u)) u"
    "named (current_tasks u) u" "named (current_greenlets u) u" "th_asyncio_loop th = 0 \<longrightarrow> current_tasks u = []"
    "map_of (greenlet_thread_map s) (th_native_id th) = None \<longrightarrow> current_greenlets u = []"
    by (elim exE conjE) (rule that)
  have nat: "\<not> native C"
    using assms by (simp add: sample_ready_def)
  define s' where "s' = u\<lparr>calls := calls u @ sampled_calls E iid name delta u, current_tasks := [],
      current_greenlets := (if current_tasks u \<noteq> [] then current_greenlets u else [])\<rparr>"
  have "sample_stacks E C iid name delta u = Some (Inr (), s')"
    using sample_stacks_calls [OF nat u(4-6)] by (simp add: s'_def)
  moreover have "frames_ok s'"
    using frames_ok_calls [OF u(2)] sampled_calls_plain [OF u(2,4)] by (simp add: s'_def)
  moreover have "list_all sampling_call (sampled_calls E iid name delta u)"
    using sampled_calls_plain [OF u(2,4)] by (auto simp: list_all_iff plain_call_def)
  then have "thread_step s s'"
    using u(3) by (auto simp: s'_def thread_step_def extends_def cache_cap_def)
  ultimately show ?thesis
    using u(1,7,8) by (intro exI [of _ u] exI [of _ s']) (auto simp: s'_def)
qed

text \<open>The same with the CPU time of the thread sent first.\<close>

lemma sample_go_cpu:
  assumes ready: "sample_ready E C tstate th k m s" and upd: "update_cpu_time reading th = (r, th')"
  shows "\<exists>u s'. unwind E C tstate th' (emit (R_render_cpu_time d) s) = Some u
    \<and> sample_stacks E C iid name delta u = Some (Inr (), s')
    \<and> frames_ok s' \<and> thread_step s s' \<and> current_tasks s' = []
    \<and> (th_asyncio_loop th = 0 \<or> map_of (greenlet_thread_map s) (th_native_id th) = None \<longrightarrow> current_greenlets s' = [])
    \<and> calls s' = calls u @ sampled_calls E iid name delta u"
proof -
  note keeps = update_cpu_time_keeps [OF upd]
  have "sample_ready E C tstate th' k m (emit (R_render_cpu_time d) s)"
    using sample_ready_emit [OF ready, of "R_render_cpu_time d"] keeps(1,2)
    by (simp add: plain_call_def sample_ready_def tasks_bounded_def plan_tasks_def)
  from sample_go [OF this, of iid name delta] obtain u s' where
    run: "unwind E C tstate th' (emit (R_render_cpu_time d) s) = Some u"
      "sample_stacks E C iid name delta u = Some (Inr (), s')"
    and rest: "frames_ok s'" "thread_step (emit (R_render_cpu_time d) s) s'" "current_tasks s' = []"
      "th_asyncio_loop th = 0 \<or> map_of (greenlet_thread_map s) (th_native_id th) = None \<longrightarrow> current_greenlets s' = []"
      "calls s' = calls u @ sampled_calls E iid name delta u"
    unfolding keeps(1,2) by (auto simp: emit_def)
  have "thread_step s (emit (R_render_cpu_time d) s)"
    by (simp add: thread_step_def cache_cap_def) (simp add: emit_def)
  then have "thread_step s s'"
    using rest(2) thread_step_trans by blast
  with run rest show ?thesis
    by (intro exI [of _ u] exI [of _ s']) simp
qed



section \<open>Visiting the threads\<close>

text \<open>The thread states that can be reached from the head of the list, reading memory.\<close>

inductive linked :: "remote \<Rightarrow> addr \<Rightarrow> addr \<Rightarrow> bool" for R head where
  head: "linked R head head"
| follow: "linked R head a \<Longrightarrow> copy_type (rd_tstate R) a = Some t \<Longrightarrow> b \<in> {ts_next t, ts_prev t} \<Longrightarrow> b \<noteq> NULL
    \<Longrightarrow> linked R head b"

fun visit_all :: "remote \<Rightarrow> (py_tstate \<Rightarrow> 's \<Rightarrow> 's option) \<Rightarrow> addr list \<Rightarrow> 's \<Rightarrow> 's option" where
  "visit_all R visit [] s = Some s"
| "visit_all R visit (a # as) s =
     (case copy_type (rd_tstate R) a of
        None \<Rightarrow> visit_all R visit as s
      | Some t \<Rightarrow> (case visit t s of None \<Rightarrow> None | Some s \<Rightarrow> visit_all R visit as s))"

definition neighbours :: "remote \<Rightarrow> addr \<Rightarrow> addr set" where
  "neighbours R a =
     (case copy_type (rd_tstate R) a of None \<Rightarrow> {} | Some t \<Rightarrow> {ts_next t, ts_prev t} - {NULL})"

lemma linked_neighbours: "linked R head a \<Longrightarrow> b \<in> neighbours R a \<Longrightarrow> linked R head b"
  by (auto simp: neighbours_def split: option.splits intro: linked.follow)

lemma linked_closed:
  assumes "linked R head a" "head \<in> S" "\<And>a b. a \<in> S \<Longrightarrow> b \<in> neighbours R a \<Longrightarrow> b \<in> S"
  shows "a \<in> S"
  using assms by (induction rule: linked.induct) (force simp: neighbours_def)+

lemma linked_same:
  assumes "rd_tstate R = rd_tstate R'"
  shows "linked R head a \<longleftrightarrow> linked R' head a"
proof -
  have "linked R' head a" if "linked R head a" "rd_tstate R = rd_tstate R'" for R R'
    using that by (induction rule: linked.induct) (auto intro: linked.head linked.follow)
  with assms show ?thesis
    by metis
qed

text \<open>One round of the loop.\<close>

lemma thread_loop_round:
  assumes "ev_hash_order E threads = a # rest"
  shows "\<exists>threads'. set threads' = set rest \<union> (neighbours (ev_remote E) a - insert a seen)
    \<and> (distinct rest \<longrightarrow> distinct threads')
    \<and> (\<forall>s. thread_loop E visit threads seen s =
        (case copy_type (rd_tstate (ev_remote E)) a of
           None \<Rightarrow> thread_loop E visit threads' (insert a seen) s
         | Some t \<Rightarrow> (case visit t s of None \<Rightarrow> None | Some s \<Rightarrow> thread_loop E visit threads' (insert a seen) s)))"
proof (cases "copy_type (rd_tstate (ev_remote E)) a")
  case None
  then show ?thesis
    using assms by (intro exI [of _ rest]) (simp add: thread_loop.simps [of E visit threads] neighbours_def)
next
  case (Some t)
  define new where "new = enqueue (insert a seen) (ts_prev t) (enqueue (insert a seen) (ts_next t) rest)"
  have "\<forall>s. thread_loop E visit threads seen s = (case visit t s of None \<Rightarrow> None
      | Some s \<Rightarrow> thread_loop E visit new (insert a seen) s)"
    using assms Some unfolding new_def by (simp add: thread_loop.simps [of E visit threads] Let_def)
  moreover have "set new = set rest \<union> (neighbours (ev_remote E) a - insert a seen)"
    using Some by (auto simp: new_def enqueue_def neighbours_def)
  moreover have "distinct rest \<longrightarrow> distinct new"
    by (simp add: new_def enqueue_def distinct_insert)
  ultimately show ?thesis
    using Some by (intro exI [of _ new]) simp
qed

lemma thread_loop_visits:
  assumes order: "\<And>xs. mset (ev_hash_order E xs) = mset xs"
    and "distinct threads" "set threads \<inter> seen = {}" "head \<in> set threads \<union> seen"
    and "\<And>a. a \<in> set threads \<union> seen \<Longrightarrow> linked (ev_remote E) head a"
    and "\<And>a. a \<in> seen \<Longrightarrow> neighbours (ev_remote E) a \<subseteq> seen \<union> set threads"
  shows "\<exists>xs. distinct xs \<and> set xs = {a. linked (ev_remote E) head a} - seen
    \<and> (\<forall>s. thread_loop E visit threads seen s = visit_all (ev_remote E) visit xs s)"
  using assms(2-)
proof (induction "card (- seen)" arbitrary: threads seen rule: less_induct)
  case less
  show ?case
  proof (cases "ev_hash_order E threads")
    case Nil
    then have "threads = []"
      using order [of threads] by simp
    then have "head \<in> seen" "\<And>a b. a \<in> seen \<Longrightarrow> b \<in> neighbours (ev_remote E) a \<Longrightarrow> b \<in> seen"
      using less.prems(3,5) by auto
    then have "{a. linked (ev_remote E) head a} - seen = {}"
      using linked_closed [of "ev_remote E" head _ seen] by blast
    then show ?thesis
      using Nil by (intro exI [of _ "[]"]) (auto simp: thread_loop.simps [of E visit threads])
  next
    case (Cons a rest)
    have ms: "mset threads = add_mset a (mset rest)"
      using order [of threads] Cons by simp
    then have rest: "set threads = insert a (set rest)" "distinct rest" "a \<notin> set rest"
      using less.prems(1) mset_eq_setD [of threads "a # rest"] mset_eq_imp_distinct_iff [of threads "a # rest"] by auto
    then have a: "a \<notin> seen" "linked (ev_remote E) head a"
      using less.prems(2,4) by auto
    from thread_loop_round [OF Cons, of seen visit] obtain threads' where threads':
      "set threads' = set rest \<union> (neighbours (ev_remote E) a - insert a seen)" "distinct threads'"
      and round: "\<And>s. thread_loop E visit threads seen s =
        (case copy_type (rd_tstate (ev_remote E)) a of
           None \<Rightarrow> thread_loop E visit threads' (insert a seen) s
         | Some t \<Rightarrow> (case visit t s of None \<Rightarrow> None | Some s \<Rightarrow> thread_loop E visit threads' (insert a seen) s))"
      using rest(2) by auto
    have "card (- insert a seen) < card (- seen)"
      using a(1) by (intro psubset_card_mono) auto
    moreover have "set threads' \<inter> insert a seen = {}"
      using threads'(1) rest less.prems(2) by auto
    moreover have "head \<in> set threads' \<union> insert a seen"
      using less.prems(3) rest(1) threads'(1) by auto
    moreover have "linked (ev_remote E) head b" if "b \<in> set threads' \<union> insert a seen" for b
      using that threads'(1) rest(1) less.prems(4) a(2) linked_neighbours [OF a(2)] by auto
    moreover have "neighbours (ev_remote E) b \<subseteq> insert a seen \<union> set threads'" if "b \<in> insert a seen" for b
      using that threads'(1) rest(1) less.prems(5) by auto
    ultimately obtain xs where xs: "distinct xs" "set xs = {a. linked (ev_remote E) head a} - insert a seen"
      "\<And>s. thread_loop E visit threads' (insert a seen) s = visit_all (ev_remote E) visit xs s"
      using less.hyps [of "insert a seen" threads'] threads'(2) by metis
    have "set (a # xs) = {a. linked (ev_remote E) head a} - seen"
      using xs(2) a by auto
    then show ?thesis
      using xs(1,2) round by (intro exI [of _ "a # xs"]) (simp add: xs(3) cong: option.case_cong)
  qed
qed

lemma visit_all_total:
  assumes "\<And>t s. visit t s \<noteq> None"
  shows "visit_all R visit as s \<noteq> None"
  by (induction "as" arbitrary: s) (use assms in \<open>simp_all del: not_None_eq split: option.split\<close>)


section \<open>Examples\<close>



text \<open>\<open>for_each_thread\<close> returns if the callback does, and visits every thread state that can
  be reached from the head of the list through states that can be read, each exactly once,
  in some order that does not depend on what the callback does; so circles and states that
  vanish do not matter.\<close>

theorem for_each_thread_visits:
  assumes "\<And>xs. mset (ev_hash_order E xs) = mset xs"
  shows "\<exists>xs. distinct xs \<and> set xs = {a. linked (ev_remote E) head a}
    \<and> (\<forall>s. for_each_thread E garbage head callback s
           = visit_all (ev_remote E) (visit_thread E garbage callback) xs s)
    \<and> ((\<forall>t th s. callback t th s \<noteq> None) \<longrightarrow> (\<forall>s. for_each_thread E garbage head callback s \<noteq> None))"
proof -
  have "\<exists>xs. distinct xs \<and> set xs = {a. linked (ev_remote E) head a} - {}
    \<and> (\<forall>s. thread_loop E (visit_thread E garbage callback) [head] {} s
           = visit_all (ev_remote E) (visit_thread E garbage callback) xs s)"
    by (rule thread_loop_visits [OF assms]) (auto intro: linked.head)
  moreover have "visit_all (ev_remote E) (visit_thread E garbage callback) xs s \<noteq> None"
    if "\<forall>t th s. callback t th s \<noteq> None" for xs s
    by (rule visit_all_total) (use that in \<open>simp add: visit_thread_def split: option.split prod.split\<close>)
  ultimately show ?thesis
    unfolding for_each_thread_def by fastforce
qed

text \<open>Two thread states that point at each other.\<close>

definition two_threads :: remote where
  "two_threads = no_memory\<lparr>rd_tstate := (\<lambda>a. if a = 8192 then Some ((thread_at 0)\<lparr>ts_next := 16384, ts_thread_id := 1\<rparr>)
     else if a = 16384 then Some ((thread_at 0)\<lparr>ts_next := 8192, ts_prev := 24576, ts_thread_id := 2\<rparr>) else None)\<rparr>"

lemma two_threads_linked: "{a. linked two_threads 8192 a} = {8192, 16384, 24576}"
proof -
  have n: "neighbours two_threads a = (if a = 8192 then {16384} else if a = 16384 then {8192, 24576} else {})" for a
    by (auto simp: neighbours_def two_threads_def copy_type_def thread_at_def no_memory_def)
  have "linked two_threads 8192 16384" "linked two_threads 8192 24576"
    using linked_neighbours [of two_threads 8192 8192 16384] linked_neighbours [of two_threads 8192 16384 24576] linked.head
    by (simp_all add: n)
  moreover have "a \<in> {8192, 16384, 24576}" if "linked two_threads 8192 a" for a
    by (rule linked_closed [OF that, of "{8192, 16384, 24576}"]) (auto simp: n split: if_splits)
  ultimately show ?thesis
    using linked.head by auto
qed

theorem for_each_thread_visits_witness:
  "\<exists>xs. mset xs = {#8192, 16384, 24576#} \<and> for_each_thread (sample_environ V39 two_threads) 0 8192
       (\<lambda>t th s. Some (th\<lparr>th_cpu_time := 5\<rparr>, s)) (start_threads 1)
     = visit_all two_threads (visit_thread (sample_environ V39 two_threads) 0 (\<lambda>t th s. Some (th\<lparr>th_cpu_time := 5\<rparr>, s)))
         xs (start_threads 1)
     \<and> for_each_thread (sample_environ V39 two_threads) 0 8192
         (\<lambda>t th s. Some (th\<lparr>th_cpu_time := 5\<rparr>, s)) (start_threads 1) \<noteq> None"
proof -
  let ?E = "sample_environ V39 two_threads" and ?f = "\<lambda>t th (s :: threads_state). Some (th\<lparr>th_cpu_time := 5\<rparr>, s)"
  from for_each_thread_visits [of ?E 8192 0 ?f] obtain xs where
    "distinct xs" "set xs = {8192, 16384, 24576}" "for_each_thread ?E 0 8192 ?f (start_threads 1)
       = visit_all two_threads (visit_thread ?E 0 ?f) xs (start_threads 1)"
    "for_each_thread ?E 0 8192 ?f (start_threads 1) \<noteq> None"
    by (auto simp: two_threads_linked)
  moreover from this have "mset xs = {#8192, 16384, 24576#}"
    using set_eq_iff_mset_eq_distinct [of xs "[8192, 16384, 24576]"] by simp
  ultimately show ?thesis
    by blast
qed

end
