(* ===== verification/Interp.thy ===== *)
theory Interp
  imports Sampling
begin

text \<open>
  \<open>echion/interp.h\<close>: the list of interpreters, walked by copying three fields of each. The
  address of the first one is read directly and is an argument.
\<close>

record interp_info =
  ii_id :: i64
  ii_tstate_head :: addr
  ii_next :: addr

text \<open>
  Where a copy fails the loop goes on with what \<open>next\<close> held before. Memory does not change
  during the walk.
\<close>

partial_function (option) interp_loop ::
  "remote \<Rightarrow> (interp_info \<Rightarrow> 's \<Rightarrow> 's option) \<Rightarrow> addr \<Rightarrow> interp_info \<Rightarrow> 's \<Rightarrow> 's option" where
  "interp_loop R callback interp_addr info s =
     (if interp_addr = NULL then Some s
      else (case copy_type (rd_interp_id R) (interp_addr + off_interp_id R) of
              None \<Rightarrow> interp_loop R callback (ii_next info) info s
            | Some v \<Rightarrow>
                (let info = info\<lparr>ii_id := v\<rparr>
                 in case copy_type (rd_interp_threads R) (interp_addr + off_interp_threads R) of
                      None \<Rightarrow> interp_loop R callback (ii_next info) info s
                    | Some v \<Rightarrow>
                        (let info = info\<lparr>ii_tstate_head := v\<rparr>
                         in case copy_type (rd_interp_next R) (interp_addr + off_interp_next R) of
                              None \<Rightarrow> interp_loop R callback (ii_next info) info s
                            | Some v \<Rightarrow>
                                (let info = info\<lparr>ii_next := v\<rparr>
                                 in case callback info s of
                                      None \<Rightarrow> None
                                    | Some s \<Rightarrow> interp_loop R callback (ii_next info) info s)))))"

definition for_each_interp ::
  "remote \<Rightarrow> addr \<Rightarrow> (interp_info \<Rightarrow> 's \<Rightarrow> 's option) \<Rightarrow> 's \<Rightarrow> 's option" where
  "for_each_interp R head callback s = interp_loop R callback head \<lparr>ii_id = 0, ii_tstate_head = 0, ii_next = 0\<rparr> s"

section \<open>The list it walks\<close>

definition read_interp :: "remote \<Rightarrow> addr \<Rightarrow> interp_info option" where
  "read_interp R a =
     do { i \<leftarrow> copy_type (rd_interp_id R) (a + off_interp_id R);
          h \<leftarrow> copy_type (rd_interp_threads R) (a + off_interp_threads R);
          n \<leftarrow> copy_type (rd_interp_next R) (a + off_interp_next R);
          Some \<lparr>ii_id = i, ii_tstate_head = h, ii_next = n\<rparr> }"

inductive interp_chain :: "remote \<Rightarrow> addr \<Rightarrow> interp_info list \<Rightarrow> bool" for R where
  last: "interp_chain R NULL []"
| more: "a \<noteq> NULL \<Longrightarrow> read_interp R a = Some i \<Longrightarrow> interp_chain R (ii_next i) is \<Longrightarrow> interp_chain R a (i # is)"

inductive_cases interp_chainE: "interp_chain R a is"

fun visit_interps :: "(interp_info \<Rightarrow> 's \<Rightarrow> 's option) \<Rightarrow> interp_info list \<Rightarrow> 's \<Rightarrow> 's option" where
  "visit_interps callback [] s = Some s"
| "visit_interps callback (i # is) s =
     (case callback i s of None \<Rightarrow> None | Some s \<Rightarrow> visit_interps callback is s)"

lemma interp_loop_read:
  assumes "a \<noteq> NULL" "read_interp R a = Some i"
  shows "interp_loop R callback a info s
    = (case callback i s of None \<Rightarrow> None | Some s \<Rightarrow> interp_loop R callback (ii_next i) i s)"
  using assms by (cases info, subst interp_loop.simps) (auto simp: read_interp_def Let_def bind_eq_Some_iff cong: option.case_cong)

lemma interp_loop_chain:
  "interp_chain R a is \<Longrightarrow> interp_loop R callback a info s = visit_interps callback is s"
proof (induction arbitrary: info s rule: interp_chain.induct)
  case last
  then show ?case
    by (subst interp_loop.simps) simp
next
  case (more a i "is")
  then show ?case
    by (simp add: interp_loop_read cong: option.case_cong)
qed

lemma read_interp_None_cases:
  assumes "read_interp R a = None"
  obtains (id) "copy_type (rd_interp_id R) (a + off_interp_id R) = None"
    | (head) i where "copy_type (rd_interp_id R) (a + off_interp_id R) = Some i"
        "copy_type (rd_interp_threads R) (a + off_interp_threads R) = None"
    | (tail) i h where "copy_type (rd_interp_id R) (a + off_interp_id R) = Some i"
        "copy_type (rd_interp_threads R) (a + off_interp_threads R) = Some h"
        "copy_type (rd_interp_next R) (a + off_interp_next R) = None"
  using assms by (auto simp: read_interp_def bind_eq_None_conv)

text \<open>A step over an interpreter that cannot be read.\<close>

lemma interp_loop_unreadable:
  assumes "a \<noteq> NULL" "read_interp R a = None"
  shows "\<exists>info'. ii_next info' = ii_next info
    \<and> (\<forall>s. interp_loop R callback a info s = interp_loop R callback (ii_next info) info' s)"
  using assms(2)
proof (cases rule: read_interp_None_cases)
  case id
  then show ?thesis
    using assms(1) by (intro exI [of _ info]) (simp add: interp_loop.simps [of R callback a])
next
  case (head i)
  then show ?thesis
    using assms(1) by (intro exI [of _ "info\<lparr>ii_id := i\<rparr>"]) (simp add: interp_loop.simps [of R callback a])
next
  case (tail i h)
  then show ?thesis
    using assms(1) by (intro exI [of _ "info\<lparr>ii_id := i, ii_tstate_head := h\<rparr>"])
      (simp add: interp_loop.simps [of R callback a])
qed

text \<open>
  One round of the walk, whatever function \<open>loop\<close> goes on: with an interpreter that cannot be read
  it goes on from the address it already had, otherwise from the one just read.
\<close>

lemma interp_round:
  assumes run: "(if a = NULL then Some s
      else (case copy_type (rd_interp_id R) (a + off_interp_id R) of
              None \<Rightarrow> loop R callback (ii_next info) info s
            | Some v \<Rightarrow>
                (let info = info\<lparr>ii_id := v\<rparr>
                 in case copy_type (rd_interp_threads R) (a + off_interp_threads R) of
                      None \<Rightarrow> loop R callback (ii_next info) info s
                    | Some v \<Rightarrow>
                        (let info = info\<lparr>ii_tstate_head := v\<rparr>
                         in case copy_type (rd_interp_next R) (a + off_interp_next R) of
                              None \<Rightarrow> loop R callback (ii_next info) info s
                            | Some v \<Rightarrow>
                                (let info = info\<lparr>ii_next := v\<rparr>
                                 in case callback info s of
                                      None \<Rightarrow> None
                                    | Some s \<Rightarrow> loop R callback (ii_next info) info s))))) = Some s'"
    and a: "a \<noteq> NULL"
  shows "\<exists>info' t. loop R callback (ii_next info') info' t = Some s'
    \<and> ii_next info' = (case read_interp R a of None \<Rightarrow> ii_next info | Some i \<Rightarrow> ii_next i)"
proof (cases "read_interp R a")
  case None
  then show ?thesis
  proof (cases rule: read_interp_None_cases)
    case id
    then show ?thesis
      using run a None by (intro exI [of _ info] exI [of _ s]) simp
  next
    case (head i)
    then show ?thesis
      using run a None by (intro exI [of _ "info\<lparr>ii_id := i\<rparr>"] exI [of _ s]) simp
  next
    case (tail i h)
    then show ?thesis
      using run a None by (intro exI [of _ "info\<lparr>ii_id := i, ii_tstate_head := h\<rparr>"] exI [of _ s]) simp
  qed
next
  case (Some i)
  then show ?thesis
    using run a by (auto simp: read_interp_def Let_def bind_eq_Some_iff split: option.splits)
      (metis interp_info.select_convs(3) interp_info.surjective interp_info.update_convs(3))
qed

text \<open>When the walk returns, it has come to the end of the list, or never got past the first.\<close>

lemma interp_loop_returns:
  assumes "interp_loop R callback a info s = Some s'"
  shows "(\<exists>is. interp_chain R a is) \<or> (a \<noteq> NULL \<and> read_interp R a = None \<and> ii_next info \<noteq> a)"
proof (rule interp_loop.raw_induct [where P = "\<lambda>R callback a info s y.
    (\<exists>is. interp_chain R a is) \<or> (a \<noteq> NULL \<and> read_interp R a = None \<and> ii_next info \<noteq> a)", OF _ assms],
    goal_cases)
  case (1 loop R callback a info s s')
  show ?case
  proof (cases "a = NULL")
    case True
    then have "interp_chain R a []"
      by (simp add: interp_chain.last)
    then show ?thesis
      by blast
  next
    case a: False
    obtain info' t where "loop R callback (ii_next info') info' t = Some s'"
      and follow: "ii_next info' = (case read_interp R a of None \<Rightarrow> ii_next info | Some i \<Rightarrow> ii_next i)"
      using interp_round [where loop = loop and R = R and callback = callback, OF 1(2) a] by blast
    then have IH: "(\<exists>is. interp_chain R (ii_next info') is) \<or> (ii_next info' \<noteq> NULL
        \<and> read_interp R (ii_next info') = None \<and> ii_next info' \<noteq> ii_next info')"
      using 1(1) by blast
    show ?thesis
    proof (cases "read_interp R a")
      case None
      then have "\<not> interp_chain R a is" for "is"
        using a by (auto elim: interp_chainE)
      then show ?thesis
        using IH follow a None by auto
    next
      case (Some i)
      then show ?thesis
        using IH follow interp_chain.more [OF a Some] by auto
    qed
  qed
qed

section \<open>All threads of all interpreters\<close>

lemma walk_order:
  assumes "\<And>xs. mset (ev_hash_order E xs) = mset xs" "interp_chain (ev_remote E) head is"
  shows "\<exists>order. (\<forall>i. distinct (order i) \<and> set (order i) = {a. linked (ev_remote E) (ii_tstate_head i) a})
    \<and> (\<forall>s. for_each_interp (ev_remote E) head (\<lambda>i. for_each_thread E garbage (ii_tstate_head i) (callback i)) s
       = visit_interps (\<lambda>i. visit_all (ev_remote E) (visit_thread E garbage (callback i)) (order i)) is s)"
proof -
  have "\<exists>xs. distinct xs \<and> set xs = {a. linked (ev_remote E) (ii_tstate_head i) a}
    \<and> for_each_thread E garbage (ii_tstate_head i) (callback i)
        = visit_all (ev_remote E) (visit_thread E garbage (callback i)) xs" for i
    using for_each_thread_visits [OF assms(1), of "ii_tstate_head i" garbage "callback i"] by (auto simp: fun_eq_iff)
  then obtain order where order: "\<And>i. distinct (order i)"
    "\<And>i. set (order i) = {a. linked (ev_remote E) (ii_tstate_head i) a}"
    "\<And>i. for_each_thread E garbage (ii_tstate_head i) (callback i)
        = visit_all (ev_remote E) (visit_thread E garbage (callback i)) (order i)"
    by metis
  then show ?thesis
    by (intro exI [of _ order]) (simp add: for_each_interp_def interp_loop_chain [OF assms(2)])
qed

lemma visit_interps_total:
  assumes "\<And>i s. callback i s \<noteq> None"
  shows "visit_interps callback is s \<noteq> None"
  by (induction "is" arbitrary: s) (use assms in \<open>simp_all del: not_None_eq split: option.split\<close>)

section \<open>Properties\<close>


text \<open>Two interpreters, of which the second can vanish.\<close>

definition two_interps :: "bool \<Rightarrow> remote" where
  "two_interps both = no_memory\<lparr>
     rd_interp_id := (\<lambda>a. if a = 8192 + 16 then Some 0 else if both \<and> a = 16384 + 16 then Some 1 else None),
     rd_interp_threads := (\<lambda>a. Some 4096),
     rd_interp_next := (\<lambda>a. if a = 8192 then Some 16384 else Some 0)\<rparr>"


end
