(* ===== verification/Memory.thy ===== *)
theory Memory
  imports Sampling
begin

text \<open>
  \<open>echion/memory.h\<close>: the memory profiler. Allocations are charged to the stack that made them;
  what is reported of a stack is the change of its live bytes since the last report. The
  allocators underneath belong to the interpreter: what they return is an argument.
\<close>

section \<open>State\<close>

record memory_entry =
  me_stack :: addr
  me_size :: i64

record memory_stats =
  ms_iid :: i64
  ms_thread_name :: string
  ms_stack :: addr
  ms_count :: i64
  ms_bytes :: i64

text \<open>An allocator of the interpreter: none, its own for a domain, or the profiler's on top of one.\<close>

datatype allocator = No_allocator | Original nat | Echion nat

record memory_state = threads_state +
  stacks :: stack_table
  memory_table :: "(addr \<times> memory_entry) list"
  stack_stats :: "(addr \<times> memory_stats) list"
  rss_size :: i64
  allocators :: "nat \<Rightarrow> allocator"
  original_allocators :: "nat \<Rightarrow> allocator"

section \<open>Resident memory\<close>

text \<open>\<open>ru_maxrss\<close> is what \<open>getrusage\<close> reports.\<close>

definition rss_update :: "i64 \<Rightarrow> 'a memory_state_scheme \<Rightarrow> 'a memory_state_scheme" where
  "rss_update ru_maxrss s = s\<lparr>rss_size := ru_maxrss\<rparr>"

definition rss_check :: "i64 \<Rightarrow> 'a memory_state_scheme \<Rightarrow> bool \<times> 'a memory_state_scheme" where
  "rss_check ru_maxrss s = (let old_size = rss_size s; s = rss_update ru_maxrss s in (rss_size s \<noteq> old_size, s))"

section \<open>The table of blocks\<close>

text \<open>\<open>link\<close> does not replace an entry that is already there.\<close>

definition memory_link :: "addr \<Rightarrow> addr \<Rightarrow> i64 \<Rightarrow> (addr \<times> memory_entry) list \<Rightarrow> (addr \<times> memory_entry) list" where
  "memory_link address stack nbytes table =
     emplace address \<lparr>me_stack = stack, me_size = nbytes\<rparr> table"

definition memory_unlink :: "addr \<Rightarrow> (addr \<times> memory_entry) list \<Rightarrow> memory_entry option \<times> (addr \<times> memory_entry) list" where
  "memory_unlink address table =
     (case map_of table address of
        Some entry \<Rightarrow> (Some entry, AList.delete address table)
      | None \<Rightarrow> (None, table))"

section \<open>The statistics\<close>

text \<open>
  A new stack takes its thread's name from the table of threads: for a thread that is not
  tracked the name is read through a null pointer. The interpreter's identifier goes through
  an \<open>int\<close>.
\<close>

definition stats_update ::
  "py_tstate option \<Rightarrow> addr \<Rightarrow> i64 \<Rightarrow> 'a memory_state_scheme \<Rightarrow> 'a memory_state_scheme option" where
  "stats_update tstate stack nbytes s =
     (case map_of (stack_stats s) stack of
        None \<Rightarrow>
          (case tstate of
             None \<Rightarrow> Some s
           | Some tstate \<Rightarrow>
               (case map_of (thread_info_map s) (ts_thread_id tstate) of
                  None \<Rightarrow> None
                | Some th \<Rightarrow>
                    Some (s\<lparr>stack_stats := stack_stats s @ [(stack,
                      \<lparr>ms_iid = scast (ucast (ts_interp_id tstate) :: i32), ms_thread_name = th_name th,
                       ms_stack = stack, ms_count = 1, ms_bytes = nbytes\<rparr>)]\<rparr>)))
      | Some m \<Rightarrow>
          Some (s\<lparr>stack_stats := AList.update stack
                    (m\<lparr>ms_count := ms_count m + 1, ms_bytes := ms_bytes m + nbytes\<rparr>) (stack_stats s)\<rparr>))"

definition stats_release :: "memory_entry \<Rightarrow> 'a memory_state_scheme \<Rightarrow> 'a memory_state_scheme" where
  "stats_release entry s =
     (case map_of (stack_stats s) (me_stack entry) of
        None \<Rightarrow> s
      | Some m \<Rightarrow>
          s\<lparr>stack_stats := AList.update (me_stack entry) (m\<lparr>ms_bytes := ms_bytes m - me_size entry\<rparr>)
             (stack_stats s)\<rparr>)"

definition stats_render :: "py_version \<Rightarrow> i64 \<Rightarrow> memory_stats \<Rightarrow> 'a memory_state_scheme \<Rightarrow> 'a memory_state_scheme option" where
  "stats_render V pid m s =
     do { let s = emit (R_render_stack_begin pid (ms_iid m) (ms_thread_name m)) s;
          stack \<leftarrow> stack_table_retrieve (ms_stack m) (stacks s);
          s \<leftarrow> stack_render V stack s;
          Some (emit (R_render_stack_end Memory (ms_bytes m)) s) }"

fun flush_loop ::
  "py_version \<Rightarrow> i64 \<Rightarrow> (addr \<times> memory_stats) list \<Rightarrow> 'a memory_state_scheme \<Rightarrow> 'a memory_state_scheme option" where
  "flush_loop V pid [] s = Some s"
| "flush_loop V pid ((k, m) # ms) s =
     (case (if ms_bytes m \<noteq> 0 then stats_render V pid m s else Some s) of
        None \<Rightarrow> None
      | Some s \<Rightarrow> flush_loop V pid ms s)"

definition reset_stats :: "memory_stats \<Rightarrow> memory_stats" where
  "reset_stats m = m\<lparr>ms_bytes := 0, ms_count := 0\<rparr>"

definition stats_flush :: "py_version \<Rightarrow> i64 \<Rightarrow> 'a memory_state_scheme \<Rightarrow> 'a memory_state_scheme option" where
  "stats_flush V pid s =
     map_option (\<lambda>s'. s'\<lparr>stack_stats := map (\<lambda>(k, m). (k, reset_stats m)) (stack_stats s)\<rparr>)
       (flush_loop V pid (stack_stats s) s)"

definition stats_clear :: "'a memory_state_scheme \<Rightarrow> 'a memory_state_scheme" where
  "stats_clear s = s\<lparr>stack_stats := []\<rparr>"

section \<open>Allocation events\<close>

definition general_alloc ::
  "environ \<Rightarrow> cpython_api \<Rightarrow> config \<Rightarrow> py_tstate \<Rightarrow> addr \<Rightarrow> i64 \<Rightarrow> 'a memory_state_scheme
     \<Rightarrow> 'a memory_state_scheme option" where
  "general_alloc E api C tstate address nbytes s =
     do { (stack, s) \<leftarrow> unwind_python_stack_unsafe (ev_version E) (ev_remote E) api (max_frames C) tstate s;
          (stack_key, table) \<leftarrow> stack_table_store stack s (stacks s);
          let s = s\<lparr>stacks := table, memory_table := memory_link address stack_key nbytes (memory_table s)\<rparr>;
          stats_update (Some tstate) stack_key nbytes s }"

definition general_free :: "addr \<Rightarrow> 'a memory_state_scheme \<Rightarrow> 'a memory_state_scheme" where
  "general_free address s =
     (case memory_unlink address (memory_table s) of
        (None, table) \<Rightarrow> s\<lparr>memory_table := table\<rparr>
      | (Some entry, table) \<Rightarrow> stats_release entry (s\<lparr>memory_table := table\<rparr>))"

definition echion_malloc ::
  "environ \<Rightarrow> cpython_api \<Rightarrow> config \<Rightarrow> py_tstate \<Rightarrow> addr \<Rightarrow> i64 \<Rightarrow> 'a memory_state_scheme
     \<Rightarrow> (addr \<times> 'a memory_state_scheme) option" where
  "echion_malloc E api C tstate address n s =
     (if address \<noteq> NULL then map_option (Pair address) (general_alloc E api C tstate address n s)
      else Some (address, s))"

definition echion_calloc ::
  "environ \<Rightarrow> cpython_api \<Rightarrow> config \<Rightarrow> py_tstate \<Rightarrow> addr \<Rightarrow> i64 \<Rightarrow> i64 \<Rightarrow> 'a memory_state_scheme
     \<Rightarrow> (addr \<times> 'a memory_state_scheme) option" where
  "echion_calloc E api C tstate address nelem elsize s =
     (if address \<noteq> NULL then map_option (Pair address) (general_alloc E api C tstate address (nelem * elsize) s)
      else Some (address, s))"

text \<open>The old block is given up before the allocator is asked.\<close>

definition echion_realloc ::
  "environ \<Rightarrow> cpython_api \<Rightarrow> config \<Rightarrow> py_tstate \<Rightarrow> addr \<Rightarrow> addr \<Rightarrow> i64 \<Rightarrow> 'a memory_state_scheme
     \<Rightarrow> (addr \<times> 'a memory_state_scheme) option" where
  "echion_realloc E api C tstate address p n s =
     (let s = (if p \<noteq> NULL then general_free p s else s)
      in if address \<noteq> NULL then map_option (Pair address) (general_alloc E api C tstate address n s)
         else Some (address, s))"

definition echion_free :: "addr \<Rightarrow> 'a memory_state_scheme \<Rightarrow> 'a memory_state_scheme" where
  "echion_free p s = (if p \<noteq> NULL then general_free p s else s)"

section \<open>Installing the allocators\<close>

definition ALLOC_DOMAIN_COUNT :: nat where
  "ALLOC_DOMAIN_COUNT = 3"

definition setup_domain :: "nat \<Rightarrow> 'a memory_state_scheme \<Rightarrow> 'a memory_state_scheme" where
  "setup_domain i s =
     s\<lparr>original_allocators := (original_allocators s)(i := allocators s i),
       allocators := (allocators s)(i := Echion i)\<rparr>"

definition setup_memory :: "'a memory_state_scheme \<Rightarrow> 'a memory_state_scheme" where
  "setup_memory s = fold setup_domain [0..<ALLOC_DOMAIN_COUNT] s"

definition restore_domain :: "nat \<Rightarrow> 'a memory_state_scheme \<Rightarrow> 'a memory_state_scheme" where
  "restore_domain i s = s\<lparr>allocators := (allocators s)(i := original_allocators s i)\<rparr>"

definition teardown_memory :: "py_version \<Rightarrow> i64 \<Rightarrow> 'a memory_state_scheme \<Rightarrow> 'a memory_state_scheme option" where
  "teardown_memory V pid s =
     do { s \<leftarrow> stats_flush V pid (fold restore_domain [0..<ALLOC_DOMAIN_COUNT] s);
          let s = stats_clear s;
          Some (s\<lparr>stacks := stack_table_clear (stacks s), memory_table := []\<rparr>) }"


section \<open>What leaves the profiler's fields alone\<close>

lemma more_memory:
  assumes "threads_state.more s' = threads_state.more s"
  shows "stacks s' = stacks s" "memory_table s' = memory_table s" "stack_stats s' = stack_stats s"
    "allocators s' = allocators s" "original_allocators s' = original_allocators s"
proof -
  have eq: "s' = s\<lparr>string_table := string_table s', calls := calls s', frame_heap := frame_heap s',
      next_frame := next_frame s', frame_cache := frame_cache s', stack_chunk := stack_chunk s',
      greenlet_info_map := greenlet_info_map s', greenlet_parent_map := greenlet_parent_map s',
      greenlet_thread_map := greenlet_thread_map s', current_greenlets := current_greenlets s',
      python_stack := python_stack s', native_stack := native_stack s', interleaved_stack := interleaved_stack s',
      current_tasks := current_tasks s', task_link_map := task_link_map s',
      previous_task_objects := previous_task_objects s', cerr := cerr s', thread_info_map := thread_info_map s',
      asyncio := asyncio s'\<rparr>"
    by (rule threads_state.equality) (simp_all add: assms)
  show "stacks s' = stacks s" "memory_table s' = memory_table s" "stack_stats s' = stack_stats s"
    "allocators s' = allocators s" "original_allocators s' = original_allocators s"
    using arg_cong [OF eq, of stacks] arg_cong [OF eq, of memory_table] arg_cong [OF eq, of stack_stats]
      arg_cong [OF eq, of allocators] arg_cong [OF eq, of original_allocators]
    by simp_all
qed

lemma string_key_unsafe_more:
  "frames_state.more (snd (string_key_unsafe V f g k t)) = frames_state.more t"
  by (rule more_frames(5)) (auto simp: string_key_unsafe_def Let_def split: option.splits)

lemma frame_get_unsafe_more:
  assumes "frame_get_unsafe V R api a s = Some (r, s')"
  shows "frames_state.more s' = frames_state.more s"
proof -
  have obj: "frames_state.more t' = frames_state.more t"
    if "frame_of_pyobject V R api a t = Some (f, t')" for f and t t' :: "'a frames_state_scheme"
  proof (cases "V311 \<le> V")
    case True
    with that obtain iframe code where "rd_iframe R a = Some iframe" "rd_code R (if_code iframe) = Some code"
      by (auto simp: frame_of_pyobject_def bind_eq_Some_iff)
    then show ?thesis
      using that True by (auto simp: frame_of_pyobject_def Let_def case_prod_unfold string_key_unsafe_more)
  next
    case False
    with that obtain py_frame code where "rd_frame R a = Some py_frame" "rd_code R (f_code py_frame) = Some code"
      by (auto simp: frame_of_pyobject_def bind_eq_Some_iff)
    then show ?thesis
      using that False by (auto simp: frame_of_pyobject_def Let_def case_prod_unfold string_key_unsafe_more)
  qed
  have look: "frames_state.more t' = frames_state.more t"
    if "cache_lookup k t = Some (x, t')" for k x and t t' :: "'a frames_state_scheme"
    using that by (auto simp: cache_lookup_def bind_eq_Some_iff)
  have put: "frames_state.more t' = frames_state.more t"
    if "cache_frame k f t = Some (x, t')" for k f x and t t' :: "'a frames_state_scheme"
    using that by (auto simp: cache_frame_def bind_eq_Some_iff emit_def Let_def)
  obtain key q t where k: "frame_key_of_pyobject V R api a = Some key" "cache_lookup key s = Some (q, t)"
    using assms by (auto simp: frame_get_unsafe_def bind_eq_Some_iff)
  show ?thesis
    using assms k look [OF k(2)]
    by (cases q) (auto simp: frame_get_unsafe_def bind_eq_Some_iff dest!: obj put)
qed

lemma unwind_frame_unsafe_loop_more:
  "unwind_frame_unsafe_loop V R api limit seen current c stack s = Some (c', stack', s')
    \<Longrightarrow> frames_state.more s' = frames_state.more s"
proof (induction V R api limit seen current c stack s rule: unwind_frame_unsafe_loop.induct)
  case (1 V R api limit seen current c stack s)
  show ?case
  proof (cases "current \<noteq> NULL \<and> length stack < limit \<and> current \<notin> seen
      \<and> (if V313 \<le> V then skip_non_code R api current else Some current) \<noteq> Some NULL")
    case False
    then show ?thesis
      using 1(2) by (subst (asm) unwind_frame_unsafe_loop.simps) (auto split: if_splits)
  next
    case True
    then obtain a where a: "(if V313 \<le> V then skip_non_code R api current else Some current) = Some a" "a \<noteq> NULL"
      using 1(2) by (subst (asm) unwind_frame_unsafe_loop.simps) (auto split: option.splits)
    then obtain ref t prv where step: "frame_get_unsafe V R api a s = Some (Inr ref, t)"
      "(if V311 \<le> V then map_option if_previous (rd_iframe R a) else map_option f_back (rd_frame R a)) = Some prv"
      "unwind_frame_unsafe_loop V R api limit (insert a seen) prv (Suc c) (stack @ [ref]) t = Some (c', stack', s')"
      using 1(2) True by (subst (asm) unwind_frame_unsafe_loop.simps) (auto split: option.splits sum.splits)
    have "frames_state.more s' = frames_state.more t"
      using 1(1) [OF _ _ a step(1) refl refl step(2,3)] True by blast
    then show ?thesis
      using frame_get_unsafe_more [OF step(1)] by simp
  qed
qed

lemma unwind_python_stack_unsafe_more:
  assumes "unwind_python_stack_unsafe V R api limit tstate s = Some (stack, s')"
  shows "frames_state.more s' = frames_state.more s"
  using assms
  by (auto simp: unwind_python_stack_unsafe_def unwind_frame_unsafe_def bind_eq_Some_iff
      dest!: unwind_frame_unsafe_loop_more update_stack_chunk_law(4))


section \<open>Accounting\<close>

text \<open>The live bytes of a stack in the table, and its bytes since the last report.\<close>

definition live_bytes :: "addr \<Rightarrow> (addr \<times> memory_entry) list \<Rightarrow> i64" where
  "live_bytes k table = sum_list (map (\<lambda>(a, e). if me_stack e = k then me_size e else 0) table)"

definition pending :: "addr \<Rightarrow> (addr \<times> memory_stats) list \<Rightarrow> i64" where
  "pending k stats = (case map_of stats k of None \<Rightarrow> 0 | Some m \<Rightarrow> ms_bytes m)"

lemma live_bytes_Nil [simp]: "live_bytes k [] = 0"
  by (simp add: live_bytes_def)

lemma map_of_None_keys: "map_of m k = None \<longleftrightarrow> k \<notin> fst ` set m"
  by (simp add: map_of_eq_None_iff)

lemma live_bytes_link:
  "a \<notin> fst ` set table \<Longrightarrow> live_bytes k (memory_link a stack n table)
     = live_bytes k table + (if stack = k then n else 0)"
  by (simp add: live_bytes_def memory_link_def emplace_def map_of_None_keys)

lemma live_bytes_delete:
  "distinct (map fst table) \<Longrightarrow> map_of table a = Some e \<Longrightarrow>
    live_bytes k (AList.delete a table) = live_bytes k table - (if me_stack e = k then me_size e else 0)"
proof (induction table)
  case (Cons x table)
  show ?case
  proof (cases "fst x = a")
    case True
    then have "a \<notin> fst ` set table" "snd x = e"
      using Cons.prems by (auto split: if_splits)
    then have "AList.delete a (x # table) = table"
      using True by (simp add: AList.delete_eq) (force simp: filter_id_conv)
    then show ?thesis
      using \<open>snd x = e\<close> by (simp add: live_bytes_def case_prod_unfold)
  next
    case False
    then show ?thesis
      using Cons by (simp add: live_bytes_def AList.delete_eq case_prod_unfold split: if_splits)
  qed
qed simp

lemma pending_update: "pending k (AList.update q m stats) = (if k = q then ms_bytes m else pending k stats)"
  by (simp add: pending_def update_conv')

lemma pending_append: "map_of stats q = None \<Longrightarrow> pending k (stats @ [(q, m)]) = (if k = q then ms_bytes m else pending k stats)"
  by (auto simp: pending_def map_add_def split: option.splits)

text \<open>
  \<open>rep k\<close> is what has been reported of stack \<open>k\<close> so far. Every block is charged to a stack
  that has statistics.
\<close>

definition accounted :: "(addr \<Rightarrow> i64) \<Rightarrow> 'a memory_state_scheme \<Rightarrow> bool" where
  "accounted rep s \<longleftrightarrow> (\<forall>k. rep k + pending k (stack_stats s) = live_bytes k (memory_table s))
     \<and> distinct (map fst (memory_table s))
     \<and> (\<forall>e \<in> snd ` set (memory_table s). map_of (stack_stats s) (me_stack e) \<noteq> None)"

lemma accountedI:
  assumes "\<And>k. rep k + pending k (stack_stats s) = live_bytes k (memory_table s)"
    and "distinct (map fst (memory_table s))"
    and "\<And>a e. (a, e) \<in> set (memory_table s) \<Longrightarrow> map_of (stack_stats s) (me_stack e) \<noteq> None"
  shows "accounted rep s"
  using assms by (auto simp: accounted_def)

lemma accountedD:
  assumes "accounted rep s"
  shows "rep k + pending k (stack_stats s) = live_bytes k (memory_table s)"
    "distinct (map fst (memory_table s))"
    "(a, e) \<in> set (memory_table s) \<Longrightarrow> map_of (stack_stats s) (me_stack e) \<noteq> None"
  using assms by (force simp: accounted_def)+

text \<open>\<open>update\<close> for an allocation adds its bytes to the stack.\<close>

lemma stats_update_spec:
  assumes "stats_update (Some t) q n s = Some s'"
  shows "memory_table s' = memory_table s"
    "pending k (stack_stats s') = pending k (stack_stats s) + (if k = q then n else 0)"
    "map_of (stack_stats s') q \<noteq> None"
    "map_of (stack_stats s) j \<noteq> None \<Longrightarrow> map_of (stack_stats s') j \<noteq> None"
proof -
  have "memory_table s' = memory_table s
    \<and> pending k (stack_stats s') = pending k (stack_stats s) + (if k = q then n else 0)
    \<and> map_of (stack_stats s') q \<noteq> None
    \<and> (map_of (stack_stats s) j \<noteq> None \<longrightarrow> map_of (stack_stats s') j \<noteq> None)"
  proof (cases "map_of (stack_stats s) q")
    case None
    then have "pending q (stack_stats s) = 0"
      by (simp add: pending_def)
    with None assms show ?thesis
      by (auto simp: stats_update_def pending_append map_add_def split: option.splits)
  next
    case (Some m)
    then have "pending q (stack_stats s) = ms_bytes m"
      by (simp add: pending_def)
    with Some assms show ?thesis
      by (auto simp: stats_update_def pending_update update_conv')
  qed
  then show "memory_table s' = memory_table s"
    "pending k (stack_stats s') = pending k (stack_stats s) + (if k = q then n else 0)"
    "map_of (stack_stats s') q \<noteq> None"
    "map_of (stack_stats s) j \<noteq> None \<Longrightarrow> map_of (stack_stats s') j \<noteq> None"
    by blast+
qed

lemma general_alloc_accounted:
  assumes run: "general_alloc E api C t a n s = Some s'" and acc: "accounted rep s"
    and fresh: "a \<notin> fst ` set (memory_table s)"
  shows "accounted rep s'"
proof -
  obtain stack s1 q table s2 where unw: "unwind_python_stack_unsafe (ev_version E) (ev_remote E) api (max_frames C) t s
      = Some (stack, s1)"
    and s2: "s2 = s1\<lparr>stacks := table, memory_table := memory_link a q n (memory_table s1)\<rparr>"
    and upd: "stats_update (Some t) q n s2 = Some s'"
    using run by (auto simp: general_alloc_def bind_eq_Some_iff Let_def)
  note m1 = more_greenlets(5) [OF unwind_python_stack_unsafe_more [OF unw]]
  note m3 = more_memory [OF more_threads(8) [OF m1]]
  have table: "memory_table s2 = memory_link a q n (memory_table s)" "stack_stats s2 = stack_stats s"
    using m3 by (simp_all add: s2)
  have link: "memory_table s2 = memory_table s @ [(a, \<lparr>me_stack = q, me_size = n\<rparr>)]"
    using fresh by (simp add: table(1) memory_link_def emplace_def map_of_None_keys)
  note spec = stats_update_spec [OF upd]
  note old = accountedD [OF acc]
  show ?thesis
  proof (rule accountedI)
    show "rep k + pending k (stack_stats s') = live_bytes k (memory_table s')" for k
      using old(1) [of k] live_bytes_link [OF fresh, of k q n] spec(1,2) table by (simp add: add.assoc [symmetric])
    show "distinct (map fst (memory_table s'))"
      using old(2) fresh spec(1) link by auto
    show "map_of (stack_stats s') (me_stack e) \<noteq> None" if "(b, e) \<in> set (memory_table s')" for b e
      using that old(3) [of b e] spec(1,3) spec(4) [of "me_stack e"] link table(2) by auto
  qed
qed

lemma general_free_accounted:
  assumes "accounted rep s"
  shows "accounted rep (general_free a s)"
proof (cases "map_of (memory_table s) a")
  case None
  then show ?thesis
    using assms by (simp add: general_free_def memory_unlink_def accounted_def)
next
  case (Some e)
  note old = accountedD [OF assms]
  have "(a, e) \<in> set (memory_table s)"
    using Some by (rule map_of_SomeD)
  then obtain m where m: "map_of (stack_stats s) (me_stack e) = Some m"
    using old(3) by blast
  have s': "memory_table (general_free a s) = AList.delete a (memory_table s)"
    "stack_stats (general_free a s) = AList.update (me_stack e) (m\<lparr>ms_bytes := ms_bytes m - me_size e\<rparr>) (stack_stats s)"
    using Some m by (simp_all add: general_free_def memory_unlink_def stats_release_def)
  have bytes: "pending (me_stack e) (stack_stats s) = ms_bytes m"
    using m by (simp add: pending_def)
  show ?thesis
  proof (rule accountedI)
    show "rep k + pending k (stack_stats (general_free a s)) = live_bytes k (memory_table (general_free a s))" for k
      using old(1) [of k] live_bytes_delete [OF old(2) Some, of k] bytes
      by (auto simp: s' pending_update add_diff_eq)
    show "distinct (map fst (memory_table (general_free a s)))"
      using old(2) by (simp add: s' distinct_delete)
    show "map_of (stack_stats (general_free a s)) (me_stack f) \<noteq> None"
      if "(b, f) \<in> set (memory_table (general_free a s))" for b f
      using that old(3) [of b f] by (auto simp: s' update_conv' AList.delete_eq)
  qed
qed

text \<open>Rendering does not touch the accounts, and a report moves what is pending to what is reported.\<close>

lemma flush_loop_more:
  "flush_loop V pid ms s = Some s' \<Longrightarrow> memory_table s' = memory_table s \<and> stack_stats s' = stack_stats s"
proof (induction ms arbitrary: s)
  case (Cons x ms)
  obtain k m where x: "x = (k, m)"
    by (cases x)
  obtain t where t: "(if ms_bytes m \<noteq> 0 then stats_render V pid m s else Some s) = Some t"
    "flush_loop V pid ms t = Some s'"
    using Cons.prems by (auto simp: x split: option.splits)
  have "memory_table t = memory_table s \<and> stack_stats t = stack_stats s"
    using t(1) by (auto simp: stats_render_def stack_render_def bind_eq_Some_iff emit_def Let_def split: if_splits)
  then show ?case
    using Cons.IH [OF t(2)] by simp
qed simp

lemma stats_flush_spec:
  assumes "stats_flush V pid s = Some s'"
  shows "memory_table s' = memory_table s" "pending k (stack_stats s') = 0"
    "(map_of (stack_stats s') k = None) = (map_of (stack_stats s) k = None)"
proof -
  have "stack_stats s' = map (\<lambda>(k, m). (k, reset_stats m)) (stack_stats s)" "memory_table s' = memory_table s"
    using assms flush_loop_more by (fastforce simp: stats_flush_def)+
  then show "memory_table s' = memory_table s" "pending k (stack_stats s') = 0"
    "(map_of (stack_stats s') k = None) = (map_of (stack_stats s) k = None)"
    by (simp_all add: pending_def map_of_map reset_stats_def split: option.split)
qed


section \<open>What a report sends\<close>

definition memory_block :: "py_version \<Rightarrow> i64 \<Rightarrow> 'a memory_state_scheme \<Rightarrow> memory_stats \<Rightarrow> rcall list" where
  "memory_block V pid s m =
     [R_render_stack_begin pid (ms_iid m) (ms_thread_name m)] @ frame_calls V (the (stacks s (ms_stack m))) s
       @ [R_render_stack_end Memory (ms_bytes m)]"

definition reportable :: "'a memory_state_scheme \<Rightarrow> memory_stats \<Rightarrow> bool" where
  "reportable s m \<longleftrightarrow> (case stacks s (ms_stack m) of None \<Rightarrow> False | Some stack \<Rightarrow> live (set stack) s)"

lemma render_refs_dead: "ref \<in> set refs \<Longrightarrow> deref ref s = None \<Longrightarrow> render_refs V f refs s w = None"
  by (induction refs arbitrary: w) (auto split: option.split)

lemma stats_render_calls:
  "stats_render V pid m s = (if reportable s m then Some (s\<lparr>calls := calls s @ memory_block V pid s m\<rparr>) else None)"
proof (cases "stacks s (ms_stack m)")
  case None
  then show ?thesis
    by (simp add: stats_render_def reportable_def stack_table_retrieve_def emit_def)
next
  case (Some stack)
  let ?t = "s\<lparr>calls := calls s @ [R_render_stack_begin pid (ms_iid m) (ms_thread_name m)]\<rparr>"
  show ?thesis
  proof (cases "live (set stack) s")
    case True
    then have "stack_render V stack ?t = Some (?t\<lparr>calls := calls ?t @ frame_calls V stack s\<rparr>)"
      using stack_render_calls [of stack ?t V] by simp
    then show ?thesis
      using Some True by (simp add: stats_render_def reportable_def stack_table_retrieve_def emit_def memory_block_def)
  next
    case False
    then obtain ref where "ref \<in> set stack" "deref ref s = None"
      by (auto simp: live_def)
    then have "stack_render V stack ?t = None"
      using render_refs_dead [of ref "rev stack" ?t] by (simp add: stack_render_def)
    then show ?thesis
      using Some False by (simp add: stats_render_def reportable_def stack_table_retrieve_def emit_def)
  qed
qed

lemma reportable_calls [simp]: "reportable (s\<lparr>calls := cs\<rparr>) m = reportable s m"
  "memory_block V pid (s\<lparr>calls := cs\<rparr>) = memory_block V pid s"
  by (simp_all add: reportable_def memory_block_def fun_eq_iff cong: option.case_cong)

lemma flush_loop_calls:
  "flush_loop V pid ms s =
     (if \<forall>(k, m) \<in> set ms. ms_bytes m \<noteq> 0 \<longrightarrow> reportable s m
      then Some (s\<lparr>calls := calls s @ concat (map (memory_block V pid s) (filter (\<lambda>m. ms_bytes m \<noteq> 0) (map snd ms)))\<rparr>)
      else None)"
proof (induction ms arbitrary: s)
  case (Cons x ms)
  obtain k m where x: "x = (k, m)"
    by (cases x)
  show ?case
    by (cases "ms_bytes m = 0"; cases "reportable s m") (simp_all add: x Cons.IH stats_render_calls)
qed simp

section \<open>Properties\<close>

text \<open>
  The life of the profiler: any sequence of allocations, reallocations, frees and reports,
  with other steps of the program that leave the profiler alone. The allocators never
  return a block that is in use.
\<close>

inductive mem_reach :: "'a memory_state_scheme \<Rightarrow> (addr \<Rightarrow> i64) \<Rightarrow> bool" where
  start: "memory_table s = [] \<Longrightarrow> stack_stats s = [] \<Longrightarrow> mem_reach s (\<lambda>k. 0)"
| malloc: "mem_reach s rep \<Longrightarrow> address \<notin> fst ` set (memory_table s)
    \<Longrightarrow> echion_malloc E api C t address n s = Some (r, s') \<Longrightarrow> mem_reach s' rep"
| calloc: "mem_reach s rep \<Longrightarrow> address \<notin> fst ` set (memory_table s)
    \<Longrightarrow> echion_calloc E api C t address nelem elsize s = Some (r, s') \<Longrightarrow> mem_reach s' rep"
| realloc: "mem_reach s rep \<Longrightarrow> address \<notin> fst ` set (memory_table s) - {p}
    \<Longrightarrow> echion_realloc E api C t address p n s = Some (r, s') \<Longrightarrow> mem_reach s' rep"
| free: "mem_reach s rep \<Longrightarrow> mem_reach (echion_free p s) rep"
| report: "mem_reach s rep \<Longrightarrow> stats_flush V pid s = Some s'
    \<Longrightarrow> mem_reach s' (\<lambda>k. rep k + pending k (stack_stats s))"
| other: "mem_reach s rep \<Longrightarrow> memory_table s' = memory_table s \<Longrightarrow> stack_stats s' = stack_stats s \<Longrightarrow> mem_reach s' rep"

lemma general_free_table: "fst ` set (memory_table (general_free p s)) = fst ` set (memory_table s) - {p}"
proof (cases "map_of (memory_table s) p")
  case None
  then have "p \<notin> fst ` set (memory_table s)"
    by (simp add: map_of_None_keys)
  with None show ?thesis
    by (simp add: general_free_def memory_unlink_def)
next
  case (Some e)
  then have "memory_table (general_free p s) = AList.delete p (memory_table s)"
    by (simp add: general_free_def memory_unlink_def stats_release_def split: option.split)
  then show ?thesis
    by (auto simp: AList.delete_eq)
qed

lemma mem_reach_accounted:
  assumes "mem_reach s rep"
  shows "accounted rep s"
  using assms
proof (induction rule: mem_reach.induct)
  case (start s)
  then show ?case
    by (simp add: accounted_def pending_def)
next
  case (malloc s rep address E api C t n r s')
  then show ?case
    using general_alloc_accounted by (auto simp: echion_malloc_def split: if_splits)
next
  case (calloc s rep address E api C t nelem elsize r s')
  then show ?case
    using general_alloc_accounted by (auto simp: echion_calloc_def split: if_splits)
next
  case (realloc s rep address p E api C t n r s')
  define u where "u = (if p \<noteq> NULL then general_free p s else s)"
  have "accounted rep u"
    using realloc.IH general_free_accounted by (auto simp: u_def)
  moreover have "address \<notin> fst ` set (memory_table u)" if "address \<noteq> NULL"
    using realloc.hyps(2) that general_free_table [of p s] by (auto simp: u_def)
  moreover have "(if address \<noteq> NULL then map_option (Pair address) (general_alloc E api C t address n u)
      else Some (address, u)) = Some (r, s')"
    using realloc.hyps(3) unfolding echion_realloc_def u_def Let_def .
  ultimately show ?case
    using general_alloc_accounted by (auto split: if_splits)
next
  case (free s rep p)
  then show ?case
    using general_free_accounted [OF free.IH] by (simp add: echion_free_def)
next
  case (report s rep V pid s')
  note spec = stats_flush_spec [OF report.hyps(2)]
  show ?case
    using accountedD [OF report.IH] by (intro accountedI) (simp_all add: spec)
next
  case (other s rep s')
  then show ?case
    by (simp add: accounted_def)
qed



text \<open>One allocation by a thread with an empty stack.\<close>

definition no_api :: cpython_api where
  "no_api = \<lparr>api_lasti = (\<lambda>_. 0), api_addr2location = (\<lambda>_ _. (0, 0, 0, 0)), api_lineno = (\<lambda>_. 0),
     api_as_long = (\<lambda>_. None), api_as_utf8 = (\<lambda>_. []), api_is_code = (\<lambda>_. False)\<rparr>"

definition start_memory :: memory_state where
  "start_memory = threads_state.extend ((start_threads 8)\<lparr>thread_info_map := [(1, a_thread 0)]\<rparr>)
     (memory_state.fields Map.empty [] [] 0 (\<lambda>i. Original i) (\<lambda>_. No_allocator))"

lemma start_memory_simps [simp]:
  "memory_table start_memory = []" "stack_stats start_memory = []" "stacks start_memory = Map.empty"
  "thread_info_map start_memory = [(1, a_thread 0)]" "allocators start_memory = (\<lambda>i. Original i)"
  "original_allocators start_memory = (\<lambda>_. No_allocator)"
  by (simp_all add: start_memory_def threads_state.defs memory_state.defs)

lemma sample_alloc:
  fixes s :: memory_state
  assumes "thread_info_map s = [(1, a_thread 0)]" "stack_stats s = []"
  shows "\<exists>s'. general_alloc (sample_environ V39 two_frames) no_api default_config (thread_at 0) a n s = Some s'
    \<and> memory_table s' = memory_link a 0 n (memory_table s)"
proof -
  have unw: "unwind_python_stack_unsafe V39 two_frames no_api m (thread_at 0) s = Some ([], s)" for m
    by (simp add: unwind_python_stack_unsafe_def update_stack_chunk_def unwind_frame_unsafe_def thread_at_def
        py_version_order unwind_frame_unsafe_loop.simps)
  have ids: "ts_thread_id (thread_at 0) = 1" "ts_interp_id (thread_at 0) = 0"
    by (simp_all add: thread_at_def)
  show ?thesis
    using assms by (simp add: general_alloc_def unw ids stack_table_store_def stack_key_def stats_update_def Let_def)
qed


text \<open>C39: a report, in full. It is defined exactly if every stack with bytes to report is in the
  stack table with all its frames alive: the table holds references only, so when the frame
  cache has had to make room since, a report reads frames that have been destroyed. It
  sends, for each such stack in the order of the table, its thread, its frames and its
  bytes, and sets all counters back.\<close>

theorem stats_flush_effect:
  "stats_flush V pid s =
     (if \<forall>(k, m) \<in> set (stack_stats s). ms_bytes m = 0 \<or> reportable s m
      then Some (s\<lparr>calls := calls s @ concat (map (memory_block V pid s)
                     (filter (\<lambda>m. ms_bytes m \<noteq> 0) (map snd (stack_stats s)))),
                   stack_stats := map (\<lambda>(k, m). (k, m\<lparr>ms_bytes := 0, ms_count := 0\<rparr>)) (stack_stats s)\<rparr>)
      else None)"
  unfolding stats_flush_def flush_loop_calls by (simp add: reset_stats_def case_prod_unfold disj_imp)

theorem stats_flush_effect_witness:
  "\<exists>s. stats_flush V39 42 (start_memory\<lparr>stacks := [0 \<mapsto> []],
        stack_stats := [(0, \<lparr>ms_iid = 0, ms_thread_name = ''t'', ms_stack = 0, ms_count = 1, ms_bytes = 32\<rparr>)]\<rparr>) = Some s
     \<and> calls s = calls start_memory @ [R_render_stack_begin 42 0 ''t'', R_render_stack_end Memory 32]
     \<and> pending 0 (stack_stats s) = 0"
  by (simp add: stats_flush_effect reportable_def live_def memory_block_def frame_calls_def pending_def)

text \<open>C40: a reallocation that fails takes the block out of the books although the program keeps
  it: nothing charges its bytes to a stack any more, the statistics count it as freed, and
  freeing it later changes nothing.\<close>

theorem realloc_failure_forgets:
  assumes "p \<noteq> NULL" "map_of (memory_table s) p = Some e" "map_of (stack_stats s) (me_stack e) = Some m"
  shows "\<exists>s'. echion_realloc E api C t NULL p n s = Some (NULL, s')
    \<and> map_of (memory_table s') = (map_of (memory_table s))(p := None)
    \<and> pending (me_stack e) (stack_stats s') = pending (me_stack e) (stack_stats s) - me_size e
    \<and> echion_free p s' = s'"
  using assms
  by (auto simp: echion_realloc_def echion_free_def general_free_def memory_unlink_def stats_release_def
      delete_conv' pending_def update_conv')

theorem realloc_failure_forgets_witness:
  "\<exists>s'. echion_realloc (sample_environ V39 two_frames) no_api default_config (thread_at 0) NULL 4096 64
       (start_memory\<lparr>memory_table := [(4096, \<lparr>me_stack = 0, me_size = 32\<rparr>)],
          stack_stats := [(0, \<lparr>ms_iid = 0, ms_thread_name = [], ms_stack = 0, ms_count = 1, ms_bytes = 32\<rparr>)]\<rparr>)
     = Some (NULL, s') \<and> map_of (memory_table s') 4096 = None \<and> pending 0 (stack_stats s') = 0"
proof -
  let ?m = "\<lparr>ms_iid = 0, ms_thread_name = [], ms_stack = 0, ms_count = 1, ms_bytes = 32\<rparr>"
  let ?s = "start_memory\<lparr>memory_table := [(4096, \<lparr>me_stack = 0, me_size = 32\<rparr>)], stack_stats := [(0, ?m)]\<rparr>"
  from realloc_failure_forgets [of 4096 ?s "\<lparr>me_stack = 0, me_size = 32\<rparr>" ?m "sample_environ V39 two_frames" no_api
      default_config "thread_at 0" 64]
  show ?thesis
    by (auto simp: pending_def)
qed

text \<open>An allocation reported twice unbalances the books for good. When an allocator hands a
  request on to another domain the event is handled once in each: the second time the
  block's entry is kept as it is, while the bytes are added to the stack again; the free
  takes them off once.\<close>

theorem nested_allocation_unbalances:
  assumes "general_alloc E api C t a n s = Some s'" "map_of (memory_table s) a = Some e"
  shows "memory_table s' = memory_table s
    \<and> (\<exists>q. \<forall>k. pending k (stack_stats s') = pending k (stack_stats s) + (if k = q then n else 0))
    \<and> (accounted rep s \<longrightarrow> accounted rep s' \<longrightarrow> n = 0)"
proof -
  obtain stack s1 q table s2 where unw: "unwind_python_stack_unsafe (ev_version E) (ev_remote E) api (max_frames C) t s
      = Some (stack, s1)"
    and s2: "s2 = s1\<lparr>stacks := table, memory_table := memory_link a q n (memory_table s1)\<rparr>"
    and upd: "stats_update (Some t) q n s2 = Some s'"
    using assms(1) by (auto simp: general_alloc_def bind_eq_Some_iff Let_def)
  note m1 = more_greenlets(5) [OF unwind_python_stack_unsafe_more [OF unw]]
  note m3 = more_memory [OF more_threads(8) [OF m1]]
  have "memory_table s2 = memory_table s" "stack_stats s2 = stack_stats s"
    using m3 assms(2) by (simp_all add: s2 memory_link_def emplace_def)
  then have eff: "memory_table s' = memory_table s"
    "\<And>k. pending k (stack_stats s') = pending k (stack_stats s) + (if k = q then n else 0)"
    using stats_update_spec [OF upd] by simp_all
  moreover have "n = 0" if "accounted rep s" "accounted rep s'"
    using accountedD(1) [OF that(1), of q] accountedD(1) [OF that(2), of q] eff by (simp add: add.assoc [symmetric])
  ultimately show ?thesis
    by blast
qed

theorem nested_allocation_unbalances_witness:
  "\<exists>s'. general_alloc (sample_environ V39 two_frames) no_api default_config (thread_at 0) 4096 32
        (start_memory\<lparr>memory_table := [(4096, \<lparr>me_stack = 0, me_size = 32\<rparr>)]\<rparr>) = Some s'
     \<and> memory_table s' = [(4096, \<lparr>me_stack = 0, me_size = 32\<rparr>)]
     \<and> (\<exists>q. pending q (stack_stats s') = 32)"
proof -
  let ?s = "start_memory\<lparr>memory_table := [(4096, \<lparr>me_stack = 0, me_size = 32\<rparr>)]\<rparr>"
  obtain s' where s': "general_alloc (sample_environ V39 two_frames) no_api default_config (thread_at 0) 4096 32 ?s = Some s'"
    using sample_alloc [of ?s 4096 32] by auto
  from nested_allocation_unbalances [OF s', of "\<lparr>me_stack = 0, me_size = 32\<rparr>"] have eff:
    "memory_table s' = memory_table ?s"
    "\<exists>q. \<forall>k. pending k (stack_stats s') = pending k (stack_stats ?s) + (if k = q then 32 else 0)"
    by simp_all
  then show ?thesis
    using s' by (auto simp: pending_def)
qed

text \<open>Tearing the profiler down gives each domain the allocator that was saved for it, and
  forgets all stacks, blocks and statistics. After \<open>setup_memory\<close> these are the allocators
  from before; if it never ran, because opening the output failed, they are null.\<close>

theorem teardown_memory_effect:
  assumes "teardown_memory V pid s = Some s'"
  shows "allocators s' = (\<lambda>i. if i < 3 then original_allocators s i else allocators s i)
    \<and> memory_table s' = [] \<and> stack_stats s' = [] \<and> stacks s' = Map.empty
    \<and> (\<forall>s0 :: 'a memory_state_scheme. original_allocators s = original_allocators (setup_memory s0) \<longrightarrow> (\<forall>i < 3. allocators s' i = allocators s0 i))"
proof -
  have fold: "allocators (fold restore_domain [0..<3] s) = (\<lambda>i. if i < 3 then original_allocators s i else allocators s i)"
    by (auto simp: upt_rec restore_domain_def fun_eq_iff less_Suc_eq numeral_3_eq_3)
  have saved: "i < 3 \<Longrightarrow> original_allocators (setup_memory s0) i = allocators s0 i" for i and s0 :: "'a memory_state_scheme"
    by (auto simp: setup_memory_def ALLOC_DOMAIN_COUNT_def upt_rec setup_domain_def less_Suc_eq numeral_3_eq_3)
  obtain t where t: "stats_flush V pid (fold restore_domain [0..<3] s) = Some t"
    "s' = (stats_clear t)\<lparr>stacks := stack_table_clear (stacks (stats_clear t)), memory_table := []\<rparr>"
    using assms by (auto simp: teardown_memory_def ALLOC_DOMAIN_COUNT_def bind_eq_Some_iff Let_def)
  have "allocators t = allocators (fold restore_domain [0..<3] s)"
    using t(1) by (auto simp: stats_flush_def flush_loop_calls split: if_splits)
  then have "allocators s' = (\<lambda>i. if i < 3 then original_allocators s i else allocators s i)"
    using t(2) fold by (simp add: stats_clear_def)
  then show ?thesis
    using t(2) saved by (auto simp: stats_clear_def stack_table_clear_def)
qed

theorem teardown_memory_effect_witness:
  "(\<exists>s. teardown_memory V39 1 (setup_memory start_memory) = Some s \<and> allocators s 0 = Original 0)
   \<and> (\<exists>s. teardown_memory V39 1 start_memory = Some s \<and> allocators s 0 = No_allocator)"
proof -
  have "stack_stats (setup_memory start_memory) = []"
    by (simp add: setup_memory_def ALLOC_DOMAIN_COUNT_def upt_rec setup_domain_def)
  moreover have "stack_stats (fold restore_domain [0..<3] s) = stack_stats s" for s :: memory_state
    by (simp add: upt_rec restore_domain_def)
  ultimately have run: "\<exists>s. teardown_memory V39 1 (setup_memory start_memory) = Some s"
    "\<exists>s. teardown_memory V39 1 start_memory = Some s"
    by (simp_all add: teardown_memory_def ALLOC_DOMAIN_COUNT_def stats_flush_def Let_def)
  then show ?thesis
    using teardown_memory_effect [of V39 1 "setup_memory start_memory"] teardown_memory_effect [of V39 1 start_memory]
    by fastforce
qed

end
