(* ===== verification/Core.thy ===== *)
theory Core
  imports Interp Memory
begin

text \<open>
  The extension module: the configuration of \<open>echion/config.h\<close>, the globals of
  \<open>echion/state.h\<close> and \<open>echion/timing.h\<close>, installing the handlers of \<open>echion/signals.h\<close>, and
  \<open>echion/coremodule.cc\<close>, the functions Python calls and the sampler they start.
\<close>

section \<open>State\<close>

datatype signal_handler = SIG_DFL | Sigquit_handler | Sigprof_handler

text \<open>
  A call of \<open>sampler\<close> is about to start, in its loop, or has returned. The thread of
  \<open>start_async\<close> is kept in \<open>sampler_thread\<close> until it is joined; \<open>callers\<close> are the threads
  inside \<open>start\<close>, which run the sampler themselves.
\<close>

datatype phase = Starting | Looping | Finished

record core_state = memory_state +
  conf :: config
  running :: bool
  sampler_thread :: "phase option"
  callers :: "phase list"
  where_thread :: bool
  last_time :: i64
  sigquit :: signal_handler
  sigprof :: signal_handler
  where_stream :: where_renderer

text \<open>
  What one step meets: besides the environment of a sample, the wall clock, the resident
  memory, the first interpreter, what an uninitialised field holds, and whether the
  output and the pipe of where mode can be opened.
\<close>

record moment =
  mo_environ :: environ
  mo_clock :: clock_reading
  mo_maxrss :: i64
  mo_interp_head :: addr
  mo_garbage :: i64
  mo_output_opens :: bool
  mo_pipe_opens :: bool

definition gettime :: "clock_reading \<Rightarrow> i64" where
  "gettime reading = (case reading of Clock_time sec nsec \<Rightarrow> to_microsecond sec nsec | _ \<Rightarrow> 0)"

section \<open>Configuration\<close>

text \<open>
  The arguments are the Python values after parsing: \<open>"I"\<close> takes any integer without a check
  for overflow, \<open>"p"\<close> is the truth of an object.
\<close>

definition parse_unsigned :: "int \<Rightarrow> nat" where
  "parse_unsigned n = nat (n mod 2 ^ 32)"

definition set_interval :: "int \<Rightarrow> 'a core_state_scheme \<Rightarrow> 'a core_state_scheme" where
  "set_interval n s = s\<lparr>conf := (conf s)\<lparr>interval := parse_unsigned n\<rparr>\<rparr>"

definition set_cpu :: "bool \<Rightarrow> 'a core_state_scheme \<Rightarrow> 'a core_state_scheme" where
  "set_cpu b s = s\<lparr>conf := (conf s)\<lparr>cpu := b\<rparr>\<rparr>"

definition set_ignore_non_running_threads :: "bool \<Rightarrow> 'a core_state_scheme \<Rightarrow> 'a core_state_scheme" where
  "set_ignore_non_running_threads b s = s\<lparr>conf := (conf s)\<lparr>ignore_non_running_threads := b\<rparr>\<rparr>"

definition set_memory :: "bool \<Rightarrow> 'a core_state_scheme \<Rightarrow> 'a core_state_scheme" where
  "set_memory b s = s\<lparr>conf := (conf s)\<lparr>memory_mode := b\<rparr>\<rparr>"

text \<open>Built with libunwind; without it \<open>set_native\<close> raises.\<close>

definition set_native :: "bool \<Rightarrow> 'a core_state_scheme \<Rightarrow> 'a core_state_scheme" where
  "set_native b s = s\<lparr>conf := (conf s)\<lparr>native := b\<rparr>\<rparr>"

definition set_where :: "bool \<Rightarrow> 'a core_state_scheme \<Rightarrow> 'a core_state_scheme" where
  "set_where b s = s\<lparr>conf := (conf s)\<lparr>where_mode := b\<rparr>\<rparr>"

definition set_pipe_name :: "string \<Rightarrow> 'a core_state_scheme \<Rightarrow> 'a core_state_scheme" where
  "set_pipe_name name s = s\<lparr>conf := (conf s)\<lparr>pipe_name := name\<rparr>\<rparr>"

definition set_max_frames :: "int \<Rightarrow> 'a core_state_scheme \<Rightarrow> 'a core_state_scheme" where
  "set_max_frames n s = s\<lparr>conf := (conf s)\<lparr>max_frames := parse_unsigned n\<rparr>\<rparr>"

section \<open>Tracking\<close>

definition track_thread ::
  "environ \<Rightarrow> i64 \<Rightarrow> addr \<Rightarrow> string \<Rightarrow> i64 \<Rightarrow> 'a threads_state_scheme \<Rightarrow> py_outcome \<times> 'a threads_state_scheme" where
  "track_thread E garbage thread_id thread_name native_id s =
     (case threadinfo_create E garbage thread_id native_id thread_name of
        Inl _ \<Rightarrow> (Py_RuntimeError ''Failed to track thread'', s)
      | Inr th \<Rightarrow> (Py_Return_None, s\<lparr>thread_info_map := AList.update thread_id th (thread_info_map s)\<rparr>))"

definition untrack_thread :: "addr \<Rightarrow> 'a threads_state_scheme \<Rightarrow> 'a threads_state_scheme" where
  "untrack_thread thread_id s = s\<lparr>thread_info_map := AList.delete thread_id (thread_info_map s)\<rparr>"

definition track_asyncio_loop ::
  "remote \<Rightarrow> addr \<Rightarrow> addr \<Rightarrow> 'a threads_state_scheme \<Rightarrow> 'a threads_state_scheme" where
  "track_asyncio_loop R thread_id loop s =
     (case map_of (thread_info_map s) thread_id of
        None \<Rightarrow> s
      | Some th \<Rightarrow>
          s\<lparr>thread_info_map := AList.update thread_id
              (th\<lparr>th_asyncio_loop := (if loop \<noteq> addr_Py_None R then loop else 0)\<rparr>) (thread_info_map s)\<rparr>)"

definition init_asyncio ::
  "remote \<Rightarrow> addr \<Rightarrow> addr \<Rightarrow> addr \<Rightarrow> 'a threads_state_scheme \<Rightarrow> 'a threads_state_scheme" where
  "init_asyncio R current scheduled eager s =
     s\<lparr>asyncio := \<lparr>asyncio_current_tasks = current, asyncio_scheduled_tasks = scheduled,
         asyncio_eager_tasks = (if eager = addr_Py_None R then NULL else eager)\<rparr>\<rparr>"

definition link_tasks :: "addr \<Rightarrow> addr \<Rightarrow> 'a threads_state_scheme \<Rightarrow> 'a threads_state_scheme" where
  "link_tasks parent child s = s\<lparr>task_link_map := AList.update child parent (task_link_map s)\<rparr>"

section \<open>Where mode\<close>

text \<open>A carriage return and the four bytes of a horse.\<close>

definition where_banner :: string where
  "where_banner = [CHR 0x0D, CHR 0xF0, CHR 0x9F, CHR 0x90, CHR 0xB4] @ '' Echion reporting for duty''"

definition where_message :: "string \<Rightarrow> 'a core_state_scheme \<Rightarrow> 'a core_state_scheme" where
  "where_message msg s = s\<lparr>where_stream := where_render_message msg (where_stream s)\<rparr>"

text \<open>One thread. When the native stack cannot be merged its report ends at its name.\<close>

definition where_thread_report ::
  "environ \<Rightarrow> py_tstate \<Rightarrow> thread_info \<Rightarrow> 'a core_state_scheme \<Rightarrow> (thread_info \<times> 'a core_state_scheme) option" where
  "where_thread_report E tstate th s =
     (case unwind E (conf s) tstate th s of
        None \<Rightarrow> None
      | Some s \<Rightarrow>
          (let s = s\<lparr>where_stream := where_thread_begin (th_name th) (where_stream s)\<rparr>;
               report = (\<lambda>stack s. map_option (\<lambda>w. (th, where_message [] (s\<lparr>where_stream := w\<rparr>)))
                           (stack_render_where (ev_version E) stack s (where_stream s)))
           in if native (conf s)
              then (case interleave_stacks (ev_version E) (native_stack s) (python_stack s) s of
                      None \<Rightarrow> None
                    | Some (Inl _, out, err) \<Rightarrow>
                        Some (th, s\<lparr>interleaved_stack := out, cerr := cerr s @ err @ [''could not interleave stacks'']\<rparr>)
                    | Some (Inr _, out, err) \<Rightarrow>
                        report out (s\<lparr>interleaved_stack := out, cerr := cerr s @ err\<rparr>))
              else report (python_stack s) s))"

definition do_where :: "moment \<Rightarrow> 'a core_state_scheme \<Rightarrow> 'a core_state_scheme option" where
  "do_where M s =
     for_each_interp (ev_remote (mo_environ M)) (mo_interp_head M)
       (\<lambda>interp. for_each_thread (mo_environ M) (mo_garbage M) (ii_tstate_head interp)
          (where_thread_report (mo_environ M)))
       (where_message [] (where_message where_banner s))"

section \<open>The sampler\<close>

definition install_signals :: "'a core_state_scheme \<Rightarrow> 'a core_state_scheme" where
  "install_signals s =
     (let s = s\<lparr>sigquit := Sigquit_handler\<rparr>
      in if native (conf s) then s\<lparr>sigprof := Sigprof_handler\<rparr> else s)"

definition restore_signals :: "'a core_state_scheme \<Rightarrow> 'a core_state_scheme" where
  "restore_signals s =
     (let s = s\<lparr>sigquit := SIG_DFL\<rparr> in if native (conf s) then s\<lparr>sigprof := SIG_DFL\<rparr> else s)"

text \<open>
  What is sent when the stream is opened: the empty sample announces the strings that are
  in the string table from the start.
\<close>

definition start_calls :: "config \<Rightarrow> i64 \<Rightarrow> rcall list" where
  "start_calls C pid =
     [R_header,
      R_metadata ''mode'' (if memory_mode C then ''memory'' else if cpu C then ''cpu'' else ''wall''),
      R_metadata ''interval'' (to_string (int (interval C))),
      R_metadata ''sampler'' ''echion'',
      R_render_stack_begin pid 0 ''MainThread'',
      R_string 0 [], R_string 1 ''<invalid>'', R_string 2 ''<unknown>'',
      R_render_stack_end Time 0]"

text \<open>
  The exception for an output that cannot be opened is left set, but \<open>sampler\<close> does not look
  at it. In where mode the report is written at once and nothing is sampled.
\<close>

definition start_sampler :: "moment \<Rightarrow> 'a core_state_scheme \<Rightarrow> (py_outcome \<times> 'a core_state_scheme) option" where
  "start_sampler M s =
     (let s = init_frame_cache (CACHE_MAX_ENTRIES * (1 + (if native (conf s) then 1 else 0))) s
      in if \<not> mo_output_opens M
         then Some (Py_RuntimeError ''Failed to open renderer'', s\<lparr>cerr := cerr s @ [''Failed to open output file '']\<rparr>)
         else
           (let s = install_signals (emit R_open s)
            in if where_mode (conf s)
               then (if mo_pipe_opens M
                     then map_option (\<lambda>s. (Py_Return_None, s\<lparr>running := False\<rparr>)) (do_where M s)
                     else Some (Py_Return_None,
                            s\<lparr>cerr := cerr s @ [''Failed to open pipe '' @ pipe_name (conf s)], running := False\<rparr>))
               else
                 (let s = s\<lparr>where_thread := True\<rparr>;
                      s = fold emit (start_calls (conf s) (ev_pid (mo_environ M))) s
                  in Some (Py_Return_None, if memory_mode (conf s) then setup_memory s else s))))"

text \<open>One round of the loop of \<open>_sampler\<close>: a report of memory, or a sample of every thread.\<close>

definition memory_round :: "moment \<Rightarrow> 'a core_state_scheme \<Rightarrow> 'a core_state_scheme option" where
  "memory_round M s =
     (case rss_check (mo_maxrss M) s of
        (changed, s) \<Rightarrow>
          if changed then stats_flush (ev_version (mo_environ M)) (ev_pid (mo_environ M)) s else Some s)"

definition sample_all :: "moment \<Rightarrow> i64 \<Rightarrow> 'a core_state_scheme \<Rightarrow> 'a core_state_scheme option" where
  "sample_all M wall_time s =
     for_each_interp (ev_remote (mo_environ M)) (mo_interp_head M)
       (\<lambda>interp. for_each_thread (mo_environ M) (mo_garbage M) (ii_tstate_head interp)
          (\<lambda>tstate th s. map_option snd (sample (mo_environ M) (conf s) (ii_id interp) tstate wall_time th s)))
       s"

definition sampler_round :: "moment \<Rightarrow> 'a core_state_scheme \<Rightarrow> 'a core_state_scheme option" where
  "sampler_round M s =
     (let now = gettime (mo_clock M)
      in map_option (\<lambda>s. s\<lparr>last_time := now\<rparr>)
           (if memory_mode (conf s) then memory_round M s else sample_all M (now - last_time s) s))"

text \<open>\<open>teardown_where\<close> is the subject of a theory of its own.\<close>

definition stop_sampler :: "moment \<Rightarrow> 'a core_state_scheme \<Rightarrow> 'a core_state_scheme option" where
  "stop_sampler M s =
     map_option (\<lambda>s. reset_frame_cache (emit R_close (restore_signals
                       (s\<lparr>thread_info_map := [], string_table := Map.empty, where_thread := False\<rparr>))))
       (if memory_mode (conf s) then teardown_memory (ev_version (mo_environ M)) (ev_pid (mo_environ M)) s
        else Some s)"

text \<open>The next step of a call of \<open>sampler\<close>; entering the loop reads the clock.\<close>

fun sampler_step :: "moment \<Rightarrow> phase \<Rightarrow> 'a core_state_scheme \<Rightarrow> (phase \<times> 'a core_state_scheme) option" where
  "sampler_step M Starting s =
     map_option (\<lambda>(_, s). (Looping, s\<lparr>last_time := gettime (mo_clock M)\<rparr>)) (start_sampler M s)"
| "sampler_step M Looping s =
     (if running s then map_option (Pair Looping) (sampler_round M s)
      else map_option (Pair Finished) (stop_sampler M s))"
| "sampler_step M Finished s = None"

section \<open>Starting and stopping\<close>

definition start_async :: "'a core_state_scheme \<Rightarrow> 'a core_state_scheme" where
  "start_async s =
     (if \<not> running s
      then (if sampler_thread s = None then s\<lparr>running := True, sampler_thread := Some Starting\<rparr> else s)
      else s)"

text \<open>The caller goes on as the sampler.\<close>

definition start :: "'a core_state_scheme \<Rightarrow> 'a core_state_scheme" where
  "start s = (if \<not> running s then s\<lparr>running := True, callers := callers s @ [Starting]\<rparr> else s)"

text \<open>\<open>stop\<close> up to the join, and what follows once the thread has returned.\<close>

definition stop :: "'a core_state_scheme \<Rightarrow> 'a core_state_scheme" where
  "stop s = s\<lparr>running := False\<rparr>"

definition stop_join :: "'a core_state_scheme \<Rightarrow> 'a core_state_scheme option" where
  "stop_join s =
     (case sampler_thread s of
        None \<Rightarrow> Some s
      | Some p \<Rightarrow> if p = Finished then Some (s\<lparr>sampler_thread := None\<rparr>) else None)"

section \<open>The methods of the module\<close>

text \<open>
  The table of methods, with parsed arguments. \<open>track_greenlet\<close> has the native identifier of
  the calling thread as its last one. \<open>init\<close> sets the process identifier, which is part of
  the environment here.
\<close>

datatype py_call =
    Start | Start_async | Stop | Init
  | Track_thread addr string i64 | Untrack_thread addr
  | Track_asyncio_loop addr addr | Init_asyncio addr addr addr | Link_tasks addr addr
  | Track_greenlet addr addr addr addr | Untrack_greenlet addr | Link_greenlets addr addr
  | Update_greenlet_frame addr addr
  | Set_interval int | Set_cpu bool | Set_memory bool | Set_native bool | Set_where bool
  | Set_pipe_name string | Set_max_frames int

fun exec_call :: "moment \<Rightarrow> py_call \<Rightarrow> 'a core_state_scheme \<Rightarrow> py_outcome \<times> 'a core_state_scheme" where
  "exec_call M Start s = (Py_Return_None, start s)"
| "exec_call M Start_async s = (Py_Return_None, start_async s)"
| "exec_call M Stop s = (Py_Return_None, stop s)"
| "exec_call M Init s = (Py_Return_None, s)"
| "exec_call M (Track_thread i name n) s = track_thread (mo_environ M) (mo_garbage M) i name n s"
| "exec_call M (Untrack_thread i) s = (Py_Return_None, untrack_thread i s)"
| "exec_call M (Track_asyncio_loop i l) s = (Py_Return_None, track_asyncio_loop (ev_remote (mo_environ M)) i l s)"
| "exec_call M (Init_asyncio c a e) s = (Py_Return_None, init_asyncio (ev_remote (mo_environ M)) c a e s)"
| "exec_call M (Link_tasks p c) s = (Py_Return_None, link_tasks p c s)"
| "exec_call M (Track_greenlet i name f n) s =
     track_greenlet (ev_version (mo_environ M)) (ev_remote (mo_environ M)) (ev_local_stack (mo_environ M)) n i name f s"
| "exec_call M (Untrack_greenlet i) s = (Py_Return_None, untrack_greenlet i s)"
| "exec_call M (Link_greenlets c p) s = (Py_Return_None, link_greenlets c p s)"
| "exec_call M (Update_greenlet_frame i f) s = (Py_Return_None, update_greenlet_frame i f s)"
| "exec_call M (Set_interval n) s = (Py_Return_None, set_interval n s)"
| "exec_call M (Set_cpu b) s = (Py_Return_None, set_cpu b s)"
| "exec_call M (Set_memory b) s = (Py_Return_None, set_memory b s)"
| "exec_call M (Set_native b) s = (Py_Return_None, set_native b s)"
| "exec_call M (Set_where b) s = (Py_Return_None, set_where b s)"
| "exec_call M (Set_pipe_name n) s = (Py_Return_None, set_pipe_name n s)"
| "exec_call M (Set_max_frames n) s = (Py_Return_None, set_max_frames n s)"

end
