(* ===== verification/Upkeep.thy ===== *)
theory Upkeep
  imports Interp Memory
begin

text \<open>
  What the sampler keeps whatever memory holds, however full the frame cache is and wherever
  its chains lead: if an operation returns, the invariant holds again and the tables of the
  Python side are as before. The lemmas follow the code from the unwinders to a sample.
\<close>

section \<open>Unwinders\<close>

definition keeps_frames :: "'a frames_state_scheme \<Rightarrow> 'a frames_state_scheme \<Rightarrow> bool" where
  "keeps_frames s s' \<longleftrightarrow> frames_ok s' \<and> frame_step s s'"

lemma keeps_frames_trans: "keeps_frames s t \<Longrightarrow> keeps_frames t u \<Longrightarrow> keeps_frames s u"
  by (auto simp: keeps_frames_def intro: frame_step_trans)

lemma keeps_frames_ok: "keeps_frames s t \<Longrightarrow> frames_ok t"
  by (simp add: keeps_frames_def)

lemma keeps_frames_interned: "keeps_frames s t \<Longrightarrow> string_table s k \<noteq> None \<Longrightarrow> string_table t k \<noteq> None"
  by (auto simp: keeps_frames_def dest: frame_step_interned)

lemma unwind_frame_keeps:
  "unwind_frame V R stk limit a stack s = Some (n, stack', s') \<Longrightarrow> frames_ok s \<Longrightarrow> keeps_frames s s'"
  unfolding unwind_frame_def keeps_frames_def by (rule unwind_frame_loop_keeps)

lemma frame_get_name_keeps:
  "frame_get_name name s = Some (r, s') \<Longrightarrow> string_table s name \<noteq> None \<Longrightarrow> frames_ok s \<Longrightarrow> keeps_frames s s'"
  unfolding keeps_frames_def using get_name.keeps get_name.steps by blast

lemma unwind_native_keeps:
  assumes "unwind_native_loop demangle limit cursors stack s = Some (stack', s')"
    and "list_all cursor_ok cursors" "frames_ok s"
  shows "keeps_frames s s'"
  using assms
proof (induction cursors arbitrary: stack s)
  case Nil
  then show ?case
    by (auto simp: keeps_frames_def)
next
  case (Cons c cs)
  show ?case
  proof (cases "length stack < limit")
    case True
    with Cons.prems(1) obtain r t where get: "frame_get_native demangle c s = Some (r, t)"
      by (auto split: option.splits)
    have t: "keeps_frames s t"
      using get_native.keeps [OF get] get_native.steps [OF get] Cons.prems(2,3) by (simp add: keeps_frames_def)
    show ?thesis
    proof (cases r)
      case (Inl e)
      then show ?thesis
        using Cons.prems(1) True get t by simp
    next
      case (Inr ref)
      then have "keeps_frames t s'"
        using Cons.IH [of "stack @ [ref]" t] Cons.prems True get keeps_frames_ok [OF t] by simp
      then show ?thesis
        using t keeps_frames_trans by blast
    qed
  qed (use Cons.prems in \<open>simp add: keeps_frames_def\<close>)
qed

lemma unwind_unsafe_keeps:
  assumes "unwind_frame_unsafe_loop V R api limit seen current c stack s = Some (c', stack', s')"
    and "frames_ok s" "names_not_C R"
  shows "keeps_frames s s'"
  using assms
proof (induction V R api limit seen current c stack s rule: unwind_frame_unsafe_loop.induct)
  case (1 V R api limit seen current c stack s)
  show ?case
  proof (cases "current \<noteq> NULL \<and> length stack < limit \<and> current \<notin> seen
      \<and> (if V313 \<le> V then skip_non_code R api current else Some current) \<noteq> Some NULL")
    case False
    then show ?thesis
      using 1(2,3) by (subst (asm) unwind_frame_unsafe_loop.simps) (auto simp: keeps_frames_def split: if_splits)
  next
    case True
    then obtain a where a: "(if V313 \<le> V then skip_non_code R api current else Some current) = Some a" "a \<noteq> NULL"
      using 1(2) by (subst (asm) unwind_frame_unsafe_loop.simps) (auto split: option.splits)
    then obtain ref t prv where step: "frame_get_unsafe V R api a s = Some (Inr ref, t)"
      "(if V311 \<le> V then map_option if_previous (rd_iframe R a) else map_option f_back (rd_frame R a)) = Some prv"
      "unwind_frame_unsafe_loop V R api limit (insert a seen) prv (Suc c) (stack @ [ref]) t = Some (c', stack', s')"
      using 1(2) True by (subst (asm) unwind_frame_unsafe_loop.simps) (auto split: option.splits sum.splits)
    have t: "keeps_frames s t"
      using get_unsafe.keeps [OF step(1) 1(4,3)] get_unsafe.steps [OF step(1) 1(4,3)] by (simp add: keeps_frames_def)
    have "keeps_frames t s'"
      using 1(1) [OF _ _ a step(1) refl refl step(2,3) keeps_frames_ok [OF t] 1(4)] True by blast
    then show ?thesis
      using t keeps_frames_trans by blast
  qed
qed

section \<open>Tasks\<close>

lemma task_unwind_loop_keeps:
  assumes "task_unwind_loop V R stk limit frames cnt stack upper s = Some (n, stack', upper', s')" "frames_ok s"
  shows "keeps_frames s s'"
  using assms
proof (induction frames arbitrary: cnt stack upper s)
  case Nil
  then show ?case
    by (auto simp: keeps_frames_def)
next
  case (Cons a frames)
  obtain k st t where unw: "unwind_frame V R stk limit a stack s = Some (k, st, t)"
    using Cons.prems(1) by (auto split: option.splits)
  note t = unwind_frame_keeps [OF unw Cons.prems(2)]
  have "keeps_frames t s' \<or> s' = t"
    using Cons.IH [OF _ keeps_frames_ok [OF t]] Cons.prems(1) unw by (auto split: if_splits)
  then show ?case
    using t keeps_frames_trans by blast
qed

lemma follow_tasks_keeps:
  assumes "follow_tasks E limit sync next t stack upper s = Some (stack', upper', s')"
    and "frames_ok s" "string_table s (tk_name t) \<noteq> None"
    and "\<And>t u. next t = Some u \<Longrightarrow> string_table s (tk_name u) \<noteq> None"
  shows "keeps_frames s s'"
proof -
  have "frames_ok s \<longrightarrow> string_table s (tk_name t) \<noteq> None
    \<longrightarrow> (\<forall>t u. next t = Some u \<longrightarrow> string_table s (tk_name u) \<noteq> None) \<longrightarrow> keeps_frames s (snd (snd (stack', upper', s')))"
  proof (rule follow_tasks.raw_induct [where P = "\<lambda>E limit sync next t stack upper s y.
      frames_ok s \<longrightarrow> string_table s (tk_name t) \<noteq> None
      \<longrightarrow> (\<forall>t u. next t = Some u \<longrightarrow> string_table s (tk_name u) \<noteq> None) \<longrightarrow> keeps_frames s (snd (snd y))", OF _ assms(1)])
    fix loop E limit sync "next" t stack upper y and s :: "'a frames_state_scheme"
    let ?P = "\<lambda>next t s y. frames_ok s \<longrightarrow> string_table s (tk_name t) \<noteq> None
      \<longrightarrow> (\<forall>t u. next t = Some u \<longrightarrow> string_table s (tk_name u) \<noteq> None) \<longrightarrow> keeps_frames s (snd (snd y))"
    assume IH: "\<And>E limit sync next t stack upper s y. loop E limit sync next t stack upper s = Some y \<Longrightarrow>
        frames_ok s \<longrightarrow> string_table s (tk_name t) \<noteq> None
        \<longrightarrow> (\<forall>t u. next t = Some u \<longrightarrow> string_table s (tk_name u) \<noteq> None) \<longrightarrow> keeps_frames s (snd (snd y))"
      and run: "(case task_unwind (ev_version E) (ev_remote E) (ev_local_stack E) limit t stack upper s of
        None \<Rightarrow> None
      | Some (task_stack_size, stack', upper', s1) \<Rightarrow>
          (case frame_get_name (tk_name t) s1 of
             Some (Inr name, s2) \<Rightarrow>
               (let stack = (if tk_on_cpu t then take (length sync - task_stack_size) sync @ stack' else stack')
                              @ [name];
                    upper = (if tk_on_cpu t then upper' else upper)
                in case next t of
                     None \<Rightarrow> Some (stack, upper, s2)
                   | Some task \<Rightarrow> loop E limit sync next task stack upper s2)
           | _ \<Rightarrow> None)) = Some y"
    show "?P next t s y"
    proof (intro impI)
      assume ok: "frames_ok s" and name: "string_table s (tk_name t) \<noteq> None"
        and names: "\<forall>t u. next t = Some u \<longrightarrow> string_table s (tk_name u) \<noteq> None"
      obtain k st up s1 where unw: "task_unwind (ev_version E) (ev_remote E) (ev_local_stack E) limit t stack upper s
          = Some (k, st, up, s1)"
        using run by (auto split: option.splits)
      obtain ref s2 where get: "frame_get_name (tk_name t) s1 = Some (Inr ref, s2)"
        using run unw by (auto split: option.splits sum.splits)
      have s1: "keeps_frames s s1"
        using task_unwind_loop_keeps [OF unw [unfolded task_unwind_def] ok] .
      have "keeps_frames s1 s2"
        by (rule frame_get_name_keeps [OF get keeps_frames_interned [OF s1 name] keeps_frames_ok [OF s1]])
      with s1 have s2: "keeps_frames s s2"
        by (rule keeps_frames_trans)
      show "keeps_frames s (snd (snd y))"
      proof (cases "next t")
        case None
        then show ?thesis
          using run unw get s2 by (auto simp: Let_def)
      next
        case (Some u)
        then obtain st' up' where "loop E limit sync next u st' up' s2 = Some y"
          using run unw get by (auto simp: Let_def)
        from IH [OF this] Some names keeps_frames_ok [OF s2] keeps_frames_interned [OF s2] have "keeps_frames s2 (snd (snd y))"
          by blast
        with s2 show ?thesis
          by (rule keeps_frames_trans)
      qed
    qed
  qed
  then show ?thesis
    using assms(2-4) by simp
qed

lemma unwind_leaf_tasks_keeps:
  assumes "unwind_leaf_tasks E limit sync next leaves seen upper infos s = Some (infos', s')"
    and "frames_ok s" "\<forall>t \<in> set leaves. string_table s (tk_name t) \<noteq> None"
    and "\<And>t u. next t = Some u \<Longrightarrow> string_table s (tk_name u) \<noteq> None"
  shows "keeps_frames s s'"
  using assms
proof (induction leaves arbitrary: seen upper infos s)
  case Nil
  then show ?case
    by (auto simp: keeps_frames_def)
next
  case (Cons t leaves)
  obtain st u s1 where fol: "follow_tasks E limit sync next t [] upper s = Some (st, u, s1)"
    using Cons.prems(1) by (auto simp: Let_def split: option.splits)
  have s1: "keeps_frames s s1"
    using follow_tasks_keeps [OF fol Cons.prems(2)] Cons.prems(3,4) by simp
  obtain seen' up' infos1 where "unwind_leaf_tasks E limit sync next leaves seen' up' infos1 s1 = Some (infos', s')"
    using Cons.prems(1) fol by (auto simp: Let_def)
  then have "keeps_frames s1 s'"
    using Cons.IH keeps_frames_ok [OF s1] keeps_frames_interned [OF s1] Cons.prems(3,4) by (metis list.set_intros(2))
  with s1 show ?case
    by (rule keeps_frames_trans)
qed

section \<open>Greenlets\<close>

lemma greenlet_unwind_keeps:
  assumes "greenlet_unwind V R stk limit g frame tstate stack s = Some (n, stack', s')"
    and "frames_ok s" "string_table s (gr_name g) \<noteq> None"
  shows "keeps_frames s s'"
proof (cases "\<exists>a. greenlet_frame_addr V R frame tstate = Some (Some a)")
  case True
  then obtain a k st t where unw: "unwind_frame V R stk limit a stack s = Some (k, st, t)"
    "greenlet_frame_addr V R frame tstate = Some (Some a)"
    using assms(1) by (auto simp: greenlet_unwind_def split: option.splits)
  then obtain r where get: "frame_get_name (gr_name g) t = Some (r, s')"
    using assms(1) by (auto simp: greenlet_unwind_def split: option.splits sum.splits)
  note t = unwind_frame_keeps [OF unw(1) assms(2)]
  from t frame_get_name_keeps [OF get keeps_frames_interned [OF t assms(3)] keeps_frames_ok [OF t]] show ?thesis
    by (rule keeps_frames_trans)
next
  case False
  then have "s' = s"
    using assms(1) by (auto simp: greenlet_unwind_def split: option.splits)
  then show ?thesis
    using assms(2) by (simp add: keeps_frames_def)
qed

definition keeps_greenlets :: "'a greenlets_state_scheme \<Rightarrow> 'a greenlets_state_scheme \<Rightarrow> bool" where
  "keeps_greenlets s s' \<longleftrightarrow> frames_ok s' \<and> greenlets_named s' \<and> greenlet_step s s'"

lemma keeps_greenlets_trans: "keeps_greenlets s t \<Longrightarrow> keeps_greenlets t u \<Longrightarrow> keeps_greenlets s u"
  by (auto simp: keeps_greenlets_def intro: greenlet_step_trans)

lemma keeps_frames_greenlets:
  "keeps_frames s s' \<Longrightarrow> greenlets_named s \<Longrightarrow> keeps_greenlets s s'"
  unfolding keeps_frames_def keeps_greenlets_def using frame_step_greenlets(1) greenlets_named_step by blast

lemma greenlet_name: "greenlets_named s \<Longrightarrow> map_of (greenlet_info_map s) i = Some g \<Longrightarrow> string_table s (gr_name g) \<noteq> None"
  by (force simp: greenlets_named_def dest: map_of_SomeD)

lemma unwind_parents_keeps:
  assumes "unwind_parents V R stk limit tstate n visited i stack s = Some (stack', s')" "frames_ok s" "greenlets_named s"
  shows "keeps_greenlets s s'"
  using assms
proof (induction n arbitrary: visited i stack s)
  case 0
  then show ?case
    by (simp add: keeps_greenlets_def)
next
  case (Suc n)
  show ?case
  proof (cases "\<exists>p parent. i \<notin> visited \<and> map_of (greenlet_parent_map s) i = Some p
      \<and> map_of (greenlet_info_map s) p = Some parent \<and> gr_frame parent \<noteq> FRAME_NOT_SET R
      \<and> gr_frame parent \<noteq> addr_Py_None R")
    case False
    then show ?thesis
      using Suc.prems by (auto simp: keeps_greenlets_def split: if_splits option.splits)
  next
    case True
    then obtain p parent where p: "i \<notin> visited" "map_of (greenlet_parent_map s) i = Some p"
      "map_of (greenlet_info_map s) p = Some parent" "gr_frame parent \<noteq> FRAME_NOT_SET R" "gr_frame parent \<noteq> addr_Py_None R"
      by blast
    then obtain k st t where unw: "greenlet_unwind V R stk limit parent (gr_frame parent) tstate stack s = Some (k, st, t)"
      "unwind_parents V R stk limit tstate n (insert i visited) p st t = Some (stack', s')"
      using Suc.prems(1) by (auto split: option.splits)
    have t: "keeps_greenlets s t"
      by (rule keeps_frames_greenlets
          [OF greenlet_unwind_keeps [OF unw(1) Suc.prems(2) greenlet_name [OF Suc.prems(3) p(3)]] Suc.prems(3)])
    then have "keeps_greenlets t s'"
      using Suc.IH [OF unw(2)] by (simp add: keeps_greenlets_def)
    with t show ?thesis
      by (rule keeps_greenlets_trans)
  qed
qed

text \<open>The loop adds to the list of greenlet stacks, which is no part of the invariant.\<close>

lemma unwind_leaves_keeps:
  assumes "unwind_leaves V R stk limit tstate skip parents gs s = Some s'" "frames_ok s" "greenlets_named s"
    and "\<forall>g \<in> snd ` set gs. string_table s (gr_name g) \<noteq> None"
  shows "keeps_greenlets s s'"
  using assms
proof (induction gs arbitrary: s)
  case Nil
  then show ?case
    by (simp add: keeps_greenlets_def)
next
  case (Cons x gs)
  obtain i g where x: "x = (i, g)"
    by (cases x)
  show ?case
  proof (cases "i \<in> parents \<or> gr_frame g = FRAME_NOT_SET R \<or> (skip \<and> gr_frame g \<noteq> addr_Py_None R)")
    case True
    then show ?thesis
      using Cons by (simp add: x)
  next
    case False
    then obtain k st t where unw: "greenlet_unwind V R stk limit g (gr_frame g) tstate [] s = Some (k, st, t)"
      using Cons.prems(1) by (auto simp: x Let_def split: option.splits)
    then obtain st' u where par: "unwind_parents V R stk limit tstate MAX_GREENLET_DEPTH {} i st t = Some (st', u)"
      using Cons.prems(1) False by (auto simp: x Let_def split: option.splits)
    define v where "v = u\<lparr>current_greenlets := current_greenlets u
      @ [\<lparr>si_task_name = gr_name g, si_on_cpu = (gr_frame g = addr_Py_None R), si_stack = st'\<rparr>]\<rparr>"
    have rest: "unwind_leaves V R stk limit tstate skip parents gs v = Some s'"
      using Cons.prems(1) False unw par by (simp add: x v_def Let_def)
    have t: "keeps_greenlets s t"
      using keeps_frames_greenlets [OF greenlet_unwind_keeps [OF unw Cons.prems(2)]] Cons.prems(3,4) by (simp add: x)
    have "keeps_greenlets t u"
      using unwind_parents_keeps [OF par] t by (simp add: keeps_greenlets_def)
    then have u: "keeps_greenlets s v"
      using keeps_greenlets_trans [OF t] by (simp add: keeps_greenlets_def greenlet_step_def v_def greenlets_named_def)
    then have "\<forall>g \<in> snd ` set gs. string_table v (gr_name g) \<noteq> None"
      using Cons.prems(4) by (fastforce simp: keeps_greenlets_def greenlet_step_def dest: extends_table)
    then have "keeps_greenlets v s'"
      using Cons.IH [OF rest] u by (simp add: keeps_greenlets_def)
    with u show ?thesis
      by (rule keeps_greenlets_trans)
  qed
qed

lemma unwind_greenlets_keeps:
  "unwind_greenlets V R stk limit skip tstate native_id s = Some s' \<Longrightarrow> frames_ok s \<Longrightarrow> greenlets_named s
    \<Longrightarrow> keeps_greenlets s s'"
  unfolding unwind_greenlets_def
  by (cases "map_of (greenlet_thread_map s) native_id = None")
    (auto simp: keeps_greenlets_def dest!: unwind_leaves_keeps, auto simp: greenlets_named_def)

section \<open>A thread\<close>

definition keeps_thread :: "'a threads_state_scheme \<Rightarrow> 'a threads_state_scheme \<Rightarrow> bool" where
  "keeps_thread s s' \<longleftrightarrow> frames_ok s' \<and> greenlets_named s' \<and> thread_step s s'"

lemma keeps_thread_refl: "frames_ok s \<Longrightarrow> greenlets_named s \<Longrightarrow> keeps_thread s s"
  by (simp add: keeps_thread_def)

lemma keeps_thread_trans: "keeps_thread s t \<Longrightarrow> keeps_thread t u \<Longrightarrow> keeps_thread s u"
  by (auto simp: keeps_thread_def intro: thread_step_trans)

lemma keeps_threadD: "keeps_thread s t \<Longrightarrow> frames_ok t" "keeps_thread s t \<Longrightarrow> greenlets_named t"
  by (simp_all add: keeps_thread_def)

lemma keeps_greenlets_thread: "keeps_greenlets s t \<Longrightarrow> keeps_thread s t"
  by (simp add: keeps_greenlets_def keeps_thread_def greenlet_step_thread)

lemma keeps_frames_thread: "keeps_frames s t \<Longrightarrow> greenlets_named s \<Longrightarrow> keeps_thread s t"
  using keeps_frames_greenlets keeps_greenlets_thread by blast

text \<open>The fields of the sampler do not count.\<close>

lemma keeps_thread_fields [simp]:
  "keeps_thread s (t\<lparr>python_stack := x\<rparr>) = keeps_thread s t" "keeps_thread s (t\<lparr>native_stack := x\<rparr>) = keeps_thread s t"
  "keeps_thread s (t\<lparr>interleaved_stack := x\<rparr>) = keeps_thread s t" "keeps_thread s (t\<lparr>cerr := e\<rparr>) = keeps_thread s t"
  "keeps_thread s (t\<lparr>current_tasks := i\<rparr>) = keeps_thread s t" "keeps_thread s (t\<lparr>current_greenlets := i\<rparr>) = keeps_thread s t"
  by (simp_all add: keeps_thread_def thread_step_def greenlets_named_def)

lemma update_stack_chunk_keeps:
  assumes "update_stack_chunk V R tstate s = Some s'" "frames_ok s" "greenlets_named s"
  shows "keeps_thread s s'"
proof -
  note law = update_stack_chunk_law [OF assms(1)]
  note more = more_greenlets [OF law(4)]
  show ?thesis
    using assms(2,3) law(1-3,6) more more_threads [OF more(5)]
    by (simp add: keeps_thread_def thread_step_def greenlets_named_def)
qed

lemma unwind_python_stack_keeps:
  assumes "unwind_python_stack V R stk limit tstate s = Some (stack, s')" "frames_ok s" "greenlets_named s"
  shows "keeps_thread s s'"
proof -
  obtain t where t: "update_stack_chunk V R tstate s = Some t"
    using assms(1) by (auto simp: unwind_python_stack_def bind_eq_Some_iff)
  note k = update_stack_chunk_keeps [OF t assms(2,3)]
  have "s' = t \<or> (\<exists>a n. unwind_frame V R stk limit a [] t = Some (n, stack, s'))"
    using assms(1) t by (auto simp: unwind_python_stack_def Let_def split: option.splits if_splits)
  then show ?thesis
    using k keeps_thread_trans [OF k] keeps_frames_thread unwind_frame_keeps keeps_threadD [OF k] by blast
qed

definition environ_ok :: "environ \<Rightarrow> bool" where
  "environ_ok E \<longleftrightarrow> (\<forall>xs. mset (ev_hash_order E xs) = mset xs) \<and> (\<forall>t. list_all cursor_ok (ev_cursors E t))"

lemma unwind_tasks_keeps:
  assumes "unwind_tasks E C th s = Some (r, s')" "frames_ok s" "greenlets_named s" "environ_ok E"
  shows "keeps_thread s s'"
proof -
  have order: "\<And>xs. set (ev_hash_order E xs) = set xs"
    using assms(4) mset_eq_setD by (auto simp: environ_ok_def)
  obtain q t where plan: "plan_tasks E C th s = Some (q, t)"
    using assms(1) by (auto simp: unwind_tasks_def split: option.splits)
  note step = plan_tasks_step [OF plan order]
  have t: "keeps_thread s t"
    using step(1,4) assms(2,3) greenlets_kept(1) by (auto simp: keeps_thread_def)
  show ?thesis
  proof (cases q)
    case (Inl e)
    then show ?thesis
      using assms(1) plan t by (simp add: unwind_tasks_def)
  next
    case (Inr x)
    obtain leaves "next" where x: "x = (leaves, next)"
      by (cases x)
    obtain infos u where leaf: "unwind_leaf_tasks E (max_frames C) (python_stack t) next leaves False 0 [] t = Some (infos, u)"
      and s': "s' = u\<lparr>current_tasks := current_tasks u @ infos\<rparr>"
      using assms(1) plan Inr x by (auto simp: unwind_tasks_def split: option.splits)
    have names: "\<forall>t' \<in> set leaves. string_table t (tk_name t') \<noteq> None"
      "\<And>t' u. next t' = Some u \<Longrightarrow> string_table t (tk_name u) \<noteq> None"
      using step(8) Inr x by auto
    have "keeps_frames t u"
      using unwind_leaf_tasks_keeps [OF leaf keeps_threadD(1) [OF t] names(1)] names(2) by blast
    from t keeps_frames_thread [OF this keeps_threadD(2) [OF t]] have "keeps_thread s u"
      by (rule keeps_thread_trans)
    then show ?thesis
      by (simp add: s')
  qed
qed

lemma sigprof_handler_keeps:
  assumes "sigprof_handler E C tstate s = Some s'" "frames_ok s" "greenlets_named s" "environ_ok E"
  shows "keeps_thread s s'"
proof -
  obtain nat t st u where nat: "unwind_native_stack (ev_demangle E) (max_frames C) (ev_cursors E (ts_thread_id tstate)) s
      = Some (nat, t)"
    and py: "unwind_python_stack (ev_version E) (ev_remote E) (ev_local_stack E) (max_frames C) tstate
      (t\<lparr>native_stack := nat\<rparr>) = Some (st, u)"
    and s': "s' = u\<lparr>python_stack := st\<rparr>"
    using assms(1) by (auto simp: sigprof_handler_def bind_eq_Some_iff)
  have t: "keeps_thread s (t\<lparr>native_stack := nat\<rparr>)"
    using keeps_frames_thread [OF unwind_native_keeps [OF nat [unfolded unwind_native_stack_def]]] assms(2-4)
    by (simp add: environ_ok_def)
  from t unwind_python_stack_keeps [OF py keeps_threadD [OF t]] have "keeps_thread s u"
    by (rule keeps_thread_trans)
  then show ?thesis
    by (simp add: s')
qed

lemma unwind_keeps:
  assumes "unwind E C tstate th s = Some s'" "frames_ok s" "greenlets_named s" "environ_ok E"
  shows "keeps_thread s s'"
proof (cases "native C")
  case True
  then show ?thesis
    using assms(1) sigprof_handler_keeps [OF _ assms(2-4)] by (auto simp: unwind_def split: if_splits)
next
  case False
  then obtain st t u where py: "unwind_python_stack (ev_version E) (ev_remote E) (ev_local_stack E) (max_frames C) tstate s
      = Some (st, t)"
    and tasks: "(if th_asyncio_loop th \<noteq> 0 then map_option snd (unwind_tasks E C th (t\<lparr>python_stack := st\<rparr>))
      else Some (t\<lparr>python_stack := st\<rparr>)) = Some u"
    and greenlets: "unwind_greenlets (ev_version E) (ev_remote E) (ev_local_stack E) (max_frames C)
      (cpu C \<and> ignore_non_running_threads C) tstate (th_native_id th) u = Some s'"
    using assms(1) by (auto simp: unwind_def bind_eq_Some_iff Let_def)
  have t: "keeps_thread s (t\<lparr>python_stack := st\<rparr>)"
    using unwind_python_stack_keeps [OF py assms(2,3)] by simp
  have "keeps_thread (t\<lparr>python_stack := st\<rparr>) u"
    using tasks unwind_tasks_keeps [OF _ keeps_threadD [OF t] assms(4)] keeps_thread_refl [OF keeps_threadD [OF t]]
    by (auto split: if_splits)
  with t have u: "keeps_thread s u"
    by (rule keeps_thread_trans)
  from u keeps_greenlets_thread [OF unwind_greenlets_keeps [OF greenlets keeps_threadD [OF u]]] show ?thesis
    by (rule keeps_thread_trans)
qed

section \<open>A sample\<close>

lemma calls_keep:
  assumes "frames_ok s" "greenlets_named s" "\<forall>c \<in> set cs. plain_call (frame_keys (calls s)) c"
  shows "keeps_thread s (s\<lparr>calls := calls s @ cs\<rparr>)"
  using frames_ok_calls [OF assms(1,3)] assms(2,3)
  by (simp add: plain_call_def list_all_iff keeps_thread_def thread_step_def extends_def cache_cap_def greenlets_named_def)

lemma emit_keeps:
  assumes "keeps_thread s t" "plain_call {} c"
  shows "keeps_thread s (emit c t)"
proof -
  have "plain_call (frame_keys (calls t)) c"
    using assms(2) by (cases c) (auto simp: plain_call_def)
  then have "keeps_thread t (emit c t)"
    using calls_keep [of t "[c]"] keeps_threadD [OF assms(1)] by (simp add: emit_def)
  with assms(1) show ?thesis
    by (rule keeps_thread_trans)
qed

lemma render_refs_live:
  "render_refs V f refs s w = Some w' \<Longrightarrow> live (set refs) s"
  unfolding live_def by (metis render_refs_dead option.distinct(1))

lemma stack_render_keeps:
  assumes "stack_render V stack s = Some s'" "frames_ok s" "greenlets_named s"
  shows "keeps_thread s s'"
proof -
  have live: "live (set stack) s"
    using assms(1) render_refs_live [of V _ "rev stack"] by (auto simp: stack_render_def)
  have "\<forall>c \<in> set (frame_calls V stack s). plain_call (frame_keys (calls s)) c"
  proof
    fix c assume "c \<in> set (frame_calls V stack s)"
    then obtain ref where c: "c = R_render_frame (the (deref ref s))" "ref \<in> set stack"
      by (auto simp: frame_calls_def)
    then obtain f where "deref ref s = Some f"
      using live by (auto simp: live_def)
    with c(1) live_frame_key [OF assms(2) this] show "plain_call (frame_keys (calls s)) c"
      by (auto simp: plain_call_def)
  qed
  then show ?thesis
    using calls_keep [OF assms(2,3)] stack_render_calls [OF live, of V] assms(1) by simp
qed

lemma sample_stack_keeps:
  assumes "sample_stack E C iid name delta stack s = Some (r, s')" "frames_ok s" "greenlets_named s"
  shows "keeps_thread s s'"
proof -
  define t where "t = emit (R_render_stack_begin (ev_pid E) iid name) s"
  have t: "keeps_thread s t"
    unfolding t_def by (rule emit_keeps) (simp_all add: assms(2,3) keeps_thread_refl plain_call_def)
  define mid where "mid = (if native C
       then map_option (\<lambda>(r, out, err). (r, out, t\<lparr>interleaved_stack := out, cerr := cerr t @ err\<rparr>))
              (interleave_stacks (ev_version E) (native_stack t) stack t)
       else Some (Inr (), stack, t))"
  have run: "(case mid of
       None \<Rightarrow> None
     | Some (Inl _, out, s) \<Rightarrow> Some (Inl ThreadInfoError, s)
     | Some (Inr _, out, s) \<Rightarrow>
         map_option (\<lambda>s. (Inr (), emit (R_render_stack_end Time delta) s)) (stack_render (ev_version E) out s))
    = Some (r, s')"
    using assms(1) unfolding sample_stack_def Let_def t_def [symmetric] mid_def [symmetric] .
  then obtain q out u where mid: "mid = Some (q, out, u)"
    by (cases mid) auto
  have u: "keeps_thread s u"
    using mid t by (auto simp: mid_def split: if_splits)
  show ?thesis
  proof (cases q)
    case (Inl e)
    then show ?thesis
      using run mid u by simp
  next
    case (Inr x)
    then obtain v where v: "stack_render (ev_version E) out u = Some v" "s' = emit (R_render_stack_end Time delta) v"
      using run mid by auto
    have "keeps_thread s v"
      using keeps_thread_trans [OF u stack_render_keeps [OF v(1) keeps_threadD [OF u]]] .
    then show ?thesis
      unfolding v(2) by (rule emit_keeps) (simp add: plain_call_def)
  qed
qed

lemma sample_infos_keeps:
  "sample_infos E C iid name delta is s = Some (r, s') \<Longrightarrow> frames_ok s \<Longrightarrow> greenlets_named s \<Longrightarrow> keeps_thread s s'"
proof (induction "is" arbitrary: s)
  case Nil
  then show ?case
    by (simp add: keeps_thread_refl)
next
  case (Cons i "is")
  show ?case
  proof (cases "string_lookup (si_task_name i) s")
    case (Inl e)
    then show ?thesis
      using Cons.prems by (simp add: keeps_thread_refl)
  next
    case (Inr str)
    define t where "t = emit (R_render_task_begin str (si_on_cpu i)) s"
    have t: "keeps_thread s t"
      unfolding t_def by (rule emit_keeps) (simp_all add: Cons.prems keeps_thread_refl plain_call_def)
    obtain q u where one: "sample_stack E C iid name delta (si_stack i) t = Some (q, u)"
      using Cons.prems(1) Inr by (auto simp: t_def split: option.splits)
    have u: "keeps_thread s u"
      by (rule keeps_thread_trans [OF t sample_stack_keeps [OF one keeps_threadD [OF t]]])
    have "keeps_thread u s'"
    proof (cases q)
      case (Inl e)
      then show ?thesis
        using Cons.prems(1) Inr one keeps_thread_refl [OF keeps_threadD [OF u]] by (simp add: t_def)
    next
      case r: (Inr x)
      then show ?thesis
        using Cons.prems(1) Inr one Cons.IH [OF _ keeps_threadD [OF u]] by (simp add: t_def)
    qed
    with u show ?thesis
      by (rule keeps_thread_trans)
  qed
qed

lemma sample_stacks_keeps:
  assumes "sample_stacks E C iid name delta s = Some (r, s')" "frames_ok s" "greenlets_named s"
  shows "keeps_thread s s'"
  using assms sample_stack_keeps [OF _ assms(2,3)] sample_infos_keeps [OF _ assms(2,3)]
  by (fastforce simp: sample_stacks_def split: if_splits option.splits sum.splits)

text \<open>A sample that returns, whatever the result, keeps the invariant.\<close>

lemma sample_keeps:
  assumes "sample E C iid tstate delta th s = Some (r, th', s')" "frames_ok s" "greenlets_named s" "environ_ok E"
  shows "keeps_thread s s'"
proof -
  define b where "b = emit (R_render_thread_begin (th_name th) delta (th_id th) (th_native_id th)) s"
  have b: "keeps_thread s b"
    unfolding b_def by (rule emit_keeps) (simp_all add: assms(2,3) keeps_thread_refl plain_call_def)
  have go: "keeps_thread s s'"
    if h: "(case unwind E C tstate t u of None \<Rightarrow> None
        | Some v \<Rightarrow> map_option (\<lambda>(r, s). (r, t, s)) (sample_stacks E C iid (th_name t) delta v)) = Some (r, th', s')"
      and u: "keeps_thread s u" for t u
  proof -
    obtain v where v: "unwind E C tstate t u = Some v" "sample_stacks E C iid (th_name t) delta v = Some (r, s')"
      using h by (auto split: option.splits)
    have "keeps_thread s v"
      using keeps_thread_trans [OF u unwind_keeps [OF v(1) keeps_threadD [OF u] assms(4)]] .
    then show ?thesis
      using keeps_thread_trans sample_stacks_keeps [OF v(2) keeps_threadD] by blast
  qed
  show ?thesis
  proof (cases "cpu C")
    case False
    then show ?thesis
      using assms(1) go [of th b] b by (simp add: sample_def b_def)
  next
    case True
    obtain reading ts1 ts2 where clock: "ev_clock E (th_clock th) = (reading, ts1, ts2)"
      by (cases "ev_clock E (th_clock th)")
    obtain q t where upd: "update_cpu_time reading th = (q, t)"
      by (cases "update_cpu_time reading th")
    have c: "keeps_thread s (emit (R_render_cpu_time d) b)" for d
      by (rule emit_keeps [OF b]) (simp add: plain_call_def)
    show ?thesis
      using assms(1) b go [OF _ c] True clock upd
      by (cases q; cases "\<not> is_running ts1 ts2 \<and> ignore_non_running_threads C")
        (auto simp: sample_def b_def [symmetric] Let_def)
  qed
qed

section \<open>A whole run\<close>

text \<open>
  Over a run also the table of threads, the greenlets and the fields of the components above
  change: what is kept from the start \<open>s0\<close> on is the invariant and the growth of the log.
\<close>

definition upheld :: "'a memory_state_scheme \<Rightarrow> 'a memory_state_scheme \<Rightarrow> bool" where
  "upheld s0 s \<longleftrightarrow> frames_ok s \<and> greenlets_named s \<and> string_table s0 \<subseteq>\<^sub>m string_table s
     \<and> (\<exists>cs. calls s = calls s0 @ cs \<and> list_all sampling_call cs) \<and> cache_cap s = cache_cap s0
     \<and> allocators s = allocators s0 \<and> original_allocators s = original_allocators s0"

lemma upheldD: "upheld s0 s \<Longrightarrow> frames_ok s" "upheld s0 s \<Longrightarrow> greenlets_named s"
  by (simp_all add: upheld_def)

lemma upheld_step:
  assumes "upheld s0 s" "frames_ok t" "greenlets_named t" "extends s t" "cache_cap t = cache_cap s"
    "allocators t = allocators s" "original_allocators t = original_allocators s"
  shows "upheld s0 t"
  using assms by (auto simp: upheld_def extends_def intro: map_le_trans)

lemma upheld_keeps: "upheld s0 s \<Longrightarrow> keeps_thread s s' \<Longrightarrow> upheld s0 s'"
  by (erule upheld_step) (auto simp: keeps_thread_def thread_step_def intro: more_memory)

lemma upheld_same:
  assumes "upheld s0 s" "string_table t = string_table s" "calls t = calls s" "frame_heap t = frame_heap s"
    "next_frame t = next_frame s" "frame_cache t = frame_cache s" "greenlet_info_map t = greenlet_info_map s"
    "allocators t = allocators s" "original_allocators t = original_allocators s"
  shows "upheld s0 t"
  using assms by (simp add: upheld_def frames_ok_def announced_def cache_owns_def cache_entries_def
      names_interned_def greenlets_named_def cache_cap_def)

text \<open>The loops over threads and interpreters keep what a visit keeps.\<close>

lemma thread_loop_invariant:
  assumes "thread_loop E visit threads seen s = Some s'" "P s"
    and "\<And>tstate s s'. P s \<Longrightarrow> visit tstate s = Some s' \<Longrightarrow> P s'"
  shows "P s'"
proof -
  have "(\<forall>t s s'. P s \<longrightarrow> visit t s = Some s' \<longrightarrow> P s') \<longrightarrow> P s \<longrightarrow> P s'"
  proof (rule thread_loop.raw_induct [where P = "\<lambda>E visit threads seen s s'.
      (\<forall>t s s'. P s \<longrightarrow> visit t s = Some s' \<longrightarrow> P s') \<longrightarrow> P s \<longrightarrow> P s'", OF _ assms(1)])
    fix loop E visit threads seen s s'
    assume IH: "\<And>E visit threads seen s s'. loop E visit threads seen s = Some s' \<Longrightarrow>
        (\<forall>t s s'. P s \<longrightarrow> visit t s = Some s' \<longrightarrow> P s') \<longrightarrow> P s \<longrightarrow> P s'"
      and run: "(case ev_hash_order E threads of
        [] \<Rightarrow> Some s
      | tstate_addr # threads \<Rightarrow>
          (let seen = insert tstate_addr seen
           in case copy_type (rd_tstate (ev_remote E)) tstate_addr of
                None \<Rightarrow> loop E visit threads seen s
              | Some tstate \<Rightarrow>
                  (let threads = enqueue seen (ts_prev tstate) (enqueue seen (ts_next tstate) threads)
                   in case visit tstate s of
                        None \<Rightarrow> None
                      | Some s \<Rightarrow> loop E visit threads seen s))) = Some s'"
    show "(\<forall>t s s'. P s \<longrightarrow> visit t s = Some s' \<longrightarrow> P s') \<longrightarrow> P s \<longrightarrow> P s'"
    proof (intro impI)
      assume "\<forall>t s s'. P s \<longrightarrow> visit t s = Some s' \<longrightarrow> P s'" and "P s"
      then show "P s'"
        using run IH [of E visit _ _ s s'] IH [of E visit _ _ _ s']
        by (auto simp: Let_def split: list.splits option.splits)
    qed
  qed
  then show ?thesis
    using assms(2,3) by blast
qed

lemma interp_loop_invariant:
  assumes "interp_loop R callback a info s = Some s'" "P s"
    and "\<And>i s s'. P s \<Longrightarrow> callback i s = Some s' \<Longrightarrow> P s'"
  shows "P s'"
proof -
  have "(\<forall>i s s'. P s \<longrightarrow> callback i s = Some s' \<longrightarrow> P s') \<longrightarrow> P s \<longrightarrow> P s'"
  proof (rule interp_loop.raw_induct [where P = "\<lambda>R callback a info s s'.
      (\<forall>i s s'. P s \<longrightarrow> callback i s = Some s' \<longrightarrow> P s') \<longrightarrow> P s \<longrightarrow> P s'", OF _ assms(1)])
    fix loop R callback a s s' and info :: interp_info
    assume IH: "\<And>R callback a info s s'. loop R callback a info s = Some s' \<Longrightarrow>
        (\<forall>i s s'. P s \<longrightarrow> callback i s = Some s' \<longrightarrow> P s') \<longrightarrow> P s \<longrightarrow> P s'"
      and run: "(if a = NULL then Some s
      else (case copy_type (rd_interp_id R) (a + off_interp_id R) of
              None \<Rightarrow> loop R callback (ii_next info) info s
            | Some v \<Rightarrow>
                (let info = info\<lparr>ii_id := v\<rparr>
                 in case copy_type (rd_interp_threads R) (a + off_interp_threads R) of
                      None \<Rightarrow> loop R callback (ii_next info) info s
                    | Some v \<Rightarrow>
                        (let info = info\<lparr>ii_tstate_head := v\<rparr>
                         in case copy_type (rd_interp_next R) (a + off_interp_next R) of
                              None \<Rightarrow> loop R callback (ii_next info) info s
                            | Some v \<Rightarrow>
                                (let info = info\<lparr>ii_next := v\<rparr>
                                 in case callback info s of
                                      None \<Rightarrow> None
                                    | Some s \<Rightarrow> loop R callback (ii_next info) info s))))) = Some s'"
    show "(\<forall>i s s'. P s \<longrightarrow> callback i s = Some s' \<longrightarrow> P s') \<longrightarrow> P s \<longrightarrow> P s'"
    proof (intro impI)
      assume cb: "\<forall>i s s'. P s \<longrightarrow> callback i s = Some s' \<longrightarrow> P s'" and "P s"
      then show "P s'"
        using run IH [of R callback _ _ s s'] IH [of R callback _ _ _ s']
        by (auto simp: Let_def split: if_splits option.splits)
    qed
  qed
  then show ?thesis
    using assms(2,3) by blast
qed

text \<open>
  What a callback for the threads of an interpreter owes the walk: it keeps what is upheld.
  Then so does the walk over all threads of all interpreters. \<open>sample\<close> and the report of where
  mode are the two callbacks.
\<close>

locale thread_visitor =
  fixes E :: environ and callback :: "interp_info \<Rightarrow> ('a memory_state_scheme) thread_callback"
  assumes callback_upheld: "environ_ok E \<Longrightarrow> upheld s0 s \<Longrightarrow> callback i tstate th s = Some (th', s') \<Longrightarrow> upheld s0 s'"
begin

lemma visit_upheld:
  assumes "environ_ok E" "upheld s0 s" "visit_thread E garbage (callback i) tstate s = Some s'"
  shows "upheld s0 s'"
proof (cases "ensure_thread E garbage tstate s")
  case None
  then show ?thesis
    using assms(2,3) by (simp add: visit_thread_def)
next
  case (Some x)
  then obtain th u where x: "ensure_thread E garbage tstate s = Some (th, u)"
    by (cases x) simp
  have "u = s \<or> (\<exists>m. u = s\<lparr>thread_info_map := m\<rparr>)"
    using x by (auto simp: ensure_thread_def split: option.splits if_splits sum.splits)
  then have u: "upheld s0 u"
    using upheld_same [OF assms(2), of u] assms(2) by auto
  obtain th' v where v: "callback i tstate th u = Some (th', v)"
    "s' = v\<lparr>thread_info_map := AList.update (ts_thread_id tstate) th' (thread_info_map v)\<rparr>"
    using assms(3) x by (auto simp: visit_thread_def)
  then show ?thesis
    using upheld_same [OF callback_upheld [OF assms(1) u v(1)], of s'] by simp
qed

lemma threads_upheld:
  assumes "environ_ok E" "upheld s0 s" "for_each_thread E garbage head (callback i) s = Some s'"
  shows "upheld s0 s'"
  using assms(3) unfolding for_each_thread_def
  by (rule thread_loop_invariant) (use assms(1,2) visit_upheld in auto)

lemma walk_upheld:
  assumes "environ_ok E" "upheld s0 s"
    and "for_each_interp R head (\<lambda>i. for_each_thread E garbage (ii_tstate_head i) (callback i)) s = Some s'"
  shows "upheld s0 s'"
  using assms(3) unfolding for_each_interp_def
  by (rule interp_loop_invariant) (use assms(1,2) threads_upheld in auto)

end

section \<open>The memory profiler\<close>

lemma unwind_python_stack_unsafe_keeps:
  assumes "unwind_python_stack_unsafe V R api limit tstate s = Some (stack, s')"
    and "frames_ok s" "greenlets_named s" "names_not_C R"
  shows "keeps_thread s s'"
proof -
  obtain t where t: "update_stack_chunk V R tstate s = Some t"
    using assms(1) by (auto simp: unwind_python_stack_unsafe_def bind_eq_Some_iff)
  note k = update_stack_chunk_keeps [OF t assms(2,3)]
  obtain a n where "unwind_frame_unsafe V R api limit a [] t = Some (n, stack, s')"
    using assms(1) t by (auto simp: unwind_python_stack_unsafe_def bind_eq_Some_iff)
  then have "keeps_frames t s'"
    using unwind_unsafe_keeps keeps_threadD [OF k] assms(4) by (auto simp: unwind_frame_unsafe_def)
  from k keeps_frames_thread [OF this keeps_threadD(2) [OF k]] show ?thesis
    by (rule keeps_thread_trans)
qed

lemma general_alloc_upheld [preserves]:
  assumes "general_alloc E api C t a n s = Some s'" "upheld s0 s" "names_not_C (ev_remote E)"
  shows "upheld s0 s'"
proof -
  obtain stack u q table where unw: "unwind_python_stack_unsafe (ev_version E) (ev_remote E) api (max_frames C) t s
      = Some (stack, u)"
    and upd: "stats_update (Some t) q n (u\<lparr>stacks := table, memory_table := memory_link a q n (memory_table u)\<rparr>) = Some s'"
    using assms(1) by (auto simp: general_alloc_def bind_eq_Some_iff Let_def)
  have "upheld s0 u"
    using upheld_keeps [OF assms(2) unwind_python_stack_unsafe_keeps [OF unw upheldD [OF assms(2)] assms(3)]] .
  then show ?thesis
    by (rule upheld_same) (use upd in \<open>auto simp: stats_update_def split: option.splits\<close>)
qed

lemma general_free_upheld [preserves]: "upheld s0 s \<Longrightarrow> upheld s0 (general_free a s)"
  by (erule upheld_same)
    (auto simp: general_free_def memory_unlink_def stats_release_def split: option.split)

lemma stats_render_upheld [preserves]:
  assumes "stats_render V pid m s = Some s'" "upheld s0 s"
  shows "upheld s0 s'"
proof -
  define t where "t = emit (R_render_stack_begin pid (ms_iid m) (ms_thread_name m)) s"
  have t: "upheld s0 t"
    unfolding t_def by (rule upheld_keeps [OF assms(2) emit_keeps])
      (simp_all add: keeps_thread_refl upheldD [OF assms(2)] plain_call_def)
  obtain stack u where u: "stack_render V stack t = Some u" "s' = emit (R_render_stack_end Memory (ms_bytes m)) u"
    using assms(1) by (auto simp: stats_render_def bind_eq_Some_iff t_def Let_def)
  have v: "upheld s0 u"
    using upheld_keeps [OF t stack_render_keeps [OF u(1) upheldD [OF t]]] .
  show ?thesis
    unfolding u(2) by (rule upheld_keeps [OF v emit_keeps])
      (simp_all add: keeps_thread_refl upheldD [OF v] plain_call_def)
qed

lemma stats_flush_upheld [preserves]:
  assumes "stats_flush V pid s = Some s'" "upheld s0 s"
  shows "upheld s0 s'"
proof -
  have loop: "flush_loop V pid ms t = Some u \<Longrightarrow> upheld s0 t \<Longrightarrow> upheld s0 u" for ms t u
  proof (induction ms arbitrary: t)
    case (Cons x ms)
    then show ?case
      by (cases x) (auto split: option.splits if_splits dest: stats_render_upheld)
  qed simp
  obtain u where "flush_loop V pid (stack_stats s) s = Some u"
    "s' = u\<lparr>stack_stats := map (\<lambda>(k, m). (k, reset_stats m)) (stack_stats s)\<rparr>"
    using assms(1) by (auto simp: stats_flush_def)
  with loop assms(2) have "upheld s0 u"
    by blast
  then show ?thesis
    by (rule upheld_same) (simp_all add: \<open>s' = _\<close>)
qed

end
