(* ===== verification/Session.thy ===== *)
theory Session
  imports Core Upkeep
begin

text \<open>
  A session of the sampler: from the opening of the output on, any sequence of rounds, where
  reports, calls from Python and allocations, each as one step, up to the next start or stop
  of a sampler.
\<close>

section \<open>The steps keep the invariant\<close>

definition moment_ok :: "moment \<Rightarrow> bool" where
  "moment_ok M \<longleftrightarrow> environ_ok (mo_environ M)"

interpretation sampled: thread_visitor E
  "\<lambda>i tstate th s. map_option snd (sample E (conf s) (ii_id i) tstate wall_time th s)"
proof
  fix s0 s s' :: "'a core_state_scheme" and i tstate th th'
  assume up: "environ_ok E" "upheld s0 s"
    and "map_option snd (sample E (conf s) (ii_id i) tstate wall_time th s) = Some (th', s')"
  then obtain r where "sample E (conf s) (ii_id i) tstate wall_time th s = Some (r, th', s')"
    by auto
  from upheld_keeps [OF up(2) sample_keeps [OF this upheldD [OF up(2)] up(1)]] show "upheld s0 s'" .
qed

lemma sample_all_upheld [preserves]:
  assumes "sample_all M wall_time s = Some s'" "upheld s0 s" "moment_ok M"
  shows "upheld s0 s'"
  using assms sampled.walk_upheld unfolding sample_all_def moment_ok_def by blast

lemma memory_round_upheld [preserves]:
  assumes "memory_round M s = Some s'" "upheld s0 s"
  shows "upheld s0 s'"
proof -
  have "upheld s0 (rss_update (mo_maxrss M) s)"
    by (rule upheld_same [OF assms(2)]) (simp_all add: rss_update_def)
  then show ?thesis
    using assms(1) by (auto simp: memory_round_def rss_check_def Let_def split: if_splits dest: preserves)
qed

lemma sampler_round_upheld [preserves]:
  assumes "sampler_round M s = Some s'" "upheld s0 s" "moment_ok M"
  shows "upheld s0 s'"
proof -
  obtain t where t: "(if memory_mode (conf s) then memory_round M s
      else sample_all M (gettime (mo_clock M) - last_time s) s) = Some t" "s' = t\<lparr>last_time := gettime (mo_clock M)\<rparr>"
    using assms(1) unfolding sampler_round_def Let_def map_option_eq_Some by blast
  then have "upheld s0 t"
    using assms(2,3) by (auto split: if_splits dest: preserves)
  then show ?thesis
    unfolding t(2) by (rule upheld_same) simp_all
qed

lemma where_thread_report_upheld:
  assumes "where_thread_report E tstate th s = Some (th', s')" "upheld s0 s" "environ_ok E"
  shows "upheld s0 s'"
proof -
  obtain u where u: "unwind E (conf s) tstate th s = Some u"
    using assms(1) by (auto simp: where_thread_report_def split: option.splits)
  have up: "upheld s0 u"
    using upheld_keeps [OF assms(2) unwind_keeps [OF u upheldD [OF assms(2)] assms(3)]] .
  have "string_table s' = string_table u \<and> calls s' = calls u \<and> frame_heap s' = frame_heap u
    \<and> next_frame s' = next_frame u \<and> frame_cache s' = frame_cache u \<and> greenlet_info_map s' = greenlet_info_map u
    \<and> allocators s' = allocators u \<and> original_allocators s' = original_allocators u"
    using assms(1) u
    by (auto simp: where_thread_report_def where_message_def Let_def split: if_splits option.splits sum.splits)
  then show ?thesis
    by (intro upheld_same [OF up]) simp_all
qed

interpretation reported: thread_visitor E "\<lambda>_. where_thread_report E"
  by unfold_locales (rule where_thread_report_upheld)

lemma do_where_upheld [preserves]:
  assumes "do_where M s = Some s'" "upheld s0 s" "moment_ok M"
  shows "upheld s0 s'"
proof (rule reported.walk_upheld)
  show "upheld s0 (where_message [] (where_message where_banner s))"
    by (rule upheld_same [OF assms(2)]) (simp_all add: where_message_def)
qed (use assms(1,3) in \<open>auto simp: do_where_def moment_ok_def\<close>)

lemma set_alist_update: "set (AList.update k v al) \<subseteq> insert (k, v) (set al)"
  by (induction al) auto

text \<open>Only \<open>track_greenlet\<close> touches what the invariant is about.\<close>

lemma track_greenlet_upheld [preserves]:
  assumes "track_greenlet V R stk n i name f s = (r, s')" "upheld s0 s"
  shows "upheld s0 s'"
proof -
  obtain q t where key: "string_key V R stk name s = (q, t)"
    by (cases "string_key V R stk name s")
  note step = string_step_frames [OF string_key_step [OF key]]
  have t: "keeps_frames s t"
    using step(1,2) upheldD(1) [OF assms(2)] by (simp add: keeps_frames_def)
  note g = keeps_frames_thread [OF t upheldD(2) [OF assms(2)]]
  have up: "upheld s0 t"
    by (rule upheld_keeps [OF assms(2) g])
  show ?thesis
  proof (cases q)
    case (Inl e)
    then show ?thesis
      using assms(1) key up by (simp add: track_greenlet_def)
  next
    case (Inr k)
    then have k: "string_table t k \<noteq> None"
      using key by (auto simp: string_key_def split: option.splits sum.splits)
    have s': "s' = t\<lparr>greenlet_info_map := AList.update i \<lparr>gr_id = i, gr_name = k, gr_frame = f\<rparr> (greenlet_info_map t),
        greenlet_thread_map := AList.update n i (greenlet_thread_map t)\<rparr>"
      using assms(1) key Inr by (simp add: track_greenlet_def)
    have "greenlets_named s'"
      using upheldD(2) [OF up] k set_alist_update [of i "\<lparr>gr_id = i, gr_name = k, gr_frame = f\<rparr>" "greenlet_info_map t"]
      by (fastforce simp: s' greenlets_named_def)
    moreover have "frames_ok s'"
      using upheldD(1) [OF up]
      by (simp add: s' frames_ok_def announced_def cache_owns_def cache_entries_def names_interned_def)
    ultimately show ?thesis
      using upheld_step [OF up, of s'] by (simp add: s' extends_def cache_cap_def)
  qed
qed

lemma greenlets_named_subset:
  assumes "greenlets_named s" "string_table t = string_table s"
    and "gr_name ` snd ` set (greenlet_info_map t) \<subseteq> gr_name ` snd ` set (greenlet_info_map s)"
  shows "greenlets_named t"
proof -
  have named: "\<forall>k \<in> gr_name ` snd ` set (greenlet_info_map s). string_table s k \<noteq> None"
    using assms(1) by (simp add: greenlets_named_def)
  have "\<forall>k \<in> gr_name ` snd ` set (greenlet_info_map t). string_table s k \<noteq> None"
    by (rule ballI, rule bspec [OF named], rule subsetD [OF assms(3)])
  then show ?thesis
    by (simp add: greenlets_named_def assms(2))
qed

lemma greenlets_upheld:
  assumes "upheld s0 s" "string_table t = string_table s" "calls t = calls s" "frame_heap t = frame_heap s"
    "next_frame t = next_frame s" "frame_cache t = frame_cache s"
    "allocators t = allocators s" "original_allocators t = original_allocators s"
    and "gr_name ` snd ` set (greenlet_info_map t) \<subseteq> gr_name ` snd ` set (greenlet_info_map s)"
  shows "upheld s0 t"
proof -
  have "frames_ok t"
    using upheldD(1) [OF assms(1)] assms(2-6)
    by (simp add: frames_ok_def announced_def cache_owns_def cache_entries_def names_interned_def)
  then show ?thesis
    using assms(2-8) greenlets_named_subset [OF upheldD(2) [OF assms(1)] assms(2,9)]
    by (intro upheld_step [OF assms(1)]) (simp_all add: extends_def cache_cap_def)
qed

lemma untrack_greenlet_upheld [preserves]: "upheld s0 s \<Longrightarrow> upheld s0 (untrack_greenlet i s)"
  by (erule greenlets_upheld) (auto simp: untrack_greenlet_def AList.delete_eq)

lemma update_greenlet_frame_upheld [preserves]:
  assumes "upheld s0 s"
  shows "upheld s0 (update_greenlet_frame i f s)"
proof (cases "map_of (greenlet_info_map s) i")
  case None
  then show ?thesis
    using assms by (simp add: update_greenlet_frame_def)
next
  case (Some g)
  then have "gr_name g \<in> gr_name ` snd ` set (greenlet_info_map s)"
    by (force dest: map_of_SomeD)
  then have "gr_name ` snd ` insert (i, g\<lparr>gr_frame := f\<rparr>) (set (greenlet_info_map s))
      \<subseteq> gr_name ` snd ` set (greenlet_info_map s)"
    by simp
  then have "gr_name ` snd ` set (AList.update i (g\<lparr>gr_frame := f\<rparr>) (greenlet_info_map s))
      \<subseteq> gr_name ` snd ` set (greenlet_info_map s)"
    using set_alist_update by (meson image_mono order_trans)
  then show ?thesis
    using Some by (intro greenlets_upheld [OF assms]) (simp_all add: update_greenlet_frame_def)
qed

lemma exec_call_upheld [preserves]:
  assumes "exec_call M c s = (r, s')" "upheld s0 s"
  shows "upheld s0 s'"
proof (cases "\<exists>i name f n. c = Track_greenlet i name f n")
  case True
  then show ?thesis
    using assms track_greenlet_upheld by fastforce
next
  case False
  then show ?thesis
    using assms untrack_greenlet_upheld update_greenlet_frame_upheld upheld_same [OF assms(2), of s']
    by (cases c)
      (auto simp: start_def start_async_def stop_def track_thread_def untrack_thread_def track_asyncio_loop_def
        init_asyncio_def link_tasks_def link_greenlets_def set_interval_def set_cpu_def set_memory_def set_native_def
        set_where_def set_pipe_name_def set_max_frames_def split: if_splits sum.splits option.splits)
qed

section \<open>Sessions\<close>

text \<open>
  A module that has sent nothing yet: threads may be tracked already, no greenlets.
\<close>

definition unused :: "'a core_state_scheme \<Rightarrow> bool" where
  "unused s \<longleftrightarrow> string_table s = StringTable_new \<and> calls s = [] \<and> frame_heap s = Map.empty
     \<and> greenlet_info_map s = []"

text \<open>
  One step of a session. Allocation events run in the interpreter's threads; the phases of
  the threads that run a sampler are the business of the threads themselves.
\<close>

inductive session_step :: "core_state \<Rightarrow> core_state \<Rightarrow> bool" where
  round: "sampler_round M s = Some s' \<Longrightarrow> moment_ok M \<Longrightarrow> session_step s s'"
| report: "where_thread s \<Longrightarrow> running s \<Longrightarrow> do_where M s = Some s' \<Longrightarrow> moment_ok M \<Longrightarrow> session_step s s'"
| call: "exec_call M c s = (r, s') \<Longrightarrow> session_step s s'"
| malloc: "echion_malloc E api (conf s) t address n s = Some (q, s') \<Longrightarrow> names_not_C (ev_remote E) \<Longrightarrow> session_step s s'"
| calloc: "echion_calloc E api (conf s) t address n m s = Some (q, s') \<Longrightarrow> names_not_C (ev_remote E) \<Longrightarrow> session_step s s'"
| realloc: "echion_realloc E api (conf s) t address p n s = Some (q, s') \<Longrightarrow> names_not_C (ev_remote E) \<Longrightarrow> session_step s s'"
| free: "session_step s (echion_free p s)"
| phases: "session_step s (s\<lparr>sampler_thread := p, callers := ps\<rparr>)"

lemma session_step_upheld:
  assumes "session_step s s'" "upheld s0 s"
  shows "upheld s0 s'"
  using assms
proof (induction rule: session_step.induct)
  case (realloc E api s t address p n q s')
  have freed: "upheld s0 (general_free p s)"
    using realloc.prems by (rule general_free_upheld)
  show ?case
    using realloc general_alloc_upheld [OF _ freed] freed
    by (auto simp: echion_realloc_def Let_def split: if_splits dest: preserves)
next
  case (phases s p ps)
  then show ?case
    by (rule upheld_same) simp_all
qed (auto simp: echion_malloc_def echion_calloc_def echion_free_def split: if_splits
    dest: preserves intro: preserves)

text \<open>Opening the output.\<close>

lemma fold_emit: "fold emit cs s = s\<lparr>calls := calls s @ cs\<rparr>"
  by (induction cs arbitrary: s) (simp_all add: emit_def)

lemma setup_memory_simps [simp]:
  "string_table (setup_memory s) = string_table s" "calls (setup_memory s) = calls s"
  "frame_heap (setup_memory s) = frame_heap s" "next_frame (setup_memory s) = next_frame s"
  "frame_cache (setup_memory s) = frame_cache s" "greenlet_info_map (setup_memory s) = greenlet_info_map s"
  by (simp_all add: setup_memory_def ALLOC_DOMAIN_COUNT_def upt_rec setup_domain_def)

lemma install_signals_simps [simp]:
  "string_table (install_signals s) = string_table s" "calls (install_signals s) = calls s"
  "frame_heap (install_signals s) = frame_heap s" "next_frame (install_signals s) = next_frame s"
  "frame_cache (install_signals s) = frame_cache s" "greenlet_info_map (install_signals s) = greenlet_info_map s"
  "conf (install_signals s) = conf s"
  "allocators (install_signals s) = allocators s" "original_allocators (install_signals s) = original_allocators s"
  by (simp_all add: install_signals_def Let_def)

definition opened :: "config \<Rightarrow> 'a core_state_scheme \<Rightarrow> 'a core_state_scheme" where
  "opened C s = install_signals (emit R_open
     (init_frame_cache (CACHE_MAX_ENTRIES * (1 + (if native C then 1 else 0))) s))"

lemma opened_simps [simp]:
  "string_table (opened C s) = string_table s" "calls (opened C s) = calls s @ [R_open]"
  "frame_heap (opened C s) = frame_heap s" "next_frame (opened C s) = next_frame s"
  "frame_cache (opened C s) = Some (lru_new (CACHE_MAX_ENTRIES * (1 + (if native C then 1 else 0))))"
  "greenlet_info_map (opened C s) = greenlet_info_map s" "conf (opened C s) = conf s"
  "allocators (opened C s) = allocators s" "original_allocators (opened C s) = original_allocators s"
  by (simp_all add: opened_def) (simp_all add: emit_def init_frame_cache_def)

definition announced_start :: "moment \<Rightarrow> 'a core_state_scheme \<Rightarrow> 'a core_state_scheme" where
  "announced_start M s = (opened (conf s) s)\<lparr>where_thread := True,
     calls := calls (opened (conf s) s) @ start_calls (conf s) (ev_pid (mo_environ M))\<rparr>"

lemma start_sampler_form:
  assumes "start_sampler M s = Some (r, s')" "mo_output_opens M" "\<not> where_mode (conf s)"
  shows "r = Py_Return_None"
    "s' = (if memory_mode (conf s) then setup_memory (announced_start M s) else announced_start M s)"
proof -
  have "start_sampler M s
      = Some (Py_Return_None, if memory_mode (conf s) then setup_memory (announced_start M s) else announced_start M s)"
    using assms(2,3) unfolding start_sampler_def Let_def opened_def [symmetric]
    by (simp add: fold_emit announced_start_def)
  then show "r = Py_Return_None"
    "s' = (if memory_mode (conf s) then setup_memory (announced_start M s) else announced_start M s)"
    using assms(1) by simp_all
qed

lemma start_sampler_stream:
  assumes "start_sampler M s = Some (r, s')" "mo_output_opens M" "\<not> where_mode (conf s)"
  shows "calls s' = calls s @ R_open # start_calls (conf s) (ev_pid (mo_environ M))"
    "string_table s' = string_table s" "frame_heap s' = frame_heap s" "next_frame s' = next_frame s"
    "frame_cache s' = Some (lru_new (CACHE_MAX_ENTRIES * (1 + (if native (conf s) then 1 else 0))))"
    "greenlet_info_map s' = greenlet_info_map s"
  by (simp_all add: start_sampler_form [OF assms] announced_start_def)

lemma start_calls_closed:
  "refs_ok {} {} (start_calls C pid)" "string_keys (start_calls C pid) = presets" "frame_keys (start_calls C pid) = {}"
  by (auto simp: start_calls_def presets_def INVALID_def UNKNOWN_def)

lemma start_sampler_upheld:
  assumes "start_sampler M s = Some (r, s')" "mo_output_opens M" "\<not> where_mode (conf s)" "unused s"
  shows "upheld s' s'"
proof -
  note st = start_sampler_stream [OF assms(1-3)]
  define cap where "cap = CACHE_MAX_ENTRIES * (1 + (if native (conf s) then 1 else 0 :: nat))"
  have cap: "0 < cap" and cache: "frame_cache s' = Some (lru_new cap)"
    using st(5) by (simp_all add: cap_def CACHE_MAX_ENTRIES_def)
  have "refs_ok presets {} (calls s')"
    using assms(4) by (simp add: st(1) unused_def start_calls_def)
  then have "frames_ok s'"
    using assms(4) lru_new_ok [OF cap]
    by (simp add: cache st(2,3) unused_def frames_ok_def announced_def cache_owns_def
        cache_entries_def) (auto simp: StringTable_new_def presets_def INVALID_def UNKNOWN_def C_FRAME_def)
  then show ?thesis
    using assms(4) st(6) by (simp add: upheld_def unused_def greenlets_named_def)
qed

text \<open>The reachable states of a session that starts in \<open>s0\<close>.\<close>

inductive session :: "core_state \<Rightarrow> core_state \<Rightarrow> bool" for s0 where
  opened: "unused s0 \<Longrightarrow> \<not> where_mode (conf s0) \<Longrightarrow> mo_output_opens M \<Longrightarrow> start_sampler M s0 = Some (r, s)
    \<Longrightarrow> session s0 s"
| step: "session s0 s \<Longrightarrow> session_step s s' \<Longrightarrow> session s0 s'"

lemma session_start:
  assumes "session s0 s"
  obtains M r s1 where "unused s0" "\<not> where_mode (conf s0)" "mo_output_opens M" "start_sampler M s0 = Some (r, s1)"
    "upheld s1 s"
  using assms
proof (induction arbitrary: thesis rule: session.induct)
  case (opened M r s)
  then show ?case
    using start_sampler_upheld by blast
next
  case (step s s')
  then show ?case
    using session_step_upheld by metis
qed

section \<open>Stopping\<close>

lemma setup_memory_allocators:
  "allocators (setup_memory s) i = (if i < 3 then Echion i else allocators s i)"
  "original_allocators (setup_memory s) i = (if i < 3 then allocators s i else original_allocators s i)"
  by (auto simp: setup_memory_def ALLOC_DOMAIN_COUNT_def upt_rec setup_domain_def less_Suc_eq numeral_3_eq_3)

lemma start_sampler_allocators:
  assumes "start_sampler M s = Some (r, s')" "mo_output_opens M" "\<not> where_mode (conf s)" "i < 3"
  shows "allocators s' i = (if memory_mode (conf s) then Echion i else allocators s i)"
    "original_allocators s' i = (if memory_mode (conf s) then allocators s i else original_allocators s i)"
  using assms start_sampler_form [OF assms(1-3)]
  by (auto simp: setup_memory_allocators announced_start_def)

lemma restore_domains:
  "fold restore_domain [0..<3] s
     = s\<lparr>allocators := (\<lambda>i. if i < 3 then original_allocators s i else allocators s i)\<rparr>"
  by (auto simp: upt_rec restore_domain_def fun_eq_iff less_Suc_eq numeral_3_eq_3)

lemma teardown_memory_form:
  assumes "teardown_memory V pid s = Some s'"
  obtains cs where "s' = s\<lparr>calls := calls s @ cs, stack_stats := [], stacks := Map.empty, memory_table := [],
      allocators := (\<lambda>i. if i < 3 then original_allocators s i else allocators s i)\<rparr>"
proof -
  define t where "t = fold restore_domain [0..<ALLOC_DOMAIN_COUNT] s"
  have t: "t = s\<lparr>allocators := (\<lambda>i. if i < 3 then original_allocators s i else allocators s i)\<rparr>"
    unfolding t_def ALLOC_DOMAIN_COUNT_def by (rule restore_domains)
  obtain u where u: "stats_flush V pid t = Some u"
    "s' = (stats_clear u)\<lparr>stacks := stack_table_clear (stacks (stats_clear u)), memory_table := []\<rparr>"
    using assms by (auto simp: teardown_memory_def t_def [symmetric] bind_eq_Some_iff Let_def)
  from u(1) obtain cs ms where "u = t\<lparr>calls := calls t @ cs, stack_stats := ms\<rparr>"
    by (auto simp: stats_flush_def flush_loop_calls split: if_splits)
  then show ?thesis
    using that [of cs] u(2) by (simp add: t stats_clear_def stack_table_clear_def)
qed

text \<open>The state a session leaves behind: \<open>cs\<close> is what memory mode still reports.\<close>

lemma stop_sampler_form:
  assumes "stop_sampler M s = Some s'"
  obtains cs where "calls s' = calls s @ cs @ [R_close]" "string_table s' = Map.empty" "thread_info_map s' = []"
    "\<not> where_thread s'" "frame_cache s' = None" "greenlet_info_map s' = greenlet_info_map s"
    "frame_heap s' = (\<lambda>n. if n \<in> snd ` set (cache_entries s) then None else frame_heap s n)"
    "allocators s' = (\<lambda>i. if memory_mode (conf s) \<and> i < 3 then original_allocators s i else allocators s i)"
proof -
  obtain cs t where t: "(if memory_mode (conf s) then teardown_memory (ev_version (mo_environ M)) (ev_pid (mo_environ M)) s
        else Some s) = Some t"
    and s': "s' = reset_frame_cache (emit R_close (restore_signals
        (t\<lparr>thread_info_map := [], string_table := Map.empty, where_thread := False\<rparr>)))"
    and form: "calls t = calls s @ cs" "frame_heap t = frame_heap s" "frame_cache t = frame_cache s"
      "greenlet_info_map t = greenlet_info_map s"
      "allocators t = (\<lambda>i. if memory_mode (conf s) \<and> i < 3 then original_allocators s i else allocators s i)"
  proof (cases "memory_mode (conf s)")
    case True
    then obtain t where t: "teardown_memory (ev_version (mo_environ M)) (ev_pid (mo_environ M)) s = Some t"
      "s' = reset_frame_cache (emit R_close (restore_signals
        (t\<lparr>thread_info_map := [], string_table := Map.empty, where_thread := False\<rparr>)))"
      using assms by (auto simp: stop_sampler_def)
    from t(1) obtain cs where "t = s\<lparr>calls := calls s @ cs, stack_stats := [], stacks := Map.empty, memory_table := [],
        allocators := (\<lambda>i. if i < 3 then original_allocators s i else allocators s i)\<rparr>"
      by (rule teardown_memory_form)
    then show ?thesis
      using that [of t cs] t True by simp
  next
    case False
    then show ?thesis
      using that [of s "[]"] assms by (simp add: stop_sampler_def)
  qed
  define u where "u = emit R_close (restore_signals
      (t\<lparr>thread_info_map := [], string_table := Map.empty, where_thread := False\<rparr>))"
  have u: "calls u = calls t @ [R_close]" "string_table u = Map.empty" "thread_info_map u = []" "\<not> where_thread u"
    "frame_cache u = frame_cache t" "greenlet_info_map u = greenlet_info_map t" "frame_heap u = frame_heap t"
    "allocators u = allocators t"
    by (simp_all add: u_def restore_signals_def Let_def) (simp_all add: emit_def)
  show ?thesis
  proof (rule that [of cs])
    show "frame_heap s' = (\<lambda>n. if n \<in> snd ` set (cache_entries s) then None else frame_heap s n)"
      using u form by (auto simp: s' u_def [symmetric] reset_frame_cache_def cache_entries_def split: option.split)
  qed (use u form in \<open>auto simp: s' u_def [symmetric] reset_frame_cache_def split: option.split\<close>)
qed

section \<open>A module to start with\<close>

definition start_core :: "bool \<Rightarrow> core_state" where
  "start_core mem = memory_state.extend (start_memory\<lparr>greenlet_info_map := []\<rparr>)
     (core_state.fields (default_config\<lparr>memory_mode := mem\<rparr>) False None [] False 0 SIG_DFL SIG_DFL
        \<lparr>wh_output = [], wh_cerr = []\<rparr>)"

definition sample_moment :: moment where
  "sample_moment = \<lparr>mo_environ = sample_environ V39 two_frames, mo_clock = Clock_time 1 0, mo_maxrss = 0,
     mo_interp_head = 0, mo_garbage = 0, mo_output_opens = True, mo_pipe_opens = False\<rparr>"

lemma start_core_simps [simp]:
  "string_table (start_core mem) = StringTable_new" "calls (start_core mem) = []"
  "frame_heap (start_core mem) = Map.empty" "greenlet_info_map (start_core mem) = []"
  "allocators (start_core mem) = (\<lambda>i. Original i)" "original_allocators (start_core mem) = (\<lambda>_. No_allocator)"
  "conf (start_core mem) = default_config\<lparr>memory_mode := mem\<rparr>" "stack_stats (start_core mem) = []"
  "where_stream (start_core mem) = \<lparr>wh_output = [], wh_cerr = []\<rparr>"
  by (simp_all add: start_core_def start_memory_def start_threads_def start_greenlets_def start_state_def
      init_frame_cache_def frames_state.defs greenlets_state.defs threads_state.defs memory_state.defs core_state.defs)

lemma sample_session:
  obtains s where "session (start_core mem) s" "conf s = default_config\<lparr>memory_mode := mem\<rparr>"
    "stack_stats s = []" "string_table s = StringTable_new"
    "calls s = R_open # start_calls (default_config\<lparr>memory_mode := mem\<rparr>) 42"
proof -
  define s where "s = (if mem then setup_memory (announced_start sample_moment (start_core mem))
    else announced_start sample_moment (start_core mem))"
  have run: "start_sampler sample_moment (start_core mem) = Some (Py_Return_None, s)"
    unfolding start_sampler_def Let_def opened_def [symmetric]
    by (simp add: fold_emit announced_start_def s_def sample_moment_def default_config_def)
  have "session (start_core mem) s"
    by (rule session.opened [OF _ _ _ run])
      (simp_all add: unused_def sample_moment_def default_config_def)
  moreover have "stack_stats (announced_start sample_moment (start_core mem)) = stack_stats (start_core mem)"
    by (simp add: announced_start_def opened_def install_signals_def Let_def) (simp add: emit_def init_frame_cache_def)
  then have "stack_stats s = []"
    by (cases mem) (simp_all add: s_def setup_memory_def ALLOC_DOMAIN_COUNT_def upt_rec setup_domain_def)
  moreover have "conf s = default_config\<lparr>memory_mode := mem\<rparr>" "string_table s = StringTable_new"
    by (simp_all add: s_def announced_start_def) (simp_all add: setup_memory_def ALLOC_DOMAIN_COUNT_def upt_rec setup_domain_def)
  moreover have "calls s = R_open # start_calls (default_config\<lparr>memory_mode := mem\<rparr>) 42"
    by (simp add: s_def announced_start_def sample_moment_def sample_environ_def)
  ultimately show ?thesis
    using that by blast
qed

text \<open>The program then tracks a greenlet whose name is new.\<close>

lemma sample_tracked:
  obtains s where "session (start_core False) s" "string_table s 196608 = Some ''f''"
    "conf s = default_config\<lparr>memory_mode := False\<rparr>"
    "calls s = R_open # start_calls (default_config\<lparr>memory_mode := False\<rparr>) 42 @ [R_string 196608 ''f'']"
proof -
  obtain s where s: "session (start_core False) s" "conf s = default_config\<lparr>memory_mode := False\<rparr>"
    "string_table s = StringTable_new" "calls s = R_open # start_calls (default_config\<lparr>memory_mode := False\<rparr>) 42"
    by (rule sample_session)
  obtain s' where call: "exec_call sample_moment (Track_greenlet 7 196608 65536 11) s = (Py_Return_None, s')"
    and s': "string_table s' 196608 = Some ''f''" "conf s' = conf s" "calls s' = calls s @ [R_string 196608 ''f'']"
    using s(3) by (simp add: track_greenlet_def string_key_def two_frames_name sample_moment_def StringTable_new_def
        INVALID_def UNKNOWN_def intern_new_def) (simp add: emit_def)
  have "session (start_core False) s'"
    by (rule session.step [OF s(1) session_step.call [OF call]])
  then show ?thesis
    by (rule that) (simp_all add: s' s(2,4))
qed

section \<open>Properties\<close>

lemma session_calls:
  assumes "session s0 s"
  obtains pid cs where "calls s = R_open # start_calls (conf s0) pid @ cs" "list_all sampling_call cs"
    "frames_ok s" "greenlets_named s"
proof -
  from assms obtain M r s1 where s1: "unused s0" "\<not> where_mode (conf s0)" "mo_output_opens M"
    "start_sampler M s0 = Some (r, s1)" and up: "upheld s1 s"
    by (rule session_start)
  obtain cs where cs: "calls s = calls s1 @ cs" "list_all sampling_call cs"
    using up by (auto simp: upheld_def)
  show ?thesis
    by (rule that [OF _ cs(2) upheldD [OF up]])
      (use cs(1) start_sampler_stream(1) [OF s1(4,3,2)] s1(1) in \<open>simp add: unused_def\<close>)
qed

lemma session_strings_sent:
  assumes "session s0 s" "string_table s k = Some str"
  shows "R_string k str \<in> set (calls s)"
proof (cases "k \<in> presets")
  case True
  from assms(1) obtain M r s1 where s1: "unused s0" "\<not> where_mode (conf s0)" "mo_output_opens M"
    "start_sampler M s0 = Some (r, s1)" and up: "upheld s1 s"
    by (rule session_start)
  have "string_table s1 = StringTable_new"
    using start_sampler_stream(2) [OF s1(4,3,2)] s1(1) by (simp add: unused_def)
  then have "StringTable_new k = Some str"
    using True up assms(2) by (auto simp: upheld_def map_le_def presets_def StringTable_new_def INVALID_def UNKNOWN_def)
  then have "R_string k str \<in> set (start_calls (conf s0) pid)" for pid
    using True by (auto simp: start_calls_def presets_def StringTable_new_def INVALID_def UNKNOWN_def)
  then show ?thesis
    using session_calls [OF assms(1)] by (metis Un_iff list.set_intros(2) set_append)
next
  case False
  have "announced s"
    by (rule session_calls [OF assms(1)]) (simp add: frames_ok_def)
  with False assms(2) show ?thesis
    by (auto simp: announced_def)
qed

text \<open>C1: the stream of a session is closed. Whatever memory holds and whatever the program does in
  the session, in sampling mode as in memory mode, what is sent after the output has been
  opened begins with the header and the three strings of the string table. From then on the
  output is neither closed nor opened nor given a header again, every frame is announced after
  its strings and every sample names only frames that have been announced; every string the
  module knows has been sent.\<close>

theorem session_stream_closed:
  assumes "session s0 s"
  shows "\<exists>pid cs. calls s = R_open # start_calls (conf s0) pid @ cs
    \<and> list_all sampling_call cs \<and> refs_ok {} {} (start_calls (conf s0) pid @ cs)
    \<and> (\<forall>k str. string_table s k = Some str \<longrightarrow> R_string k str \<in> set (calls s))"
proof -
  from assms obtain pid cs where cs: "calls s = R_open # start_calls (conf s0) pid @ cs" "list_all sampling_call cs"
    and ok: "frames_ok s"
    by (rule session_calls)
  have "refs_ok presets {} (calls s)"
    using ok by (simp add: frames_ok_def)
  then have "refs_ok {} {} (start_calls (conf s0) pid @ cs)"
    by (simp add: cs(1) refs_ok_append start_calls_closed)
  with cs session_strings_sent [OF assms] show ?thesis
    by blast
qed

theorem session_stream_closed_witness:
  "\<exists>s. session (start_core False) s \<and> (\<exists>cs. calls s = R_open # cs \<and> refs_ok {} {} cs \<and> R_string 196608 ''f'' \<in> set cs)"
proof -
  obtain s where run: "session (start_core False) s" and str: "string_table s 196608 = Some ''f''"
    by (rule sample_tracked)
  from session_stream_closed [OF run] obtain pid cs where
    "calls s = R_open # start_calls (conf (start_core False)) pid @ cs"
    "refs_ok {} {} (start_calls (conf (start_core False)) pid @ cs)" "R_string 196608 ''f'' \<in> set (calls s)"
    using str by blast
  then show ?thesis
    using run by auto
qed

text \<open>C9: the state of a session is well formed. The frame cache never keeps more than 2048 frames
  alive, twice that in native mode, whatever is sampled; every frame alive is announced and
  its names are in the string table, so is the name of every greenlet that is tracked.\<close>

theorem session_state_wellformed:
  assumes "session s0 s"
  shows "finite (dom (frame_heap s))
    \<and> card (dom (frame_heap s)) \<le> (if native (conf s0) then 2 * CACHE_MAX_ENTRIES else CACHE_MAX_ENTRIES)
    \<and> (\<forall>n f. frame_heap s n = Some f \<longrightarrow> names_interned f s \<and> cache_key f \<in> frame_keys (calls s))
    \<and> (\<forall>g \<in> snd ` set (greenlet_info_map s). string_table s (gr_name g) \<noteq> None)"
proof -
  from assms obtain M r s1 where s1: "unused s0" "\<not> where_mode (conf s0)" "mo_output_opens M"
    "start_sampler M s0 = Some (r, s1)" and up: "upheld s1 s"
    by (rule session_start)
  note ok = upheldD [OF up]
  have cap: "cache_cap s = (if native (conf s0) then 2 * CACHE_MAX_ENTRIES else CACHE_MAX_ENTRIES)"
    using up start_sampler_stream(5) [OF s1(4,3,2)] by (simp add: upheld_def cache_cap_def)
  have dom: "dom (frame_heap s) = snd ` set (cache_entries s)"
    by (rule frames_ok_dom [OF ok(1)])
  have "length (cache_entries s) \<le> cache_cap s"
    using ok(1) by (auto simp: frames_ok_def cache_owns_def cache_entries_def cache_cap_def lru_ok_def lru_abs_def
        split: option.splits)
  then have "card (dom (frame_heap s)) \<le> cache_cap s"
    unfolding dom by (metis card_image_le card_length finite_set order_trans)
  moreover have "cache_key f \<in> frame_keys (calls s)" if f: "frame_heap s n = Some f" for n f
  proof -
    obtain k where "(k, n) \<in> set (cache_entries s)"
      using f dom by (metis (no_types, lifting) domI imageE prod.collapse)
    then show ?thesis
      using ok(1) f by (force simp: frames_ok_def cache_owns_def)
  qed
  ultimately show ?thesis
    using ok unfolding cap [symmetric] by (simp add: dom frames_ok_def greenlets_named_def)
qed

theorem session_state_wellformed_witness:
  "\<exists>s. session (start_core True) s \<and> card (dom (frame_heap s)) \<le> CACHE_MAX_ENTRIES"
proof -
  obtain s where "session (start_core True) s"
    by (rule sample_session)
  from this session_state_wellformed [OF this] show ?thesis
    by (auto simp: default_config_def)
qed

text \<open>C25: stopping leaves no trace of what was sampled: every frame is destroyed and the stream is
  still closed and ends with the close of the output. But the string table is left without
  the entries it was made with, and the greenlets stay tracked although their names are
  gone: until a name happens to be interned again, a sample of one ends in an error.\<close>

theorem stop_sampler_effect:
  assumes "session s0 s" "stop_sampler M s = Some s'"
  shows "frame_heap s' = Map.empty \<and> frame_cache s' = None \<and> thread_info_map s' = [] \<and> \<not> where_thread s'
    \<and> (\<exists>cs. calls s' = calls s @ cs @ [R_close])
    \<and> string_lookup INVALID s' = Inl LookupError
    \<and> greenlet_info_map s' = greenlet_info_map s
    \<and> (\<forall>E C iid name delta i is. sample_infos E C iid name delta (i # is) s' = Some (Inl ThreadInfoError, s'))"
proof -
  from assms(1) obtain M0 r s1 where "upheld s1 s"
    by (rule session_start)
  then have dom: "dom (frame_heap s) = snd ` set (cache_entries s)"
    using frames_ok_dom upheldD(1) by blast
  from assms(2) obtain cs where st: "calls s' = calls s @ cs @ [R_close]" "string_table s' = Map.empty"
    "thread_info_map s' = []" "\<not> where_thread s'" "frame_cache s' = None" "greenlet_info_map s' = greenlet_info_map s"
    "frame_heap s' = (\<lambda>n. if n \<in> snd ` set (cache_entries s) then None else frame_heap s n)"
    by (rule stop_sampler_form)
  have "frame_heap s' = Map.empty"
    using dom by (auto simp: st(7) fun_eq_iff)
  then show ?thesis
    using st by (auto simp: string_lookup_def)
qed

theorem stop_sampler_effect_witness:
  "\<exists>s s'. session (start_core False) s \<and> stop_sampler sample_moment s = Some s' \<and> string_lookup INVALID s' = Inl LookupError"
proof -
  obtain s where s: "session (start_core False) s" "conf s = default_config\<lparr>memory_mode := False\<rparr>"
    by (rule sample_session)
  then obtain s' where "stop_sampler sample_moment s = Some s'"
    by (simp add: stop_sampler_def)
  with s(1) stop_sampler_effect [OF s(1) this] show ?thesis
    by blast
qed

text \<open>C22: what a session leaves the interpreter as its allocators. With the same memory mode at
  start and stop they are those from before. But the mode can be changed in between: turned
  off, the profiler's allocators stay installed after it has stopped and torn down its frame
  cache; turned on, the interpreter is given what was saved before this session, which is
  nothing if memory mode was never used.\<close>

theorem session_allocators:
  assumes "session s0 s" "stop_sampler M s = Some s'" "i < 3"
  shows "allocators s' i =
    (if memory_mode (conf s0) then (if memory_mode (conf s) then allocators s0 i else Echion i)
     else (if memory_mode (conf s) then original_allocators s0 i else allocators s0 i))"
proof -
  from assms(1) obtain M0 r s1 where s1: "unused s0" "\<not> where_mode (conf s0)" "mo_output_opens M0"
    "start_sampler M0 s0 = Some (r, s1)" and up: "upheld s1 s"
    by (rule session_start)
  have "allocators s = allocators s1" "original_allocators s = original_allocators s1"
    using up by (simp_all add: upheld_def)
  moreover from assms(2) have
    "allocators s' = (\<lambda>i. if memory_mode (conf s) \<and> i < 3 then original_allocators s i else allocators s i)"
    by (rule stop_sampler_form)
  ultimately show ?thesis
    using start_sampler_allocators [OF s1(4,3,2) assms(3)] assms(3) by simp
qed

theorem session_allocators_witness:
  "(\<exists>s s'. session (start_core True) s \<and> stop_sampler sample_moment s = Some s'
      \<and> frame_cache s' = None \<and> allocators s' 0 = Echion 0)
   \<and> (\<exists>s s'. session (start_core False) s \<and> stop_sampler sample_moment s = Some s' \<and> allocators s' 0 = No_allocator)"
proof
  obtain s where s: "session (start_core True) s" "conf s = default_config\<lparr>memory_mode := True\<rparr>"
    by (rule sample_session)
  have off: "session (start_core True) (set_memory False s)"
    by (rule session.step [OF s(1) session_step.call [of sample_moment "Set_memory False" _ Py_Return_None]]) simp
  obtain s' where run: "stop_sampler sample_moment (set_memory False s) = Some s'" "frame_cache s' = None"
  proof -
    have "stop_sampler sample_moment (set_memory False s) \<noteq> None"
      by (simp add: stop_sampler_def set_memory_def)
    then obtain s' where "stop_sampler sample_moment (set_memory False s) = Some s'"
      by blast
    moreover from this have "frame_cache s' = None"
      by (rule stop_sampler_form)
    ultimately show ?thesis
      by (rule that)
  qed
  show "\<exists>s s'. session (start_core True) s \<and> stop_sampler sample_moment s = Some s'
      \<and> frame_cache s' = None \<and> allocators s' 0 = Echion 0"
    using off run session_allocators [OF off run(1), of 0] by (auto simp: set_memory_def)
next
  obtain s where s: "session (start_core False) s" "stack_stats s = []"
    by (rule sample_session)
  have on: "session (start_core False) (set_memory True s)"
    by (rule session.step [OF s(1) session_step.call [of sample_moment "Set_memory True" _ Py_Return_None]]) simp
  obtain s' where "stop_sampler sample_moment (set_memory True s) = Some s'"
    using s(2) by (simp add: stop_sampler_def set_memory_def teardown_memory_def ALLOC_DOMAIN_COUNT_def restore_domains
        stats_flush_def Let_def)
  from on this session_allocators [OF on this, of 0] show "\<exists>s s'. session (start_core False) s
      \<and> stop_sampler sample_moment s = Some s' \<and> allocators s' 0 = No_allocator"
    by (auto simp: set_memory_def)
qed

section \<open>A round\<close>

text \<open>C11: a round of sampling is the obvious one. There is an order of the thread states of each
  interpreter, each state that can be reached from its head occurring once, that does not depend
  on what is found, and the round visits the interpreters of the list one by one and samples
  their threads in that order: the sets of the walk, circles among the threads and samples
  that end in an error change nothing. It returns if the single samples do.\<close>

theorem sample_all_visits:
  assumes "moment_ok M" "interp_chain (ev_remote (mo_environ M)) (mo_interp_head M) is"
  shows "\<exists>order. (\<forall>i. distinct (order i) \<and> set (order i) = {a. linked (ev_remote (mo_environ M)) (ii_tstate_head i) a})
    \<and> (\<forall>s :: core_state. sample_all M wall_time s
        = visit_interps (\<lambda>i. visit_all (ev_remote (mo_environ M)) (visit_thread (mo_environ M) (mo_garbage M)
            (\<lambda>tstate th s. map_option snd (sample (mo_environ M) (conf s) (ii_id i) tstate wall_time th s))) (order i)) is s)
    \<and> ((\<forall>i t th (s :: core_state). sample (mo_environ M) (conf s) i t wall_time th s \<noteq> None) \<longrightarrow> (\<forall>s :: core_state. sample_all M wall_time s \<noteq> None))"
proof -
  let ?callback = "\<lambda>i tstate th (s :: core_state). map_option snd (sample (mo_environ M) (conf s) (ii_id i) tstate wall_time th s)"
  let ?visit = "\<lambda>i. visit_thread (mo_environ M) (mo_garbage M) (?callback i)"
  have "\<And>xs. mset (ev_hash_order (mo_environ M) xs) = mset xs"
    using assms(1) by (simp add: moment_ok_def environ_ok_def)
  from walk_order [OF this assms(2), of "mo_garbage M" ?callback] obtain order where
    order: "\<forall>i. distinct (order i) \<and> set (order i) = {a. linked (ev_remote (mo_environ M)) (ii_tstate_head i) a}"
    and walk: "\<forall>s :: core_state. for_each_interp (ev_remote (mo_environ M)) (mo_interp_head M)
        (\<lambda>i. for_each_thread (mo_environ M) (mo_garbage M) (ii_tstate_head i) (?callback i)) s
      = visit_interps (\<lambda>i. visit_all (ev_remote (mo_environ M)) (?visit i) (order i)) is s"
    by (elim exE conjE) (rule that)
  have eq: "sample_all M wall_time s
      = visit_interps (\<lambda>i. visit_all (ev_remote (mo_environ M)) (?visit i) (order i)) is s" for s :: core_state
    unfolding sample_all_def by (rule walk [rule_format])
  have "sample_all M wall_time s \<noteq> None"
    if total: "\<forall>i t th (s :: core_state). sample (mo_environ M) (conf s) i t wall_time th s \<noteq> None" for s :: core_state
  proof -
    have "?visit i t u \<noteq> None" for i t and u :: core_state
      using total by (simp add: visit_thread_def del: not_None_eq split: option.split prod.split)
    then show ?thesis
      unfolding eq by (intro visit_interps_total visit_all_total)
  qed
  with order eq show ?thesis
    by (intro exI [of _ order] conjI allI impI) simp_all
qed

text \<open>Two interpreters with the same circle of threads.\<close>

definition busy_moment :: moment where
  "busy_moment = sample_moment\<lparr>mo_environ := sample_environ V39
     (two_threads\<lparr>rd_interp_id := rd_interp_id (two_interps True), rd_interp_next := rd_interp_next (two_interps True),
        rd_interp_threads := (\<lambda>_. Some 8192)\<rparr>), mo_interp_head := 8192\<rparr>"

lemma busy_interps:
  "interp_chain (ev_remote (mo_environ busy_moment)) 8192
     [\<lparr>ii_id = 0, ii_tstate_head = 8192, ii_next = 16384\<rparr>, \<lparr>ii_id = 1, ii_tstate_head = 8192, ii_next = 0\<rparr>]"
  by (intro interp_chain.intros)
    (simp_all add: read_interp_def busy_moment_def two_interps_def two_threads_def no_memory_def copy_type_def interp_chain.last)

theorem sample_all_visits_witness:
  "\<exists>order. (\<forall>i. distinct (order i)) \<and> (\<forall>i. ii_tstate_head i = 8192 \<longrightarrow> set (order i) = {8192, 16384, 24576})
    \<and> (\<forall>s :: core_state. sample_all busy_moment 5 s
        = visit_interps (\<lambda>i. visit_all (ev_remote (mo_environ busy_moment)) (visit_thread (mo_environ busy_moment) 0
            (\<lambda>tstate th s. map_option snd (sample (mo_environ busy_moment) (conf s) (ii_id i) tstate 5 th s))) (order i))
            [\<lparr>ii_id = 0, ii_tstate_head = 8192, ii_next = 16384\<rparr>, \<lparr>ii_id = 1, ii_tstate_head = 8192, ii_next = 0\<rparr>] s)"
proof -
  have "moment_ok busy_moment" and m: "mo_interp_head busy_moment = 8192" "mo_garbage busy_moment = 0"
    by (simp_all add: busy_moment_def sample_moment_def moment_ok_def environ_ok_def sample_environ_def)
  from sample_all_visits [OF this(1), unfolded m, OF busy_interps, of 5]
  obtain order where order: "\<forall>i. distinct (order i)
        \<and> set (order i) = {a. linked (ev_remote (mo_environ busy_moment)) (ii_tstate_head i) a}"
    and walk: "\<forall>s :: core_state. sample_all busy_moment 5 s
        = visit_interps (\<lambda>i. visit_all (ev_remote (mo_environ busy_moment)) (visit_thread (mo_environ busy_moment) 0
            (\<lambda>tstate th s. map_option snd (sample (mo_environ busy_moment) (conf s) (ii_id i) tstate 5 th s))) (order i))
            [\<lparr>ii_id = 0, ii_tstate_head = 8192, ii_next = 16384\<rparr>, \<lparr>ii_id = 1, ii_tstate_head = 8192, ii_next = 0\<rparr>] s"
    by (elim exE conjE) (rule that)
  have same: "rd_tstate (ev_remote (mo_environ busy_moment)) = rd_tstate two_threads"
    by (simp add: busy_moment_def)
  have "{a. linked (ev_remote (mo_environ busy_moment)) 8192 a} = {8192, 16384, 24576}"
    unfolding linked_same [OF same] by (rule two_threads_linked)
  with order walk show ?thesis
    by (intro exI [of _ order] conjI allI impI) simp_all
qed

section \<open>Where reports\<close>

definition report_frames :: "py_version \<Rightarrow> frame_stack \<Rightarrow> 'a frames_state_scheme \<Rightarrow> frame list" where
  "report_frames V stack s =
     filter (\<lambda>f. \<not> (V312 \<le> V \<and> is_entry f)) (map (\<lambda>ref. the (deref ref s)) (rev stack))"

lemma render_refs_fold:
  "live (set refs) s \<Longrightarrow> render_refs V visit refs s w
     = Some (fold visit (filter (\<lambda>f. \<not> (V312 \<le> V \<and> is_entry f)) (map (\<lambda>ref. the (deref ref s)) refs)) w)"
  by (induction refs arbitrary: w) (auto simp: live_def)

lemma where_stream_fields [simp]:
  "where_render_frame (s\<lparr>where_stream := w\<rparr>) = where_render_frame s"
  "deref ref (s\<lparr>where_stream := w\<rparr>) = deref ref s" "live A (s\<lparr>where_stream := w\<rparr>) = live A s"
proof -
  show d: "deref ref (s\<lparr>where_stream := w\<rparr>) = deref ref s" for ref
    by (cases ref) simp_all
  have "string_lookup k (s\<lparr>where_stream := w\<rparr>) = string_lookup k s" for k
    by (simp add: string_lookup_def)
  then show "where_render_frame (s\<lparr>where_stream := w\<rparr>) = where_render_frame s"
    by (simp add: where_render_frame_def fun_eq_iff cong: sum.case_cong)
  show "live A (s\<lparr>where_stream := w\<rparr>) = live A s"
    by (simp add: live_def d)
qed

text \<open>C26: the report of a thread in where mode, outside native mode: its name, then the frames of its
  Python stack from the outermost in, then an empty line. The stream of samples gets no stack.
  The stacks of tasks and greenlets that unwinding has gathered are not printed, and they
  stay where the next sample, of whatever thread, will find them.\<close>

theorem where_report_spec:
  assumes "unwind E (conf s) tstate th s = Some u" "\<not> native (conf u)" "live (set (python_stack u)) u"
  shows "\<exists>s'. where_thread_report E tstate th s = Some (th, s')
    \<and> where_stream s' = where_render_message [] (fold (where_render_frame u)
        (report_frames (ev_version E) (python_stack u) u) (where_thread_begin (th_name th) (where_stream u)))
    \<and> calls s' = calls u \<and> current_tasks s' = current_tasks u \<and> current_greenlets s' = current_greenlets u"
proof -
  define v where "v = u\<lparr>where_stream := where_thread_begin (th_name th) (where_stream u)\<rparr>"
  have "live (set (rev (python_stack u))) v"
    using assms(3) by (simp add: v_def)
  from render_refs_fold [OF this, of "ev_version E" "where_render_frame v"]
  have "stack_render_where (ev_version E) (python_stack v) v w
      = Some (fold (where_render_frame u) (report_frames (ev_version E) (python_stack u) u) w)" for w
    by (simp add: stack_render_where_def report_frames_def v_def)
  then show ?thesis
    using assms(1,2) by (simp add: where_thread_report_def v_def [symmetric] Let_def)
      (simp add: v_def where_message_def)
qed

lemma sample_where:
  obtains u where "unwind (sample_environ V39 two_frames) (conf (start_core False)) (thread_at 0) (a_thread 0)
      (start_core False) = Some u"
    "\<not> native (conf u)" "python_stack u = []" "where_stream u = \<lparr>wh_output = [], wh_cerr = []\<rparr>"
proof -
  have "unwind (sample_environ V39 two_frames) (conf (start_core False)) (thread_at 0) (a_thread 0)
      (start_core False) = Some ((start_core False)\<lparr>python_stack := []\<rparr>)"
    by (simp add: unwind_def default_config_def unwind_python_stack_def update_stack_chunk_def py_version_order
        thread_at_def unwind_frame_def unwind_frame_loop_stop a_thread_def unwind_greenlets_def Let_def)
  then show ?thesis
    using that by (simp add: default_config_def)
qed

theorem where_report_spec_witness:
  "\<exists>s. where_thread_report (sample_environ V39 two_frames) (thread_at 0) (a_thread 0) (start_core False) = Some (a_thread 0, s)
     \<and> wh_output (where_stream s) = ''    '' @ [CHR 0xF0, CHR 0x9F, CHR 0xA7, CHR 0xB5] @ '' t:'' @ newline @ newline"
proof -
  obtain u where u: "unwind (sample_environ V39 two_frames) (conf (start_core False)) (thread_at 0) (a_thread 0)
      (start_core False) = Some u" "\<not> native (conf u)" "python_stack u = []"
    "where_stream u = \<lparr>wh_output = [], wh_cerr = []\<rparr>"
    by (rule sample_where)
  have "live (set (python_stack u)) u"
    by (simp add: u(3) live_def)
  from where_report_spec [OF u(1,2) this] show ?thesis
    by (auto simp: u(3,4) report_frames_def where_thread_begin_def where_render_message_def a_thread_def)
qed

end
