(* ===== verification/Where_Thread.thy ===== *)
theory Where_Thread
  imports Prelude
begin

text \<open>
  The thread of where mode in \<open>echion/coremodule.cc\<close>, the handler of \<open>SIGQUIT\<close> that wakes it
  and the sampler that ends it, one atomic access of the lock, the condition variable or the
  flag at a time. What a report does is \<open>do_where\<close>; here it is one step, under the lock.
\<close>

section \<open>Threads and steps\<close>

text \<open>
  Where \<open>where_listener\<close> is: before it locks, before and in \<open>wait\<close>, notified and about to lock
  again, at the test of \<open>running\<close>, in \<open>do_where\<close>, returned.
\<close>

datatype listener_pc = L_lock | L_wait | L_waiting | L_woken | L_check | L_where | L_exit

text \<open>Where the sampler's thread is: in its loop or before, then in \<open>teardown_where\<close>.\<close>

datatype sampler_pc = S_loop | S_lock | S_notify | S_unlock | S_join | S_done

datatype thread = Listener_thread | Sampler_thread | Other_thread

text \<open>The handler of \<open>SIGQUIT\<close> runs on top of a thread, which it interrupts.\<close>

datatype handler_pc = H_idle | H_lock thread | H_notify thread | H_unlock thread

datatype owner = Free | Held_by_listener | Held_by_sampler | Held_by_handler

record where_state =
  where_lock :: owner
  lpc :: listener_pc
  spc :: sampler_pc
  hpc :: handler_pc
  running_flag :: bool

text \<open>\<open>notify_one\<close> wakes the listener if it waits, and is lost otherwise.\<close>

definition notify_one :: "where_state \<Rightarrow> where_state" where
  "notify_one s = (if lpc s = L_waiting then s\<lparr>lpc := L_woken\<rparr> else s)"

definition interrupted :: "thread \<Rightarrow> where_state \<Rightarrow> bool" where
  "interrupted t s \<longleftrightarrow> hpc s \<in> {H_lock t, H_notify t, H_unlock t}"

inductive listener_step :: "where_state \<Rightarrow> where_state \<Rightarrow> bool" where
  lock: "lpc s = L_lock \<Longrightarrow> where_lock s = Free \<Longrightarrow> listener_step s (s\<lparr>lpc := L_wait, where_lock := Held_by_listener\<rparr>)"
| wait: "lpc s = L_wait \<Longrightarrow> listener_step s (s\<lparr>lpc := L_waiting, where_lock := Free\<rparr>)"
| relock: "lpc s = L_woken \<Longrightarrow> where_lock s = Free \<Longrightarrow> listener_step s (s\<lparr>lpc := L_check, where_lock := Held_by_listener\<rparr>)"
| go: "lpc s = L_check \<Longrightarrow> running_flag s \<Longrightarrow> listener_step s (s\<lparr>lpc := L_where\<rparr>)"
| break: "lpc s = L_check \<Longrightarrow> \<not> running_flag s \<Longrightarrow> listener_step s (s\<lparr>lpc := L_exit, where_lock := Free\<rparr>)"
| report: "lpc s = L_where \<Longrightarrow> listener_step s (s\<lparr>lpc := L_lock, where_lock := Free\<rparr>)"

inductive sampler_thread_step :: "where_state \<Rightarrow> where_state \<Rightarrow> bool" where
  leave: "spc s = S_loop \<Longrightarrow> \<not> running_flag s \<Longrightarrow> sampler_thread_step s (s\<lparr>spc := S_lock\<rparr>)"
| lock: "spc s = S_lock \<Longrightarrow> where_lock s = Free \<Longrightarrow> sampler_thread_step s (s\<lparr>spc := S_notify, where_lock := Held_by_sampler\<rparr>)"
| notify: "spc s = S_notify \<Longrightarrow> sampler_thread_step s ((notify_one s)\<lparr>spc := S_unlock\<rparr>)"
| unlock: "spc s = S_unlock \<Longrightarrow> sampler_thread_step s (s\<lparr>spc := S_join, where_lock := Free\<rparr>)"
| join: "spc s = S_join \<Longrightarrow> lpc s = L_exit \<Longrightarrow> sampler_thread_step s (s\<lparr>spc := S_done\<rparr>)"

inductive handler_step :: "where_state \<Rightarrow> where_state \<Rightarrow> bool" where
  lock: "hpc s = H_lock t \<Longrightarrow> where_lock s = Free \<Longrightarrow> handler_step s (s\<lparr>hpc := H_notify t, where_lock := Held_by_handler\<rparr>)"
| notify: "hpc s = H_notify t \<Longrightarrow> handler_step s ((notify_one s)\<lparr>hpc := H_unlock t\<rparr>)"
| unlock: "hpc s = H_unlock t \<Longrightarrow> handler_step s (s\<lparr>hpc := H_idle, where_lock := Free\<rparr>)"

text \<open>The steps of the program's threads; a thread does not move while the handler runs on it.\<close>

inductive program_step :: "where_state \<Rightarrow> where_state \<Rightarrow> bool" where
  listener: "listener_step s s' \<Longrightarrow> \<not> interrupted Listener_thread s \<Longrightarrow> program_step s s'"
| sampler: "sampler_thread_step s s' \<Longrightarrow> \<not> interrupted Sampler_thread s \<Longrightarrow> program_step s s'"
| handler: "handler_step s s' \<Longrightarrow> program_step s s'"

text \<open>The steps of the environment: \<open>stop\<close> is called, a signal arrives, \<open>wait\<close> returns by itself.\<close>

inductive environment_step :: "where_state \<Rightarrow> where_state \<Rightarrow> bool" where
  stop: "environment_step s (s\<lparr>running_flag := False\<rparr>)"
| signal: "hpc s = H_idle \<Longrightarrow> t = Listener_thread \<longrightarrow> lpc s \<noteq> L_exit \<Longrightarrow> t = Sampler_thread \<longrightarrow> spc s \<noteq> S_done
    \<Longrightarrow> environment_step s (s\<lparr>hpc := H_lock t\<rparr>)"
| spurious: "lpc s = L_waiting \<Longrightarrow> environment_step s (s\<lparr>lpc := L_woken\<rparr>)"

text \<open>\<open>setup_where\<close> has just made the thread.\<close>

definition where_start :: where_state where
  "where_start = \<lparr>where_lock = Free, lpc = L_lock, spc = S_loop, hpc = H_idle, running_flag = True\<rparr>"

inductive where_reach :: "where_state \<Rightarrow> bool" where
  start: "where_reach where_start"
| program: "where_reach s \<Longrightarrow> program_step s s' \<Longrightarrow> where_reach s'"
| environment: "where_reach s \<Longrightarrow> environment_step s s' \<Longrightarrow> where_reach s'"

lemmas where_steps = listener_step.intros sampler_thread_step.intros handler_step.intros

inductive_cases listenerE: "listener_step s s'"
inductive_cases samplerE: "sampler_thread_step s s'"
inductive_cases handlerE: "handler_step s s'"
inductive_cases programE: "program_step s s'"
inductive_cases environmentE: "environment_step s s'"

section \<open>The lock\<close>

text \<open>Who holds the lock is where its holder is, and the flag is down once the sampler has left its loop.\<close>

definition where_inv :: "where_state \<Rightarrow> bool" where
  "where_inv s \<longleftrightarrow>
     (lpc s \<in> {L_wait, L_check, L_where} \<longleftrightarrow> where_lock s = Held_by_listener)
   \<and> (spc s \<in> {S_notify, S_unlock} \<longleftrightarrow> where_lock s = Held_by_sampler)
   \<and> ((\<exists>t. hpc s = H_notify t \<or> hpc s = H_unlock t) \<longleftrightarrow> where_lock s = Held_by_handler)
   \<and> (spc s \<noteq> S_loop \<longrightarrow> \<not> running_flag s)
   \<and> (spc s = S_done \<longrightarrow> lpc s = L_exit)
   \<and> (spc s = S_join \<longrightarrow> lpc s \<noteq> L_where)
   \<and> (lpc s = L_exit \<longrightarrow> \<not> running_flag s)"

lemma listener_inv: "listener_step s s' \<Longrightarrow> where_inv s \<Longrightarrow> where_inv s'"
  by (erule listener_step.cases) (auto simp: where_inv_def)

lemma sampler_inv: "sampler_thread_step s s' \<Longrightarrow> where_inv s \<Longrightarrow> where_inv s'"
  by (erule sampler_thread_step.cases) (auto simp: where_inv_def notify_one_def)

lemma handler_inv: "handler_step s s' \<Longrightarrow> where_inv s \<Longrightarrow> where_inv s'"
  by (erule handler_step.cases) (auto simp: where_inv_def notify_one_def)

lemma program_inv: "program_step s s' \<Longrightarrow> where_inv s \<Longrightarrow> where_inv s'"
  by (erule program_step.cases) (auto intro: listener_inv sampler_inv handler_inv)

lemma environment_inv: "environment_step s s' \<Longrightarrow> where_inv s \<Longrightarrow> where_inv s'"
  by (erule environment_step.cases) (auto simp: where_inv_def)

lemma where_reach_inv: "where_reach s \<Longrightarrow> where_inv s"
proof (induction rule: where_reach.induct)
  case start
  show ?case
    by (simp add: where_inv_def where_start_def)
qed (auto intro: program_inv environment_inv)

section \<open>Properties\<close>

abbreviation any_step :: "where_state \<Rightarrow> where_state \<Rightarrow> bool" where
  "any_step s s' \<equiv> program_step s s' \<or> environment_step s s'"

text \<open>A property that every step keeps holds along a run.\<close>

lemma run_keeps:
  assumes "r\<^sup>*\<^sup>* s t" "P s" "\<And>u v. r u v \<Longrightarrow> P u \<Longrightarrow> P v"
  shows "P t"
  using assms by (induction rule: rtranclp_induct) auto

text \<open>C24: a report is made under the lock, by the listener alone: while it is written neither the
  sampler nor the handler is between taking and releasing the lock, and none is begun once
  the sampler has told the listener to end. But the handler may run on the very thread that
  writes: a \<open>SIGQUIT\<close> that reaches the listener while it holds the lock waits for a lock its
  own thread never releases, so nothing moves the listener again and a stop never returns.\<close>

theorem where_report_exclusive:
  assumes "where_reach s" "lpc s = L_where"
  shows "where_lock s = Held_by_listener \<and> spc s \<in> {S_loop, S_lock} \<and> hpc s \<notin> range H_notify \<union> range H_unlock
    \<and> (hpc s = H_lock Listener_thread \<longrightarrow>
         (\<forall>t. any_step\<^sup>*\<^sup>* s t \<longrightarrow> lpc t = L_where \<and> hpc t = hpc s \<and> spc t \<noteq> S_done))"
proof -
  have inv: "where_inv s"
    using assms(1) by (rule where_reach_inv)
  have "lpc t = L_where \<and> hpc t = hpc s \<and> spc t \<noteq> S_done"
    if "hpc s = H_lock Listener_thread" "any_step\<^sup>*\<^sup>* s t" for t
  proof -
    let ?P = "\<lambda>u. lpc u = L_where \<and> hpc u = H_lock Listener_thread \<and> where_inv u"
    have "?P v" if "any_step u v" "?P u" for u v
    proof -
      have inv: "where_inv v"
        using that program_inv environment_inv by blast
      have lock: "where_lock u = Held_by_listener"
        using that(2) [THEN conjunct1] that(2) [THEN conjunct2, THEN conjunct2] by (simp add: where_inv_def)
      have "lpc v = L_where \<and> hpc v = H_lock Listener_thread"
        using that(1)
      proof
        assume "program_step u v"
        then show ?thesis
          using that(2) lock by (auto simp: interrupted_def notify_one_def elim!: programE samplerE handlerE)
      next
        assume "environment_step u v"
        then show ?thesis
          using that(2) by (auto elim: environmentE)
      qed
      with inv show ?thesis
        by blast
    qed
    then have "?P t"
      using that assms(2) inv by (intro run_keeps [where P = ?P, OF that(2)]) auto
    then show ?thesis
      using that(1) by (auto simp: where_inv_def)
  qed
  moreover have "spc s \<in> {S_loop, S_lock}"
    using inv assms(2) by (cases "spc s") (auto simp: where_inv_def)
  ultimately show ?thesis
    using inv assms(2) by (auto simp: where_inv_def)
qed

text \<open>A report that a signal asked for: the listener waits, the handler on another thread wakes it.\<close>

lemma reporting:
  "where_reach \<lparr>where_lock = Held_by_listener, lpc = L_where, spc = S_loop, hpc = H_idle, running_flag = True\<rparr>"
proof -
  define st where "st = (\<lambda>l p h. \<lparr>where_lock = l, lpc = p, spc = S_loop, hpc = h, running_flag = True\<rparr>)"
  note listen = where_reach.program [OF _ program_step.listener]
  note handle = where_reach.program [OF _ program_step.handler]
  have "where_reach (st Free L_lock H_idle)"
    using where_reach.start by (simp add: st_def where_start_def)
  then have "where_reach (st Held_by_listener L_wait H_idle)"
    by (rule listen) (auto simp: st_def interrupted_def listener_step.simps)
  then have "where_reach (st Free L_waiting H_idle)"
    by (rule listen) (auto simp: st_def interrupted_def listener_step.simps)
  then have "where_reach (st Free L_waiting (H_lock Other_thread))"
    by (rule where_reach.environment) (auto simp: st_def environment_step.simps)
  then have "where_reach (st Held_by_handler L_waiting (H_notify Other_thread))"
    by (rule handle) (auto simp: st_def handler_step.simps)
  then have "where_reach (st Held_by_handler L_woken (H_unlock Other_thread))"
    by (rule handle) (auto simp: st_def handler_step.simps notify_one_def)
  then have "where_reach (st Free L_woken H_idle)"
    by (rule handle) (auto simp: st_def handler_step.simps)
  then have "where_reach (st Held_by_listener L_check H_idle)"
    by (rule listen) (auto simp: st_def interrupted_def listener_step.simps)
  then have "where_reach (st Held_by_listener L_where H_idle)"
    by (rule listen) (auto simp: st_def interrupted_def listener_step.simps)
  then show ?thesis
    by (simp add: st_def)
qed

theorem where_report_exclusive_witness:
  "\<exists>s. where_reach s \<and> lpc s = L_where \<and> hpc s = H_lock Listener_thread
     \<and> (\<forall>t. any_step\<^sup>*\<^sup>* s t \<longrightarrow> lpc t = L_where \<and> spc t \<noteq> S_done)"
proof -
  let ?s = "\<lparr>where_lock = Held_by_listener, lpc = L_where, spc = S_loop, hpc = H_lock Listener_thread, running_flag = True\<rparr>"
  have "where_reach ?s"
    by (rule where_reach.environment [OF reporting]) (auto simp: environment_step.simps)
  from this where_report_exclusive [OF this] show ?thesis
    by fastforce
qed

lemma ends_step:
  "program_step s u \<Longrightarrow> \<exists>t. program_step\<^sup>*\<^sup>* u t \<and> P t \<Longrightarrow> \<exists>t. program_step\<^sup>*\<^sup>* s t \<and> P t"
  by (blast intro: converse_rtranclp_into_rtranclp)

text \<open>A listener that is before its wait, or in it, stays there when nobody notifies any more.\<close>

lemma listener_stuck:
  assumes "program_step\<^sup>*\<^sup>* s t" "spc s = S_join" "hpc s = H_idle" "lpc s \<in> {L_lock, L_wait, L_waiting}"
  shows "spc t = S_join"
proof -
  let ?P = "\<lambda>u. spc u = S_join \<and> hpc u = H_idle \<and> lpc u \<in> {L_lock, L_wait, L_waiting}"
  have "?P v" if "program_step u v" "?P u" for u v
    using that by (auto elim!: programE listenerE samplerE handlerE)
  then have "?P t"
    using assms(2-4) by (intro run_keeps [where P = ?P, OF assms(1)]) auto
  then show ?thesis
    by blast
qed

text \<open>One that has been woken comes to its end, and so does the join.\<close>

lemma join_exited:
  assumes "lpc s = L_exit" "spc s = S_join" "hpc s = H_idle"
  shows "\<exists>t. program_step\<^sup>*\<^sup>* s t \<and> spc t = S_done"
proof -
  have "program_step s (s\<lparr>spc := S_done\<rparr>)"
    using assms by (intro program_step.sampler sampler_thread_step.join) (simp_all add: interrupted_def)
  then show ?thesis
    by (intro exI [of _ "s\<lparr>spc := S_done\<rparr>"]) auto
qed

lemma join_checking:
  assumes "lpc s = L_check" "\<not> running_flag s" "spc s = S_join" "hpc s = H_idle"
  shows "\<exists>t. program_step\<^sup>*\<^sup>* s t \<and> spc t = S_done"
proof -
  have "program_step s (s\<lparr>lpc := L_exit, where_lock := Free\<rparr>)"
    using assms by (intro program_step.listener listener_step.break) (simp_all add: interrupted_def)
  then show ?thesis
    by (rule ends_step) (use assms in \<open>intro join_exited; simp\<close>)
qed

lemma join_woken:
  assumes "lpc s = L_woken" "where_lock s = Free" "\<not> running_flag s" "spc s = S_join" "hpc s = H_idle"
  shows "\<exists>t. program_step\<^sup>*\<^sup>* s t \<and> spc t = S_done"
proof -
  have "program_step s (s\<lparr>lpc := L_check, where_lock := Held_by_listener\<rparr>)"
    using assms by (intro program_step.listener listener_step.relock) (simp_all add: interrupted_def)
  then show ?thesis
    by (rule ends_step) (use assms in \<open>intro join_checking; simp\<close>)
qed

text \<open>C21: when \<open>teardown_where\<close> has notified the listener and joins it, the join returns, with no signal
  and no spurious wakeup to help, exactly if the notification has found the listener
  waiting, or the listener is through. If it was still on its way to \<open>wait\<close>, back from a report
  or just started, the notification is lost: \<open>wait\<close> is entered without a test of \<open>running\<close>, and
  the listener and the stop wait for each other.\<close>

theorem teardown_where_returns_iff:
  assumes "where_reach s" "spc s = S_join" "hpc s = H_idle"
  shows "(\<exists>t. program_step\<^sup>*\<^sup>* s t \<and> spc t = S_done) \<longleftrightarrow> lpc s \<in> {L_woken, L_check, L_exit}"
proof
  assume "\<exists>t. program_step\<^sup>*\<^sup>* s t \<and> spc t = S_done"
  then have "lpc s \<notin> {L_lock, L_wait, L_waiting}"
    using listener_stuck [OF _ assms(2,3)] by fastforce
  moreover have "lpc s \<noteq> L_where"
    using where_reach_inv [OF assms(1)] assms(2) by (simp add: where_inv_def)
  ultimately show "lpc s \<in> {L_woken, L_check, L_exit}"
    by (cases "lpc s") simp_all
next
  have inv: "where_inv s"
    using assms(1) by (rule where_reach_inv)
  then have flag: "\<not> running_flag s"
    using assms(2) by (simp add: where_inv_def)
  have lock: "where_lock s = Free" if "lpc s = L_woken"
    using that inv assms(2,3) by (cases "where_lock s") (auto simp: where_inv_def)
  assume "lpc s \<in> {L_woken, L_check, L_exit}"
  then show "\<exists>t. program_step\<^sup>*\<^sup>* s t \<and> spc t = S_done"
    using lock flag assms(2,3) join_woken join_checking join_exited by blast
qed

text \<open>A stop that comes before the listener has waited for the first time.\<close>

lemma early_stop:
  "where_reach \<lparr>where_lock = Free, lpc = L_lock, spc = S_join, hpc = H_idle, running_flag = False\<rparr>"
proof -
  define st where "st = (\<lambda>l p. \<lparr>where_lock = l, lpc = L_lock, spc = p, hpc = H_idle, running_flag = False\<rparr>)"
  note move = where_reach.program [OF _ program_step.sampler]
  have "where_reach (st Free S_loop)"
    using where_reach.environment [OF where_reach.start environment_step.stop] by (simp add: st_def where_start_def)
  then have "where_reach (st Free S_lock)"
    by (rule move) (auto simp: st_def interrupted_def sampler_thread_step.simps)
  then have "where_reach (st Held_by_sampler S_notify)"
    by (rule move) (auto simp: st_def interrupted_def sampler_thread_step.simps)
  then have "where_reach (st Held_by_sampler S_unlock)"
    by (rule move) (auto simp: st_def interrupted_def sampler_thread_step.simps notify_one_def)
  then have "where_reach (st Free S_join)"
    by (rule move) (auto simp: st_def interrupted_def sampler_thread_step.simps)
  then show ?thesis
    by (simp add: st_def)
qed

theorem teardown_where_returns_iff_witness:
  "\<exists>s. where_reach s \<and> spc s = S_join \<and> lpc s = L_lock \<and> \<not> (\<exists>t. program_step\<^sup>*\<^sup>* s t \<and> spc t = S_done)"
  using teardown_where_returns_iff [OF early_stop] early_stop by fastforce

end
