(* ===== verification/Recording.thy ===== *)
theory Recording
  imports Session
begin

text \<open>
  The file a session leaves: what the calls of the sampler, passed on by the renderer in
  charge, put into the output, and what a reader gets out of it. No code of its own; it puts
  \<open>Mojo\<close> and \<open>Session\<close> together.
\<close>

section \<open>The output of a run\<close>

text \<open>
  \<open>render_stack_end\<close> looks at the \<open>cpu\<close> flag of the configuration when it is called, and the flag
  can be changed in between: the log has its value at each call.
\<close>

type_synonym call_log = "(bool \<times> rcall) list"

definition mojo_record :: "call_log \<Rightarrow> mojo_renderer \<Rightarrow> mojo_renderer" where
  "mojo_record log r = fold (\<lambda>(mode, c). mojo_call mode c) log r"

fun log_items :: "i64 \<Rightarrow> call_log \<Rightarrow> mojo_item list" where
  "log_items metric [] = []"
| "log_items metric ((mode, c) # log) =
     call_items mode metric [c] @ log_items (case c of R_render_cpu_time t \<Rightarrow> t | _ \<Rightarrow> metric) log"

lemma body_call_iff: "body_call c \<longleftrightarrow> sampling_call c \<and> list_all c_string (call_text c)"
  by (cases c) simp_all

lemma mojo_call_metric:
  "body_call c \<Longrightarrow> mj_metric (mojo_call mode c r) = (case c of R_render_cpu_time t \<Rightarrow> t | _ \<Rightarrow> mj_metric r)"
proof (cases c)
  case (R_render_stack_end m d)
  then show ?thesis
    by (cases m) (simp_all add: mj_put_def)
qed (simp_all add: mj_put_def)

lemma mojo_record_items:
  assumes "list_all body_call (map snd log)" "mj_open r"
  shows "mj_output (mojo_record log r) = mj_output r @ concat (map item_bytes (log_items (mj_metric r) log))
    \<and> mj_open (mojo_record log r)"
  using assms
proof (induction log arbitrary: r)
  case (Cons x log)
  obtain mode c where x: "x = (mode, c)"
    by (cases x)
  have c: "body_call c"
    using Cons.prems(1) by (simp add: x)
  then have one: "mj_output (mojo_call mode c r) = mj_output r @ concat (map item_bytes (call_items mode (mj_metric r) [c]))"
    "mj_open (mojo_call mode c r)"
    using mojo_run_items [of "[c]" r mode] Cons.prems(2) by simp_all
  have "mojo_record (x # log) r = mojo_record log (mojo_call mode c r)"
    by (simp add: mojo_record_def x)
  with Cons.IH [OF _ one(2)] Cons.prems(1) show ?case
    by (simp add: x one(1) mojo_call_metric [OF c])
qed (simp add: mojo_record_def)

lemma log_items_ok: "list_all body_call (map snd log) \<Longrightarrow> list_all item_ok (log_items m log)"
proof (induction m log rule: log_items.induct)
  case (2 metric mode c log)
  then show ?case
    using call_items_ok [of "[c]" mode metric] by simp
qed simp

section \<open>What the reader can resolve\<close>

text \<open>
  A reader that goes through the items once: \<open>S\<close> and \<open>F\<close> are the keys of the strings and of the
  frames that have been defined so far.
\<close>

fun item_closed :: "addr set \<Rightarrow> addr set \<Rightarrow> mojo_item \<Rightarrow> bool" where
  "item_closed S F (I_frame k f n l le c ce) = (f \<in> S \<and> n \<in> S)"
| "item_closed S F (I_frame_ref k) = (k \<in> F)"
| "item_closed S F (I_string_ref k) = (k \<in> S)"
| "item_closed S F _ = True"

fun item_strings :: "mojo_item \<Rightarrow> addr set" where
  "item_strings (I_string k str) = {k}"
| "item_strings _ = {}"

fun item_frames :: "mojo_item \<Rightarrow> addr set" where
  "item_frames (I_frame k f n l le c ce) = {k}"
| "item_frames _ = {}"

fun items_closed :: "addr set \<Rightarrow> addr set \<Rightarrow> mojo_item list \<Rightarrow> bool" where
  "items_closed S F [] = True"
| "items_closed S F (i # is) = (item_closed S F i \<and> items_closed (S \<union> item_strings i) (F \<union> item_frames i) is)"

lemma items_closed_append:
  "items_closed S F (is @ js) \<longleftrightarrow>
     items_closed S F is \<and> items_closed (S \<union> \<Union> (item_strings ` set is)) (F \<union> \<Union> (item_frames ` set is)) js"
  by (induction "is" arbitrary: S F) (auto simp: Un_assoc)

lemma call_item_closed:
  assumes "call_ok S F c"
  shows "items_closed S F (call_items mode m [c])"
    and "\<Union> (item_strings ` set (call_items mode m [c])) = defines_string c"
    and "\<Union> (item_frames ` set (call_items mode m [c])) = defines_frame c"
proof -
  show "items_closed S F (call_items mode m [c])"
  proof (cases c)
    case (R_render_stack_end t d)
    then show ?thesis
      by (cases t) simp_all
  qed (use assms in \<open>auto simp: ref_item_def\<close>)
  show "\<Union> (item_strings ` set (call_items mode m [c])) = defines_string c"
    "\<Union> (item_frames ` set (call_items mode m [c])) = defines_frame c"
    by (cases c; (cases "case c of R_render_stack_end t d \<Rightarrow> t | _ \<Rightarrow> Time")?; simp add: ref_item_def)+
qed

lemma log_items_closed:
  "refs_ok S F (map snd log) \<Longrightarrow> items_closed S F (log_items m log)"
proof (induction log arbitrary: S F m)
  case (Cons x log)
  obtain mode c where x: "x = (mode, c)"
    by (cases x)
  have c: "call_ok S F c" and rest: "refs_ok (S \<union> defines_string c) (F \<union> defines_frame c) (map snd log)"
    using Cons.prems by (simp_all add: x)
  from Cons.IH [OF rest] show ?case
    using call_item_closed [OF c, of mode m] by (simp add: x items_closed_append)
qed simp

lemma log_items_string:
  "R_string k str \<in> snd ` set log \<Longrightarrow> I_string k str \<in> set (log_items m log)"
proof (induction m log rule: log_items.induct)
  case (2 metric mode c log)
  then show ?case
    by (cases c) auto
qed simp

section \<open>A finished session\<close>

lemma teardown_memory_calls:
  assumes "teardown_memory V pid s = Some s'" "frames_ok s" "greenlets_named s"
  shows "\<exists>cs. calls s' = calls s @ cs \<and> list_all sampling_call cs \<and> refs_ok presets {} (calls s @ cs)"
proof -
  define t where "t = s\<lparr>allocators := (\<lambda>i. if i < 3 then original_allocators s i else allocators s i)\<rparr>"
  have t: "fold restore_domain [0..<ALLOC_DOMAIN_COUNT] s = t"
    unfolding t_def ALLOC_DOMAIN_COUNT_def by (rule restore_domains)
  have "upheld s s"
    using assms(2,3) by (simp add: upheld_def)
  then have "frames_ok t" "greenlets_named t"
    using assms(2,3) by (simp_all add: t_def frames_ok_def announced_def cache_owns_def cache_entries_def
        names_interned_def greenlets_named_def)
  then have up: "upheld t t"
    by (simp add: upheld_def)
  obtain u where u: "stats_flush V pid t = Some u" "calls s' = calls u"
    using assms(1) by (auto simp: teardown_memory_def t bind_eq_Some_iff Let_def stats_clear_def)
  from stats_flush_upheld [OF u(1) up] have "upheld t u" .
  then obtain cs where "calls u = calls t @ cs" "list_all sampling_call cs" "refs_ok presets {} (calls u)"
    by (auto simp: upheld_def frames_ok_def)
  then show ?thesis
    using u(2) by (intro exI [of _ cs]) (simp add: t_def)
qed

lemma stop_sampler_calls:
  assumes "stop_sampler M s = Some s'" "frames_ok s" "greenlets_named s"
  shows "\<exists>cs. calls s' = calls s @ cs @ [R_close] \<and> list_all sampling_call cs \<and> refs_ok presets {} (calls s @ cs)"
proof -
  obtain t where t: "(if memory_mode (conf s) then teardown_memory (ev_version (mo_environ M)) (ev_pid (mo_environ M)) s
        else Some s) = Some t" and "calls s' = calls t @ [R_close]"
    using assms(1)
    by (auto simp: stop_sampler_def reset_frame_cache_def restore_signals_def Let_def split: if_splits option.splits)
  moreover have "\<exists>cs. calls t = calls s @ cs \<and> list_all sampling_call cs \<and> refs_ok presets {} (calls s @ cs)"
  proof (cases "memory_mode (conf s)")
    case True
    then show ?thesis
      using t teardown_memory_calls [OF _ assms(2,3)] by simp
  next
    case False
    then show ?thesis
      using t assms(2) by (intro exI [of _ "[]"]) (simp add: frames_ok_def)
  qed
  ultimately show ?thesis
    by auto
qed

section \<open>Properties\<close>

lemma log_items_close: "log_items m (log @ [(mode, R_close)]) = log_items m log"
  by (induction m log rule: log_items.induct) simp_all

lemma log_calls_cases:
  assumes "map snd log = R_open # R_header # cs @ [R_close]"
  obtains m0 m1 m2 body where "log = (m0, R_open) # (m1, R_header) # body @ [(m2, R_close)]" "map snd body = cs"
  using assms by (auto simp: map_eq_Cons_conv map_eq_append_conv)

text \<open>C2: the file of a finished session can be read. When the names in it hold no NUL, whatever has
  been sampled and however the CPU flag was switched meanwhile, the reference reader gets out of
  the bytes written exactly the items that the calls after the header stand for, up to the
  last one; each of them refers only to strings and frames defined before it, and every
  name the module knew at the end is among them.\<close>

theorem recording_readable:
  assumes "session s0 s" "stop_sampler M s = Some s'" "map snd log = calls s'"
    and "\<forall>c \<in> set (calls s'). list_all c_string (call_text c)"
  shows "read_stream (mj_output (mojo_record log r)) = Some (log_items (mj_metric r) (drop 2 log))
    \<and> items_closed {} {} (log_items (mj_metric r) (drop 2 log))
    \<and> (\<forall>k str. string_table s k = Some str \<longrightarrow> I_string k str \<in> set (log_items (mj_metric r) (drop 2 log)))"
proof -
  from assms(1) obtain pid cs where cs: "calls s = R_open # start_calls (conf s0) pid @ cs" "list_all sampling_call cs"
    and ok: "frames_ok s" "greenlets_named s"
    by (rule session_calls)
  obtain ds where ds: "calls s' = calls s @ ds @ [R_close]" "list_all sampling_call ds" "refs_ok presets {} (calls s @ ds)"
    using stop_sampler_calls [OF assms(2) ok] by blast
  define body where "body = tl (start_calls (conf s0) pid) @ cs @ ds"
  have start: "start_calls (conf s0) pid = R_header # tl (start_calls (conf s0) pid)"
    by (simp add: start_calls_def)
  have calls: "calls s' = R_open # R_header # body @ [R_close]"
    using start by (simp add: ds(1) cs(1) body_def)
  obtain m0 m1 m2 lg where log: "log = (m0, R_open) # (m1, R_header) # lg @ [(m2, R_close)]" "map snd lg = body"
    using assms(3) unfolding calls by (rule log_calls_cases)
  have "list_all sampling_call body"
    using cs(2) ds(2) by (simp add: body_def start_calls_def)
  then have body: "list_all body_call (map snd lg)"
    using assms(4) by (auto simp: log(2) calls body_call_iff list_all_iff)
  have "refs_ok {} {} (start_calls (conf s0) pid @ cs @ ds)"
    using ds(3) by (simp add: cs(1) refs_ok_append start_calls_closed Un_assoc)
  then have closed: "refs_ok {} {} (map snd lg)"
    unfolding log(2) body_def by (subst (asm) start) simp
  define r1 where "r1 = mj_put m_header (snd (mojo_open True r))"
  have r1: "mj_output r1 = m_header" "mj_open r1" "mj_metric r1 = mj_metric r"
    by (simp_all add: r1_def mojo_open_def mj_put_def)
  have "mj_output (mojo_record log r) = mj_output (mojo_record lg r1)"
    by (simp add: mojo_record_def log(1) r1_def)
  then have out: "mj_output (mojo_record log r) = m_header @ concat (map item_bytes (log_items (mj_metric r) lg))"
    using mojo_record_items [OF body r1(2)] by (simp add: r1)
  have items: "log_items (mj_metric r) (drop 2 log) = log_items (mj_metric r) lg"
    by (simp add: log(1) log_items_close)
  have "I_string k str \<in> set (log_items (mj_metric r) lg)" if "string_table s k = Some str" for k str
  proof (rule log_items_string)
    have "R_string k str \<in> set (calls s')"
      using session_strings_sent [OF assms(1) that] by (simp add: ds(1))
    then have "R_string k str \<in> set body"
      by (auto simp: calls)
    then show "R_string k str \<in> snd ` set lg"
      using log(2) by (metis list.set_map)
  qed
  then show ?thesis
    unfolding items out using read_stream_items [OF log_items_ok [OF body]] log_items_closed [OF closed] by blast
qed

text \<open>A session in which one greenlet is tracked, recorded from its start to its stop.\<close>

lemma digits_c_string: "c_string (digits_in 10 n)"
proof (induction n rule: less_induct)
  case (less n)
  have digit: "digit_char d \<noteq> CHR 0x00" if "d < 10" for d
  proof
    assume "digit_char d = CHR 0x00"
    then have "(of_char (digit_char d) :: nat) = of_char (CHR 0x00)"
      by simp
    then show False
      using that by (simp add: digit_char_def)
  qed
  show ?case
    using less [of "n div 10"] digit [of n] digit [of "n mod 10"] by (subst digits_in.simps) (auto simp: c_string_def)
qed

theorem recording_readable_witness:
  "\<exists>s s' log items. session (start_core False) s \<and> stop_sampler sample_moment s = Some s' \<and> map snd log = calls s'
    \<and> read_stream (mj_output (mojo_record log new_mojo_renderer)) = Some items
    \<and> items_closed {} {} items \<and> I_string 196608 ''f'' \<in> set items"
proof -
  obtain s where s: "session (start_core False) s" "string_table s 196608 = Some ''f''"
    "conf s = default_config\<lparr>memory_mode := False\<rparr>"
    "calls s = R_open # start_calls (default_config\<lparr>memory_mode := False\<rparr>) 42 @ [R_string 196608 ''f'']"
    by (rule sample_tracked)
  obtain s' where stop: "stop_sampler sample_moment s = Some s'"
    using s(3) by (simp add: stop_sampler_def)
  then have "calls s' = calls s @ [R_close]"
    using s(3) by (auto simp: stop_sampler_def reset_frame_cache_def restore_signals_def Let_def split: option.split)
  then have names: "\<forall>c \<in> set (calls s'). list_all c_string (call_text c)"
    using digits_c_string by (auto simp: s(4) start_calls_def to_string_def c_string_def)
  have log: "map snd (map (Pair False) (calls s')) = calls s'"
    by (simp add: comp_def)
  from recording_readable [OF s(1) stop log names, of new_mojo_renderer] s stop log show ?thesis
    by blast
qed

text \<open>
  The hypothesis on names is needed: \<open>string\<close> writes the bytes of a name and a terminator, and
  nothing keeps a NUL out of a name. What follows it is taken for the next event: a name
  can hold a frame that was never sampled.
\<close>

theorem nul_in_name:
  assumes "c_string pre" "c_string scope"
  shows "read_stream (mj_output (mojo_record (map (Pair flag)
      [R_open, R_header, R_string k (pre @ [CHR 0x00, CHR 0x06] @ scope)]) r))
    = Some [I_string k pre, I_frame_kernel scope]"
proof -
  have "m_string (pre @ [CHR 0x00, CHR 0x06] @ scope) = m_string pre @ 6 # m_string scope"
    by (simp add: m_string_def byte_of_char_def)
  then have "mj_output (mojo_record (map (Pair flag) [R_open, R_header, R_string k (pre @ [CHR 0x00, CHR 0x06] @ scope)]) r)
      = m_header @ concat (map item_bytes [I_string k pre, I_frame_kernel scope])"
    by (simp add: mojo_record_def mojo_open_def mj_put_def m_string_event_def m_event_def m_ref_def)
  then show ?thesis
    using read_stream_items [of "[I_string k pre, I_frame_kernel scope]"] assms by simp
qed

end
